(* ===== verification/Prelude.thy ===== *)
theory Prelude
  imports Main "HOL-Library.Word" "HOL-Library.Monad_Syntax"
begin

unbundle bit_operations_syntax

text \<open>
  The vocabulary every component shares: the machine integers of the engine as words, byte strings,
  little-endian packing (\<open>to_le_bytes\<close> / \<open>from_le_bytes\<close>), \<open>usize::checked_add\<close>, and the capped
  \<open>VecDeque\<close> idiom (push to the back, then pop from the front while too long).
  Every Rust panic is \<open>None\<close> in an \<open>option\<close> result; every \<open>Err\<close> is \<open>Inl\<close> in a sum.
  Instants and durations are natural numbers of nanoseconds.
\<close>

section \<open>Machine types\<close>

type_synonym u8 = "8 word"
type_synonym u16 = "16 word"
type_synonym u32 = "32 word"
type_synonym u64 = "64 word"
type_synonym bytes = "u8 list"
type_synonym instant = nat
type_synonym duration = nat

text \<open>Collections of rewrite rules that the component theories extend and use.\<close>

named_theorems wire_simps "layout facts of encoded byte strings"
named_theorems eval_simps "unfolding on numerals, for concrete runs"
named_theorems frame_simps "what an operation leaves unchanged"
named_theorems inv_intros "preservation of the component invariants"

section \<open>Time\<close>

abbreviation (input) millis :: "nat \<Rightarrow> duration" where
  "millis n \<equiv> n * 1000000"

abbreviation (input) secs :: "nat \<Rightarrow> duration" where
  "secs n \<equiv> n * 1000000000"

text \<open>\<open>Instant::duration_since\<close> saturates at zero, as subtraction on natural numbers does.\<close>

definition duration_since :: "instant \<Rightarrow> instant \<Rightarrow> duration" where
  "duration_since later earlier = later - earlier"

definition as_millis :: "duration \<Rightarrow> nat" where
  "as_millis d = d div 1000000"

section \<open>Little-endian packing\<close>

primrec le_bytes :: "nat \<Rightarrow> 'a::len word \<Rightarrow> bytes" where
  "le_bytes 0 w = []"
| "le_bytes (Suc n) w = ucast w # le_bytes n (drop_bit 8 w)"

primrec of_le :: "bytes \<Rightarrow> 'a::len word" where
  "of_le [] = 0"
| "of_le (b # bs) = ucast b OR push_bit 8 (of_le bs)"

lemma le_bytes_numeral [eval_simps]:
  "le_bytes (numeral k) w = ucast w # le_bytes (pred_numeral k) (drop_bit 8 w)"
  by (simp add: numeral_eq_Suc)

text \<open>A word below \<open>2 ^ n\<close> has no bit at or above \<open>n\<close>, and conversely.\<close>

lemma bit_below_exp: "w < 2 ^ n \<Longrightarrow> bit (w :: 'a::len word) i \<Longrightarrow> i < n"
  using less_mask_eq [of w n] by (metis bit_and_iff bit_mask_iff)

lemma take_bit_below_exp: "n < LENGTH('a) \<Longrightarrow> take_bit n w = w \<Longrightarrow> (w :: 'a::len word) < 2 ^ n"
  using and_mask_less_size [of n w] by (simp add: take_bit_eq_mask word_size)

text \<open>The subslice \<open>&buf[a..b]\<close>; every use in the model is guarded by the source's own bound check.\<close>

definition subslice :: "'a list \<Rightarrow> nat \<Rightarrow> nat \<Rightarrow> 'a list" where
  "subslice buf a b = take (b - a) (drop a buf)"

lemma length_subslice: "b \<le> length buf \<Longrightarrow> length (subslice buf a b) = b - a"
  by (simp add: subslice_def)

abbreviation le16 :: "u16 \<Rightarrow> bytes" where "le16 \<equiv> le_bytes 2"
abbreviation le32 :: "u32 \<Rightarrow> bytes" where "le32 \<equiv> le_bytes 4"
abbreviation le64 :: "u64 \<Rightarrow> bytes" where "le64 \<equiv> le_bytes 8"

lemma length_le_bytes [simp]: "length (le_bytes n w) = n"
  by (induction n arbitrary: w) auto

lemma of_le_le_bytes_take: "(of_le (le_bytes n w) :: 'a::len word) = take_bit (8 * n) w"
proof (induction n arbitrary: w)
  case 0
  then show ?case by simp
next
  case (Suc n)
  show ?case
    by (rule bit_word_eqI)
      (auto simp: Suc.IH bit_simps)
qed

lemma of_le_le_bytes:
  "LENGTH('a) \<le> 8 * n \<Longrightarrow> (of_le (le_bytes n (w :: 'a::len word)) :: 'a word) = w"
  by (simp add: of_le_le_bytes_take take_bit_word_eq_self)

lemma le_bytes_cong:
  "take_bit (8 * n) x = take_bit (8 * n) y \<Longrightarrow> le_bytes n x = le_bytes n y"
proof (induction n arbitrary: x y)
  case 0
  then show ?case by simp
next
  case (Suc n)
  have bits: "i < 8 + 8 * n \<Longrightarrow> bit x i = bit y i" for i
    using arg_cong [OF Suc.prems, of "\<lambda>w. bit w i"] by (simp add: bit_simps)
  have hd: "(ucast x :: u8) = ucast y"
    using bits by (intro bit_word_eqI) (simp add: bit_simps)
  have tl: "take_bit (8 * n) (drop_bit 8 x) = take_bit (8 * n) (drop_bit 8 y)"
  proof (rule bit_word_eqI)
    fix i
    show "bit (take_bit (8 * n) (drop_bit 8 x)) i = bit (take_bit (8 * n) (drop_bit 8 y)) i"
      using bits [of "8 + i"] by (auto simp: bit_take_bit_iff bit_drop_bit_eq)
  qed
  show ?case by (simp only: le_bytes.simps hd Suc.IH [OF tl])
qed

lemma take_bit_drop_cons:
  fixes x :: "'a::len word"
  assumes "8 + n \<le> LENGTH('a)"
  shows "take_bit n (drop_bit 8 (ucast (b :: u8) OR push_bit 8 x)) = take_bit n x"
proof (rule bit_word_eqI)
  fix i
  assume "i < LENGTH('a)"
  show "bit (take_bit n (drop_bit 8 (ucast b OR push_bit 8 x))) i = bit (take_bit n x) i"
    using assms bit_imp_le_length [of b "8 + i"] by (cases "i < n") (auto simp: bit_simps)
qed

lemma ucast_cons:
  fixes x :: "'a::len word"
  assumes "8 \<le> LENGTH('a)"
  shows "ucast (ucast (b :: u8) OR push_bit 8 x) = b"
  using assms by (intro bit_word_eqI) (auto simp: bit_simps)

lemma le_bytes_of_le:
  "8 * length bs \<le> LENGTH('a) \<Longrightarrow> le_bytes (length bs) (of_le bs :: 'a::len word) = bs"
proof (induction bs)
  case Nil
  then show ?case by simp
next
  case (Cons b bs)
  let ?w = "ucast b OR push_bit 8 (of_le bs) :: 'a word"
  have "le_bytes (length bs) (drop_bit 8 ?w) = le_bytes (length bs) (of_le bs :: 'a word)"
    using Cons.prems by (intro le_bytes_cong take_bit_drop_cons) simp
  moreover have "ucast ?w = b"
    using Cons.prems by (intro ucast_cons) simp
  ultimately show ?case using Cons by simp
qed

declare le_bytes.simps [simp del, eval_simps] of_le.simps [simp del, eval_simps]

text \<open>
  A fixed-width codec: what the codecs of the engine use of \<open>to_le_bytes\<close> and \<open>from_le_bytes\<close>.
\<close>

locale fixed_codec =
  fixes enc :: "'a \<Rightarrow> bytes" and dec :: "bytes \<Rightarrow> 'a" and width :: nat
  assumes enc_length: "length (enc x) = width"
    and dec_enc: "dec (enc x) = x"
    and enc_dec: "length bs = width \<Longrightarrow> enc (dec bs) = bs"
begin

lemma take_enc: "take width (enc x @ rest) = enc x"
  using enc_length [of x] by simp

lemma drop_enc: "drop width (enc x @ rest) = rest"
  using enc_length [of x] by simp

lemma dec_take_enc: "dec (take width (enc x @ rest)) = x"
  by (simp only: take_enc dec_enc)

lemma enc_inject: "enc x = enc y \<longleftrightarrow> x = y"
  by (metis dec_enc)

lemma enc_dec_take: "width \<le> length bs \<Longrightarrow> enc (dec (take width bs)) = take width bs"
  by (simp add: enc_dec)

lemma split_dec: "width \<le> length bs \<Longrightarrow> bs = enc (dec (take width bs)) @ drop width bs"
  by (simp add: enc_dec_take)

end

lemma le_fixed_codec:
  assumes "LENGTH('a::len) = 8 * n"
  shows "fixed_codec (le_bytes n) (of_le :: bytes \<Rightarrow> 'a word) n"
proof (unfold_locales, goal_cases)
  case (1 x)
  show ?case by simp
next
  case (2 x)
  show ?case using assms by (simp add: of_le_le_bytes)
next
  case (3 bs)
  then show ?case using le_bytes_of_le [of bs, where 'a = 'a] assms by simp
qed

interpretation le16: fixed_codec le16 "of_le :: bytes \<Rightarrow> u16" 2
  by (rule le_fixed_codec) simp

interpretation le32: fixed_codec le32 "of_le :: bytes \<Rightarrow> u32" 4
  by (rule le_fixed_codec) simp

interpretation le64: fixed_codec le64 "of_le :: bytes \<Rightarrow> u64" 8
  by (rule le_fixed_codec) simp

section \<open>Checked and capped operations\<close>

text \<open>\<open>usize::checked_add\<close> and \<open>checked_mul\<close> on a 64-bit target.\<close>

definition usize_checked_add :: "nat \<Rightarrow> nat \<Rightarrow> nat option" where
  "usize_checked_add a b = (if a + b < 2 ^ 64 then Some (a + b) else None)"

definition usize_checked_mul :: "nat \<Rightarrow> nat \<Rightarrow> nat option" where
  "usize_checked_mul a b = (if a * b < 2 ^ 64 then Some (a * b) else None)"

lemma usize_checked_add_small [simp]:
  "a + b < 2 ^ 64 \<Longrightarrow> usize_checked_add a b = Some (a + b)"
  by (simp add: usize_checked_add_def)

lemma usize_checked_add_SomeD: "usize_checked_add a b = Some c \<Longrightarrow> c = a + b"
  by (auto simp: usize_checked_add_def split: if_splits)

lemma usize_checked_mul_small [simp]:
  "a * b < 2 ^ 64 \<Longrightarrow> usize_checked_mul a b = Some (a * b)"
  by (simp add: usize_checked_mul_def)

text \<open>
  \<open>q.push_back(x); while q.len() > cap { q.pop_front(); }\<close>: the bounded memories of the session
  layer (\<open>ch3_seen\<close>, \<open>delivered_seqs\<close>, \<open>completed\<close>).
\<close>

definition push_capped :: "nat \<Rightarrow> 'a list \<Rightarrow> 'a \<Rightarrow> 'a list" where
  "push_capped cap q x = (let q' = q @ [x] in drop (length q' - cap) q')"

lemma length_push_capped: "length (push_capped cap q x) = min cap (Suc (length q))"
  by (auto simp: push_capped_def Let_def)

lemma length_push_capped_le: "length (push_capped cap q x) \<le> cap"
  by (simp add: length_push_capped)

lemma set_push_capped_subset: "set (push_capped cap q x) \<subseteq> insert x (set q)"
  using set_drop_subset [of "length (q @ [x]) - cap" "q @ [x]"]
  by (auto simp: push_capped_def Let_def)

lemma push_capped_mem: "0 < cap \<Longrightarrow> x \<in> set (push_capped cap q x)"
  by (auto simp: push_capped_def Let_def drop_append)

lemma push_capped_room: "length q < cap \<Longrightarrow> push_capped cap q x = q @ [x]"
  by (simp add: push_capped_def Let_def)

lemma push_capped_full: "length q = cap \<Longrightarrow> 0 < cap \<Longrightarrow> push_capped cap q x = tl q @ [x]"
  by (cases q) (auto simp: push_capped_def Let_def)

end
