(* ===== verification/Proto_Types.thy ===== *)
theory Proto_Types
  imports Prelude
begin

text \<open>
  The protocol constants of \<open>src/protocol/types.rs\<close> and the error type of \<open>src/error.rs\<close>.
  The text carried by \<open>Error::Protocol\<close> is a formatted message in the source; the model keeps one
  constructor of \<open>perr\<close> per message, with the values the message prints.
\<close>

section \<open>Client datagram constants\<close>

definition MAGIC :: u16 where "MAGIC = 0x5A50"
definition VERSION :: u8 where "VERSION = 1"
definition MTU :: nat where "MTU = 1200"

definition FLAG_FRAGMENT :: u8 where "FLAG_FRAGMENT = 1"
definition FLAG_PURE_ACK :: u8 where "FLAG_PURE_ACK = 2"
definition FLAG_HANDSHAKE :: u8 where "FLAG_HANDSHAKE = 4"
definition FLAG_ENCRYPTED :: u8 where "FLAG_ENCRYPTED = 8"
definition FLAG_HMAC :: u8 where "FLAG_HMAC = 16"

definition CH_UNRELIABLE_UNORDERED :: u8 where "CH_UNRELIABLE_UNORDERED = 0"
definition CH_UNRELIABLE_SEQUENCED :: u8 where "CH_UNRELIABLE_SEQUENCED = 1"
definition CH_RELIABLE_ORDERED :: u8 where "CH_RELIABLE_ORDERED = 2"
definition CH_RELIABLE_UNORDERED :: u8 where "CH_RELIABLE_UNORDERED = 3"

definition MSG_ID_MASK :: u16 where "MSG_ID_MASK = 0x0FFF"

lemmas flag_defs = FLAG_FRAGMENT_def FLAG_PURE_ACK_def FLAG_HANDSHAKE_def FLAG_ENCRYPTED_def
  FLAG_HMAC_def

lemmas ch_defs = CH_UNRELIABLE_UNORDERED_def CH_UNRELIABLE_SEQUENCED_def CH_RELIABLE_ORDERED_def
  CH_RELIABLE_UNORDERED_def

section \<open>Logic-server frame types\<close>

definition FRAME_ENGINE_HELLO :: u8 where "FRAME_ENGINE_HELLO = 0x30"
definition FRAME_SESSION_OPEN :: u8 where "FRAME_SESSION_OPEN = 0x01"
definition FRAME_SESSION_CLOSE :: u8 where "FRAME_SESSION_CLOSE = 0x02"
definition FRAME_SESSION_RESUME :: u8 where "FRAME_SESSION_RESUME = 0x03"
definition FRAME_DATA_UP :: u8 where "FRAME_DATA_UP = 0x10"
definition FRAME_SESSION_STATS :: u8 where "FRAME_SESSION_STATS = 0x20"
definition FRAME_OVERLOAD :: u8 where "FRAME_OVERLOAD = 0x2F"
definition FRAME_LOGIC_HELLO :: u8 where "FRAME_LOGIC_HELLO = 0x90"
definition FRAME_SEND :: u8 where "FRAME_SEND = 0x81"
definition FRAME_MULTICAST :: u8 where "FRAME_MULTICAST = 0x82"
definition FRAME_KICK :: u8 where "FRAME_KICK = 0x83"
definition FRAME_SET_BUDGET :: u8 where "FRAME_SET_BUDGET = 0x84"

lemmas frame_type_defs = FRAME_ENGINE_HELLO_def FRAME_SESSION_OPEN_def FRAME_SESSION_CLOSE_def
  FRAME_SESSION_RESUME_def FRAME_DATA_UP_def FRAME_SESSION_STATS_def FRAME_OVERLOAD_def
  FRAME_LOGIC_HELLO_def FRAME_SEND_def FRAME_MULTICAST_def FRAME_KICK_def FRAME_SET_BUDGET_def

section \<open>Session life cycle, timeouts, bounds\<close>

definition HANDSHAKE_TIMEOUT :: duration where "HANDSHAKE_TIMEOUT = secs 3"
definition IDLE_GRACE :: duration where "IDLE_GRACE = secs 5"
definition RECONNECT_GRACE :: duration where "RECONNECT_GRACE = secs 20"
definition HEARTBEAT_INTERVAL :: duration where "HEARTBEAT_INTERVAL = secs 1"
definition TIMEOUT_MIN :: duration where "TIMEOUT_MIN = millis 1500"
definition TIMEOUT_MAX :: duration where "TIMEOUT_MAX = secs 5"
definition RECONNECT_MIN :: duration where "RECONNECT_MIN = secs 5"
definition RECONNECT_MAX :: duration where "RECONNECT_MAX = secs 20"
definition RETRANSMIT_QUEUE_CAP :: nat where "RETRANSMIT_QUEUE_CAP = 64"
definition RTO_MIN :: duration where "RTO_MIN = millis 50"
definition RTO_MAX :: duration where "RTO_MAX = secs 1"
definition DEFAULT_SESSION_SHARDS :: nat where "DEFAULT_SESSION_SHARDS = 8"
definition UP_QUEUE_CAP :: nat where "UP_QUEUE_CAP = 4096"
definition MAX_FRAME_BODY :: nat where "MAX_FRAME_BODY = 1024 * 1024"

lemmas timeout_defs = HANDSHAKE_TIMEOUT_def IDLE_GRACE_def RECONNECT_GRACE_def
  HEARTBEAT_INTERVAL_def TIMEOUT_MIN_def TIMEOUT_MAX_def RECONNECT_MIN_def RECONNECT_MAX_def

section \<open>Errors\<close>

datatype perr =
    BadVersion u8
  | BadChannel u8
  | MsgIdTooBig u16
  | LengthOverflow
  | OverMtu nat
  | TooShort nat
  | BadMagic u16
  | FrameHeadCut nat
  | BodyOutOfBounds nat nat
  | FrameBodyTooBig nat
  | BodyTooShort
  | TokenOutOfBounds
  | StreamBufferOverflow
  | BadFragment u8 u8
  | RetransmitOverflow

datatype error =
    ErrIo
  | ErrSend
  | ErrProtocol perr
  | ErrSessionNotFound u64
  | ErrClosed
  | ErrConfig

type_synonym 'a res = "error + 'a"

abbreviation proto_err :: "perr \<Rightarrow> 'a res" where
  "proto_err e \<equiv> Inl (ErrProtocol e)"

text \<open>The \<open>?\<close> operator.\<close>

definition try_res :: "'a res \<Rightarrow> ('a \<Rightarrow> 'b res) \<Rightarrow> 'b res" where
  "try_res r f = (case r of Inl e \<Rightarrow> Inl e | Inr x \<Rightarrow> f x)"

lemma try_res_simps [simp]: "try_res (Inl e) f = Inl e" "try_res (Inr x) f = f x"
  by (simp_all add: try_res_def)

lemma try_res_InrE:
  assumes "try_res r f = Inr y"
  obtains x where "r = Inr x" and "f x = Inr y"
  using assms by (cases r) auto

end
