(* ===== verification/Datagram.thy ===== *)
theory Datagram
  imports Proto_Types
begin

unbundle bit_operations_syntax

text \<open>
  The client datagram codec of \<open>src/protocol/datagram.rs\<close>: header and message frames as records,
  \<open>encode\<close> with its checks before any byte is written, and \<open>decode\<close> with its position-indexed loop.
  The lemmas show that the two are mutually inverse on exactly the accepted byte strings.
\<close>

section \<open>Data and operations\<close>

definition HEADER_LEN :: nat where "HEADER_LEN = 16"

record datagram_header =
  dh_version :: u8
  dh_flags :: u8
  dh_conn_id :: u32
  dh_seq :: u16
  dh_ack :: u16
  dh_ack_bits :: u32

record frame_ref =
  fr_ch :: u8
  fr_msg_id :: u16
  fr_body :: bytes

definition new_frame_ref :: "u8 \<Rightarrow> u16 \<Rightarrow> bytes \<Rightarrow> frame_ref" where
  "new_frame_ref ch msg_id body = \<lparr>fr_ch = ch, fr_msg_id = msg_id, fr_body = body\<rparr>"

definition is_handshake :: "frame_ref \<Rightarrow> bool" where
  "is_handshake f \<longleftrightarrow> fr_ch f = CH_UNRELIABLE_UNORDERED"

definition handshake_header :: datagram_header where
  "handshake_header = \<lparr>dh_version = VERSION, dh_flags = FLAG_HANDSHAKE, dh_conn_id = 0,
     dh_seq = 0, dh_ack = 0, dh_ack_bits = 0\<rparr>"

text \<open>The first loop of \<open>encode\<close>: every check, before anything is written.\<close>

fun check_frames :: "frame_ref list \<Rightarrow> nat \<Rightarrow> nat res" where
  "check_frames [] tot = Inr tot"
| "check_frames (f # fs) tot =
     (if 3 < fr_ch f then proto_err (BadChannel (fr_ch f))
      else if 0x0FFF < fr_msg_id f then proto_err (MsgIdTooBig (fr_msg_id f))
      else case Option.bind (usize_checked_add tot 4)
                  (\<lambda>t. usize_checked_add t (length (fr_body f))) of
             None \<Rightarrow> proto_err LengthOverflow
           | Some tot' \<Rightarrow>
               if MTU < tot' then proto_err (OverMtu tot') else check_frames fs tot')"

definition encode_header :: "datagram_header \<Rightarrow> bytes" where
  "encode_header h = le16 MAGIC @ [dh_version h, dh_flags h] @ le32 (dh_conn_id h) @
     le16 (dh_seq h) @ le16 (dh_ack h) @ le32 (dh_ack_bits h)"

definition frame_head :: "frame_ref \<Rightarrow> u16" where
  "frame_head f = push_bit 4 (fr_msg_id f) OR ucast (fr_ch f)"

definition encode_frame :: "frame_ref \<Rightarrow> bytes" where
  "encode_frame f = le16 (frame_head f) @ le16 (of_nat (length (fr_body f))) @ fr_body f"

definition encode :: "datagram_header \<Rightarrow> frame_ref list \<Rightarrow> bytes \<Rightarrow> (bytes \<times> nat) res" where
  "encode h fs out =
     (if dh_version h \<noteq> VERSION then proto_err (BadVersion (dh_version h))
      else try_res (check_frames fs HEADER_LEN) (\<lambda>_.
        let out' = out @ encode_header h @ concat (map encode_frame fs)
        in Inr (out', length out' - length out)))"

text \<open>The loop of \<open>decode\<close>: \<open>pos\<close> walks over \<open>buf\<close>, \<open>acc\<close> is the vector of frames so far.\<close>

function decode_frames :: "bytes \<Rightarrow> nat \<Rightarrow> frame_ref list \<Rightarrow> frame_ref list res" where
  "decode_frames buf pos acc =
     (if pos < length buf then
        if length buf - pos < 4 then proto_err (FrameHeadCut (length buf - pos))
        else
          let head = of_le [buf ! pos, buf ! (pos + 1)] :: u16;
              ch = ucast (head AND 0x000F) :: u8;
              msg_id = drop_bit 4 head;
              len = unat (of_le [buf ! (pos + 2), buf ! (pos + 3)] :: u16);
              body_start = pos + 4
          in if 3 < ch then proto_err (BadChannel ch)
             else case usize_checked_add body_start len of
               None \<Rightarrow> proto_err LengthOverflow
             | Some body_end \<Rightarrow>
                 if length buf < body_end
                 then proto_err (BodyOutOfBounds len (length buf - body_start))
                 else decode_frames buf body_end
                        (acc @ [new_frame_ref ch msg_id (subslice buf body_start body_end)])
      else Inr acc)"
  by pat_completeness auto
termination
  by (relation "measure (\<lambda>(buf, pos, acc). length buf - pos)")
    (auto dest!: usize_checked_add_SomeD)

declare decode_frames.simps [simp del]

definition decode_header :: "bytes \<Rightarrow> datagram_header" where
  "decode_header buf = \<lparr>dh_version = buf ! 2, dh_flags = buf ! 3,
     dh_conn_id = of_le (subslice buf 4 8), dh_seq = of_le (subslice buf 8 10),
     dh_ack = of_le (subslice buf 10 12), dh_ack_bits = of_le (subslice buf 12 16)\<rparr>"

definition decode :: "bytes \<Rightarrow> (datagram_header \<times> frame_ref list) res" where
  "decode buf =
     (if length buf < HEADER_LEN then proto_err (TooShort (length buf))
      else if MTU < length buf then proto_err (OverMtu (length buf))
      else let magic = of_le [buf ! 0, buf ! 1] :: u16; version = buf ! 2 in
        if magic \<noteq> MAGIC then proto_err (BadMagic magic)
        else if version \<noteq> VERSION then proto_err (BadVersion version)
        else try_res (decode_frames buf HEADER_LEN []) (\<lambda>frames. Inr (decode_header buf, frames)))"

section \<open>Valid frames\<close>

definition valid_frame :: "frame_ref \<Rightarrow> bool" where
  "valid_frame f \<longleftrightarrow> fr_ch f \<le> 3 \<and> fr_msg_id f \<le> 0x0FFF \<and> length (fr_body f) < 2 ^ 16"

definition frames_size :: "frame_ref list \<Rightarrow> nat" where
  "frames_size fs = sum_list (map (\<lambda>f. 4 + length (fr_body f)) fs)"

lemma frames_size_simps [simp]:
  "frames_size [] = 0"
  "frames_size (f # fs) = 4 + length (fr_body f) + frames_size fs"
  "frames_size (fs @ gs) = frames_size fs + frames_size gs"
  by (simp_all add: frames_size_def)

lemma length_encode_frame [simp]: "length (encode_frame f) = 4 + length (fr_body f)"
  by (simp add: encode_frame_def)

lemma length_encode_frames [simp]: "length (concat (map encode_frame fs)) = frames_size fs"
  by (induction fs) auto

lemma length_encode_header [simp]: "length (encode_header h) = HEADER_LEN"
  by (simp add: encode_header_def HEADER_LEN_def)

lemma check_frames_Inr_iff:
  "tot \<le> MTU \<Longrightarrow> check_frames fs tot = Inr n \<longleftrightarrow>
     n = tot + frames_size fs \<and> tot + frames_size fs \<le> MTU
     \<and> (\<forall>f \<in> set fs. fr_ch f \<le> 3 \<and> fr_msg_id f \<le> 0x0FFF)"
proof (induction fs arbitrary: tot)
  case Nil
  then show ?case by auto
next
  case (Cons f fs)
  let ?t = "tot + 4 + length (fr_body f)"
  show ?case
  proof (cases "?t \<le> MTU")
    case True
    then have "Option.bind (usize_checked_add tot 4) (\<lambda>t. usize_checked_add t (length (fr_body f))) = Some ?t"
      by (simp add: MTU_def)
    with True Cons.IH [OF True] show ?thesis
      by (auto simp: not_less add.assoc not_le)
  next
    case False
    then have "check_frames (f # fs) tot \<noteq> Inr n"
      using Cons.prems
      by (auto split: option.splits Option.bind_splits dest!: usize_checked_add_SomeD)
    with False show ?thesis by auto
  qed
qed

section \<open>Frame heads\<close>

lemma head_channel:
  assumes "fr_ch f \<le> 3"
  shows "ucast (frame_head f AND 0x000F) = fr_ch f"
proof -
  from assms have c: "fr_ch f < 2 ^ 2" by unat_arith
  have "ucast (frame_head f AND mask 4) = fr_ch f"
  proof (rule bit_word_eqI)
    fix i
    assume "i < LENGTH(8)"
    then show "bit (ucast (frame_head f AND mask 4) :: u8) i = bit (fr_ch f) i"
      using bit_below_exp [OF c, of i] by (auto simp: frame_head_def bit_simps)
  qed
  then show ?thesis by (simp add: mask_eq_exp_minus_1)
qed

lemma head_msg_id:
  assumes "fr_ch f \<le> 3" and "fr_msg_id f \<le> 0x0FFF"
  shows "drop_bit 4 (frame_head f) = fr_msg_id f"
proof (rule bit_word_eqI)
  fix i
  from assms have c: "fr_ch f < 2 ^ 2" and m: "fr_msg_id f < 2 ^ 12" by unat_arith+
  show "bit (drop_bit 4 (frame_head f)) i = bit (fr_msg_id f) i"
    using bit_below_exp [OF c, of "4 + i"] bit_below_exp [OF m, of i]
    by (auto simp: frame_head_def bit_simps)
qed

lemma head_rebuild:
  fixes head :: u16
  shows "push_bit 4 (drop_bit 4 head) OR ucast (ucast (head AND 0x000F) :: u8) = head"
proof -
  have "push_bit 4 (drop_bit 4 head) OR ucast (ucast (head AND mask 4) :: u8) = head"
  proof (rule bit_word_eqI)
    fix i
    assume "i < LENGTH(16)"
    then show "bit (push_bit 4 (drop_bit 4 head) OR ucast (ucast (head AND mask 4) :: u8)) i = bit head i"
      by (cases "i < 4") (auto simp: bit_simps)
  qed
  then show ?thesis by (simp add: mask_eq_exp_minus_1)
qed

lemma drop_head_bound: "drop_bit 4 (head :: u16) \<le> 0x0FFF"
proof -
  have "take_bit 12 (drop_bit 4 head) = drop_bit 4 head"
    by (rule bit_word_eqI) (auto simp: bit_simps dest: bit_imp_le_length)
  then have "drop_bit 4 head < 2 ^ 12" by (intro take_bit_below_exp) simp_all
  then show ?thesis by unat_arith
qed

section \<open>The decoding loop, frame by frame\<close>

lemma le16_two: "le16 w = [le16 w ! 0, le16 w ! 1]"
  by (simp add: eval_simps)

lemma nth_append_drop: "drop pos buf = xs @ ys \<Longrightarrow> i < length xs \<Longrightarrow> buf ! (pos + i) = xs ! i"
  by (metis nth_append nth_drop length_drop length_append add_lessD1 nat_le_linear
      drop_all append_is_Nil_conv list.size(3) not_less_zero)

text \<open>One iteration over the encoding of a valid frame appends exactly that frame.\<close>

lemma decode_frames_encoded:
  assumes d: "drop pos buf = encode_frame f @ rest" and v: "valid_frame f"
    and sz: "length buf < 2 ^ 63"
  shows "decode_frames buf pos acc = decode_frames buf (pos + 4 + length (fr_body f)) (acc @ [f])"
proof -
  let ?len = "length (fr_body f)"
  let ?h = "frame_head f"
  have L: "length buf = pos + 4 + ?len + length rest" "pos \<le> length buf"
  proof -
    have "length buf - pos = 4 + ?len + length rest"
      using arg_cong [OF d, of length] by simp
    then show "length buf = pos + 4 + ?len + length rest" "pos \<le> length buf" by auto
  qed
  have n: "buf ! (pos + i) = (le16 ?h @ le16 (of_nat ?len)) ! i" if "i < 4" for i
    using nth_append_drop [of pos buf "le16 ?h @ le16 (of_nat ?len)" "fr_body f @ rest" i] d that
    by (simp add: encode_frame_def)
  have h: "of_le [buf ! pos, buf ! (pos + 1)] = ?h"
    using n [of 0] n [of 1] le16.dec_enc [of ?h] le16_two [of ?h] by (simp add: nth_append)
  have l: "of_le [buf ! (pos + 2), buf ! (pos + 3)] = (of_nat ?len :: u16)"
    using n [of 2] n [of 3] le16.dec_enc [of "of_nat ?len"] le16_two [of "of_nat ?len"]
    by (simp add: nth_append)
  have u: "unat (of_nat ?len :: u16) = ?len"
    using v by (simp add: valid_frame_def unat_of_nat)
  have body: "subslice buf (pos + 4) (pos + 4 + ?len) = fr_body f"
  proof -
    have "drop (pos + 4) buf = drop 4 (drop pos buf)" by (simp add: add.commute)
    also have "\<dots> = fr_body f @ rest" by (simp add: d encode_frame_def)
    finally show ?thesis by (simp add: subslice_def)
  qed
  have f: "new_frame_ref (ucast (?h AND 0x000F)) (drop_bit 4 ?h) (fr_body f) = f"
    using v by (simp add: new_frame_ref_def valid_frame_def head_channel head_msg_id)
  have c: "usize_checked_add (pos + 4) ?len = Some (pos + 4 + ?len)"
    using L sz by simp
  have "\<not> 3 < (ucast (?h AND 0x000F) :: u8)"
    using v by (simp add: valid_frame_def head_channel not_less)
  then show ?thesis
    using L by (subst decode_frames.simps) (simp add: Let_def h [simplified] l [simplified] u c body f)
qed

lemma decode_frames_all:
  assumes "drop pos buf = concat (map encode_frame fs)" and "\<forall>f \<in> set fs. valid_frame f"
    and "length buf < 2 ^ 63"
  shows "decode_frames buf pos acc = Inr (acc @ fs)"
  using assms
proof (induction fs arbitrary: pos acc)
  case Nil
  then show ?case by (subst decode_frames.simps) auto
next
  case (Cons f fs)
  have "drop (pos + 4 + length (fr_body f)) buf = drop (4 + length (fr_body f)) (drop pos buf)"
    by (simp add: add_ac)
  also have "\<dots> = concat (map encode_frame fs)"
    using Cons.prems(1) by (simp add: length_encode_frame [symmetric] del: length_encode_frame)
  finally have "drop (pos + 4 + length (fr_body f)) buf = concat (map encode_frame fs)" .
  then show ?case
    using Cons.IH Cons.prems decode_frames_encoded [of pos buf f] by simp
qed

text \<open>Conversely, a run that succeeds has read a sequence of valid frames and nothing else.\<close>

lemma encode_frame_read:
  fixes head :: u16
  assumes d: "drop pos buf = h0 # h1 # l0 # l1 # rest"
    and len: "unat (of_le [l0, l1] :: u16) \<le> length rest"
  defines "n \<equiv> unat (of_le [l0, l1] :: u16)"
  defines "f \<equiv> new_frame_ref (ucast ((of_le [h0, h1] :: u16) AND 0x000F))
      (drop_bit 4 (of_le [h0, h1])) (take n rest)"
  shows "encode_frame f @ drop n rest = drop pos buf" and "length (fr_body f) = n"
proof -
  show l: "length (fr_body f) = n"
    using len by (simp add: f_def n_def new_frame_ref_def)
  have "frame_head f = of_le [h0, h1]"
    by (simp add: f_def frame_head_def new_frame_ref_def head_rebuild)
  moreover have "of_nat (length (fr_body f)) = (of_le [l0, l1] :: u16)"
    by (simp add: l n_def)
  ultimately show "encode_frame f @ drop n rest = drop pos buf"
    using le16.enc_dec [of "[h0, h1]"] le16.enc_dec [of "[l0, l1]"]
    by (simp add: encode_frame_def d) (simp add: f_def new_frame_ref_def)
qed

lemma drop_four:
  assumes "pos + 4 \<le> length buf"
  shows "drop pos buf = buf ! pos # buf ! (pos + 1) # buf ! (pos + 2) # buf ! (pos + 3) # drop (pos + 4) buf"
  using assms by (simp add: Cons_nth_drop_Suc numeral_eq_Suc)

lemma decode_frames_InrD:
  "decode_frames buf pos acc = Inr fs \<Longrightarrow> pos \<le> length buf \<Longrightarrow>
     \<exists>gs. fs = acc @ gs \<and> drop pos buf = concat (map encode_frame gs) \<and> (\<forall>f \<in> set gs. valid_frame f)"
proof (induction buf pos acc rule: decode_frames.induct)
  case (1 buf pos acc)
  show ?case
  proof (cases "pos < length buf")
    case False
    with "1.prems" show ?thesis by (subst (asm) decode_frames.simps) simp
  next
    case True
    define head where "head = (of_le [buf ! pos, buf ! (pos + 1)] :: u16)"
    define n where "n = unat (of_le [buf ! (pos + 2), buf ! (pos + 3)] :: u16)"
    define f where "f = new_frame_ref (ucast (head AND 0x000F)) (drop_bit 4 head)
        (subslice buf (pos + 4) (pos + 4 + n))"
    note eq = "1.prems"(1) [unfolded decode_frames.simps [of buf pos acc] Let_def,
        folded head_def n_def]
    from True eq have four: "pos + 4 \<le> length buf"
      by (auto split: if_splits)
    from True eq four have ch: "(ucast (head AND 0x000F) :: u8) \<le> 3"
      by (auto split: if_splits)
    from True eq four ch obtain e where e: "usize_checked_add (pos + 4) n = Some e"
      by (auto split: option.splits if_splits simp: not_less [symmetric])
    then have e_eq: "e = pos + 4 + n" by (rule usize_checked_add_SomeD)
    from True eq four ch e have le: "pos + 4 + n \<le> length buf"
      by (auto simp: e_eq not_less [symmetric] split: if_splits)
    from four have "\<not> length buf - pos < 4" by simp
    with True eq ch e le have rec: "decode_frames buf (pos + 4 + n) (acc @ [f]) = Inr fs"
      by (simp add: e_eq f_def not_less [symmetric])
    have "n \<le> length (drop (pos + 4) buf)" using le by simp
    note read = encode_frame_read [OF drop_four [OF four], folded n_def head_def, OF this]
    have f_eq: "f = new_frame_ref (ucast (head AND 0x000F)) (drop_bit 4 head) (take n (drop (pos + 4) buf))"
      by (simp add: f_def subslice_def)
    have vf: "valid_frame f"
      using ch drop_head_bound [of head] read(2) unsigned_less [of "of_le [buf ! (pos + 2), buf ! (pos + 3)] :: u16"]
      by (simp add: f_eq valid_frame_def new_frame_ref_def n_def)
    have "\<exists>gs. fs = (acc @ [f]) @ gs \<and> drop (pos + 4 + n) buf = concat (map encode_frame gs)
        \<and> (\<forall>f \<in> set gs. valid_frame f)"
      using "1.IH" [OF True \<open>\<not> length buf - pos < 4\<close> refl refl refl refl refl _ _ _ rec [unfolded f_def e_eq [symmetric] head_def]]
        ch e le by (simp add: e_eq f_def head_def n_def not_less [symmetric])
    then obtain gs where gs: "fs = (acc @ [f]) @ gs" "drop (pos + 4 + n) buf = concat (map encode_frame gs)"
      "\<forall>f \<in> set gs. valid_frame f" by blast
    have "drop pos buf = encode_frame f @ concat (map encode_frame gs)"
      using read(1) gs(2) by (simp add: f_eq add.commute add.left_commute)
    with gs vf show ?thesis by (intro exI [of _ "f # gs"]) simp
  qed
qed

section \<open>The codec\<close>

lemma decode_frames_iff:
  assumes "length buf \<le> MTU" and "pos \<le> length buf"
  shows "decode_frames buf pos [] = Inr fs \<longleftrightarrow>
     drop pos buf = concat (map encode_frame fs) \<and> (\<forall>f \<in> set fs. valid_frame f)"
proof
  assume "decode_frames buf pos [] = Inr fs"
  then show "drop pos buf = concat (map encode_frame fs) \<and> (\<forall>f \<in> set fs. valid_frame f)"
    using decode_frames_InrD [of buf pos "[]" fs] assms(2) by simp
next
  assume "drop pos buf = concat (map encode_frame fs) \<and> (\<forall>f \<in> set fs. valid_frame f)"
  then show "decode_frames buf pos [] = Inr fs"
    using decode_frames_all [of pos buf fs "[]"] assms(1) by (simp add: MTU_def)
qed

lemma valid_frame_size:
  assumes "HEADER_LEN + frames_size fs \<le> MTU" and "f \<in> set fs"
  shows "length (fr_body f) < 2 ^ 16"
proof -
  have "4 + length (fr_body f) \<le> frames_size fs"
    unfolding frames_size_def using assms(2) by (intro member_le_sum_list) auto
  with assms(1) show ?thesis by (simp add: MTU_def HEADER_LEN_def)
qed

text \<open>\<open>encode\<close> succeeds exactly on the right version, valid channels and ids, and a total within the MTU.\<close>

lemma encode_Inr_iff:
  "encode h fs out = Inr r \<longleftrightarrow>
     dh_version h = VERSION \<and> HEADER_LEN + frames_size fs \<le> MTU \<and> (\<forall>f \<in> set fs. valid_frame f) \<and>
     r = (out @ encode_header h @ concat (map encode_frame fs), HEADER_LEN + frames_size fs)"
proof -
  have "HEADER_LEN \<le> MTU" by (simp add: HEADER_LEN_def MTU_def)
  note c = check_frames_Inr_iff [OF this, of fs]
  have v: "HEADER_LEN + frames_size fs \<le> MTU \<Longrightarrow> f \<in> set fs \<Longrightarrow>
      (fr_ch f \<le> 3 \<and> fr_msg_id f \<le> 0x0FFF) = valid_frame f" for f
    using valid_frame_size by (auto simp: valid_frame_def)
  show ?thesis
    using v c by (cases "check_frames fs HEADER_LEN") (auto simp: encode_def Let_def)
qed

text \<open>The header fields sit where \<open>decode\<close> reads them.\<close>

lemma decode_header_encode:
  "decode_header (encode_header h @ rest) = h"
proof -
  have "subslice (encode_header h @ rest) 4 8 = le32 (dh_conn_id h)"
    and "subslice (encode_header h @ rest) 8 10 = le16 (dh_seq h)"
    and "subslice (encode_header h @ rest) 10 12 = le16 (dh_ack h)"
    and "subslice (encode_header h @ rest) 12 16 = le32 (dh_ack_bits h)"
    by (simp_all add: subslice_def encode_header_def)
  moreover have "(encode_header h @ rest) ! 2 = dh_version h" "(encode_header h @ rest) ! 3 = dh_flags h"
    by (simp_all add: encode_header_def nth_append)
  ultimately show ?thesis
    by (simp add: decode_header_def le16.dec_enc le32.dec_enc)
qed

lemma encode_decode_header:
  assumes "HEADER_LEN \<le> length buf" and "of_le [buf ! 0, buf ! 1] = MAGIC"
  shows "encode_header (decode_header buf) = take HEADER_LEN buf"
proof -
  have L: "16 \<le> length buf" using assms(1) by (simp add: HEADER_LEN_def)
  have m: "le16 MAGIC = [buf ! 0, buf ! 1]"
    using le16.enc_dec [of "[buf ! 0, buf ! 1]"] assms(2) by simp
  have "take 16 buf = [buf ! 0, buf ! 1, buf ! 2, buf ! 3] @ subslice buf 4 8 @ subslice buf 8 10
      @ subslice buf 10 12 @ subslice buf 12 16"
    using L by (intro nth_equalityI)
      (auto simp: subslice_def nth_append nth_Cons' less_Suc_eq numeral_eq_Suc)
  then show ?thesis
    using L by (simp add: encode_header_def decode_header_def m HEADER_LEN_def subslice_def
        le16.enc_dec le32.enc_dec)
qed

lemma decode_iff_encode:
  "decode bs = Inr (h, fs) \<longleftrightarrow> encode h fs [] = Inr (bs, length bs)"
proof
  assume d: "decode bs = Inr (h, fs)"
  then have L: "HEADER_LEN \<le> length bs" "length bs \<le> MTU" and m: "of_le [bs ! 0, bs ! 1] = MAGIC"
    and v: "bs ! 2 = VERSION" and fr: "decode_frames bs HEADER_LEN [] = Inr fs"
    and h: "h = decode_header bs"
    by (auto simp: decode_def Let_def split: if_splits elim!: try_res_InrE)
  from fr L have fs: "drop HEADER_LEN bs = concat (map encode_frame fs)" "\<forall>f \<in> set fs. valid_frame f"
    by (simp_all add: decode_frames_iff)
  have "encode_header h = take HEADER_LEN bs"
    using encode_decode_header [OF L(1) m] h by simp
  then have bs: "bs = encode_header h @ concat (map encode_frame fs)"
    using fs(1) by (metis append_take_drop_id)
  have "dh_version h = VERSION" by (simp add: h decode_header_def v)
  then show "encode h fs [] = Inr (bs, length bs)"
    using bs fs(2) L(2) arg_cong [OF bs, of length] by (simp add: encode_Inr_iff)
next
  assume "encode h fs [] = Inr (bs, length bs)"
  then have v: "dh_version h = VERSION" and sz: "HEADER_LEN + frames_size fs \<le> MTU"
    and fs: "\<forall>f \<in> set fs. valid_frame f"
    and bs: "bs = encode_header h @ concat (map encode_frame fs)"
    by (simp_all add: encode_Inr_iff)
  have L: "length bs = HEADER_LEN + frames_size fs" by (simp add: bs)
  have "bs ! 0 = le16 MAGIC ! 0" "bs ! 1 = le16 MAGIC ! 1" "bs ! 2 = VERSION"
    by (simp_all add: bs encode_header_def nth_append v)
  then have m: "of_le [bs ! 0, bs ! 1] = MAGIC" "bs ! 2 = VERSION"
    using le16.dec_enc [of MAGIC] le16_two [of MAGIC] by simp_all
  have "drop HEADER_LEN bs = concat (map encode_frame fs)"
    by (simp add: bs)
  then have "decode_frames bs HEADER_LEN [] = Inr fs"
    using fs L sz by (subst decode_frames_iff) auto
  moreover have "decode_header bs = h" by (simp add: bs decode_header_encode)
  ultimately show "decode bs = Inr (h, fs)"
    using L sz m by (simp add: decode_def Let_def)
qed

text \<open>
  C25. The datagram codec is a bijection between what \<open>decode\<close> accepts and what \<open>encode\<close> produces:
  a byte string decodes to a header and frames exactly when encoding that header and those frames
  into an empty buffer gives that byte string. Every parsed packet re-encodes to itself, every
  encoded packet parses back, and no byte string has two readings.
\<close>

theorem datagram_codec_bijective:
  "decode bs = Inr (h, fs) \<longleftrightarrow> encode h fs [] = Inr (bs, length bs)"
  by (rule decode_iff_encode)

text \<open>
  \<open>encode\<close> succeeds exactly when the version is the protocol's, every frame has a channel in
  0..3, a 12-bit message id, and the aggregated datagram fits the 1200-byte MTU; it then appends
  exactly the header and the frames to the output and returns the number of bytes appended.
\<close>

theorem encode_succeeds_iff:
  "encode h fs out = Inr (out', n) \<longleftrightarrow>
     dh_version h = VERSION \<and> HEADER_LEN + frames_size fs \<le> MTU
     \<and> (\<forall>f \<in> set fs. fr_ch f \<le> 3 \<and> fr_msg_id f \<le> 0x0FFF)
     \<and> out' = out @ encode_header h @ concat (map encode_frame fs) \<and> n = HEADER_LEN + frames_size fs"
  using valid_frame_size by (auto simp: encode_Inr_iff valid_frame_def)

text \<open>What the session layer uses of an accepted datagram.\<close>

lemma decode_InrD:
  assumes "decode bs = Inr (h, fs)"
  shows "length bs = HEADER_LEN + frames_size fs" and "length bs \<le> MTU"
    and "\<forall>f \<in> set fs. valid_frame f" and "dh_version h = VERSION"
    and "bs ! 3 = dh_flags h" and "HEADER_LEN \<le> length bs"
proof -
  from assms have e: "encode h fs [] = Inr (bs, length bs)" by (simp add: decode_iff_encode)
  show "length bs = HEADER_LEN + frames_size fs" "length bs \<le> MTU" "\<forall>f \<in> set fs. valid_frame f"
    "dh_version h = VERSION" "HEADER_LEN \<le> length bs"
    using e by (auto simp: encode_Inr_iff)
  show "bs ! 3 = dh_flags h"
    using e by (auto simp: encode_Inr_iff encode_header_def nth_append)
qed

end
