(* ===== verification/Framing.thy ===== *)
theory Framing
  imports Proto_Types
begin

text \<open>
  The contract of a length-prefixed framer over a byte stream, as the logic-server link
  (\<open>frame.rs\<close>, \<open>uds.rs\<close>) and the TCP transport (\<open>tcp.rs\<close>) use it: a complete frame at the front
  of the buffer is cut off, an incomplete one leaves the buffer as it is. The lemmas say that the
  stream then determines the frames, wherever the reads happen to cut it.
\<close>

locale framing =
  fixes enc :: "'f \<Rightarrow> bytes"
    and cut :: "bytes \<Rightarrow> ('f option \<times> bytes) res"
    and ok :: "'f \<Rightarrow> bool"
  assumes cut_complete: "ok f \<Longrightarrow> cut (enc f @ rest) = Inr (Some f, rest)"
    and cut_partial: "ok f \<Longrightarrow> enc f = p @ q \<Longrightarrow> q \<noteq> [] \<Longrightarrow> cut p = Inr (None, p)"
begin

text \<open>Where the buffer stands against a stream that begins with a good frame.\<close>

lemma cut_stream:
  assumes "ok f" and "buf @ more = enc f @ rest"
  obtains (partial) "length buf < length (enc f)" and "cut buf = Inr (None, buf)"
  | (complete) r where "cut buf = Inr (Some f, r)" and "r @ more = rest"
proof (cases "length buf < length (enc f)")
  case True
  have "take (length buf) (enc f) = buf"
    using arg_cong [OF assms(2), of "take (length buf)"] True by simp
  then have q: "enc f = buf @ drop (length buf) (enc f)"
    by (metis append_take_drop_id)
  from True have "drop (length buf) (enc f) \<noteq> []" by simp
  then have "cut buf = Inr (None, buf)" using cut_partial [OF assms(1) q] by simp
  with True show ?thesis by (rule partial)
next
  case False
  then have "take (length (enc f)) buf = enc f"
    using arg_cong [OF assms(2), of "take (length (enc f))"] by simp
  then obtain r where r: "buf = enc f @ r"
    by (metis append_take_drop_id)
  with assms(2) have "r @ more = rest" by simp
  note r = r this
  then have "cut buf = Inr (Some f, r)" using cut_complete assms(1) by simp
  then show ?thesis using r(2) by (rule complete)
qed

lemma enc_prefix_free:
  assumes "ok f" and "ok g" and "enc f @ r = enc g @ s"
  shows "f = g \<and> r = s"
proof -
  have "Inr (Some f, r) = (Inr (Some g, s) :: ('f option \<times> bytes) res)"
    by (simp only: cut_complete [OF assms(1), symmetric] cut_complete [OF assms(2), symmetric] assms(3))
  then show ?thesis by simp
qed

lemma enc_stream_inject:
  assumes "\<forall>f \<in> set fs. ok f" and "\<forall>g \<in> set gs. ok g" and "\<forall>f. ok f \<longrightarrow> enc f \<noteq> []"
    and "concat (map enc fs) = concat (map enc gs)"
  shows "fs = gs"
  using assms
proof (induction fs arbitrary: gs)
  case Nil
  then show ?case by (cases gs) auto
next
  case (Cons f fs)
  from Cons.prems(1,3,4) obtain g gs' where gs: "gs = g # gs'"
    by (cases gs) simp_all
  have "f = g \<and> concat (map enc fs) = concat (map enc gs')"
    using Cons.prems(4) Cons.prems(1,2) gs by (intro enc_prefix_free) simp_all
  with Cons.IH [of gs'] Cons.prems(1,2,3) gs show ?case by simp
qed

text \<open>A reader that cuts frames off the front until it cannot.\<close>

lemma cut_loop:
  assumes "\<And>b. loop b = (case cut b of Inr (Some f, r) \<Rightarrow> f # loop r | _ \<Rightarrow> [])"
    and "\<forall>f \<in> set fs. ok f" and "loop tail = []"
  shows "loop (concat (map enc fs) @ tail) = fs"
  using assms(2)
proof (induction fs)
  case Nil
  then show ?case using assms(3) by simp
next
  case (Cons f fs)
  have "cut (enc f @ concat (map enc fs) @ tail) = Inr (Some f, concat (map enc fs) @ tail)"
    using Cons.prems by (intro cut_complete) simp
  with Cons show ?case by (subst assms(1)) simp
qed

end

end
