(* ===== verification/Uds_Frame.thy ===== *)
theory Uds_Frame
  imports Framing
begin

unbundle bit_operations_syntax

text \<open>
  The logic-server frame codec of \<open>src/protocol/frame.rs\<close> (stream framing and the layout of every
  frame body) and the reader of \<open>src/transport/uds.rs\<close>. An IP address is kept as the word whose
  little-endian bytes are the octets in order.
\<close>

section \<open>Stream framing\<close>

definition FRAME_HEADER_LEN :: nat where "FRAME_HEADER_LEN = 5"

record uds_frame =
  uf_ty :: u8
  uf_body :: bytes

definition new_frame :: "u8 \<Rightarrow> bytes \<Rightarrow> uds_frame" where
  "new_frame ty body = \<lparr>uf_ty = ty, uf_body = body\<rparr>"

text \<open>\<open>Ok(None)\<close> leaves the buffer; \<open>Ok(Some f)\<close> advances it past the frame.\<close>

definition try_decode :: "bytes \<Rightarrow> (uds_frame option \<times> bytes) res" where
  "try_decode buf =
     (if length buf < FRAME_HEADER_LEN then Inr (None, buf)
      else let len = unat (of_le (subslice buf 0 4) :: u32) in
        if MAX_FRAME_BODY < len then proto_err (FrameBodyTooBig len)
        else case usize_checked_add FRAME_HEADER_LEN len of
          None \<Rightarrow> proto_err LengthOverflow
        | Some tot \<Rightarrow>
            if length buf < tot then Inr (None, buf)
            else Inr (Some (new_frame (buf ! 4) (subslice buf FRAME_HEADER_LEN tot)), drop tot buf))"

definition encode_uds :: "u8 \<Rightarrow> bytes \<Rightarrow> bytes \<Rightarrow> bytes res" where
  "encode_uds ty body out =
     (if MAX_FRAME_BODY < length body then proto_err (FrameBodyTooBig (length body))
      else Inr (out @ le32 (of_nat (length body)) @ [ty] @ body))"

text \<open>
  \<open>UdsReader::read_frame\<close>: the chunks are what successive reads return (each at most 4096 bytes);
  an empty chunk, or no further chunk, is the peer's close.
\<close>

fun read_frame :: "bytes \<Rightarrow> bytes list \<Rightarrow> (uds_frame option \<times> bytes \<times> bytes list) res" where
  "read_frame read_buf chunks =
     (case try_decode read_buf of
        Inl e \<Rightarrow> Inl e
      | Inr (Some f, read_buf') \<Rightarrow> Inr (Some f, read_buf', chunks)
      | Inr (None, read_buf') \<Rightarrow>
          if MAX_FRAME_BODY + FRAME_HEADER_LEN < length read_buf'
          then proto_err StreamBufferOverflow
          else case chunks of
              [] \<Rightarrow> Inr (None, read_buf', [])
            | c # cs \<Rightarrow>
                if c = [] then Inr (None, read_buf', cs)
                else read_frame (read_buf' @ c) cs)"

declare read_frame.simps [simp del]

definition write_frame :: "uds_frame \<Rightarrow> bytes res" where
  "write_frame f = encode_uds (uf_ty f) (uf_body f) []"

definition frame_ok :: "uds_frame \<Rightarrow> bool" where
  "frame_ok f \<longleftrightarrow> length (uf_body f) \<le> MAX_FRAME_BODY"

definition frame_bytes :: "uds_frame \<Rightarrow> bytes" where
  "frame_bytes f = le32 (of_nat (length (uf_body f))) @ [uf_ty f] @ uf_body f"

lemma length_frame_bytes [simp]: "length (frame_bytes f) = 5 + length (uf_body f)"
  by (simp add: frame_bytes_def)

lemma write_frame_Inr_iff: "write_frame f = Inr bs \<longleftrightarrow> frame_ok f \<and> bs = frame_bytes f"
  by (auto simp: write_frame_def encode_uds_def frame_ok_def frame_bytes_def)

lemma unat_of_nat_u32: "n \<le> MAX_FRAME_BODY \<Longrightarrow> unat (of_nat n :: u32) = n"
  by (simp add: MAX_FRAME_BODY_def unat_of_nat)

lemma frame_length_read:
  "frame_ok f \<Longrightarrow> unat (of_le (subslice (frame_bytes f @ rest) 0 4) :: u32) = length (uf_body f)"
  by (simp add: subslice_def frame_bytes_def le32.dec_enc unat_of_nat_u32 frame_ok_def)

lemma try_decode_complete:
  assumes "frame_ok f"
  shows "try_decode (frame_bytes f @ rest) = Inr (Some f, rest)"
proof -
  let ?buf = "frame_bytes f @ rest"
  let ?n = "length (uf_body f)"
  have body: "subslice ?buf 5 (5 + ?n) = uf_body f" and ty: "?buf ! 4 = uf_ty f"
    by (simp_all add: subslice_def frame_bytes_def nth_append)
  have n: "?n \<le> MAX_FRAME_BODY" using assms by (simp add: frame_ok_def)
  then have "usize_checked_add 5 ?n = Some (5 + ?n)" by (simp add: MAX_FRAME_BODY_def)
  then show ?thesis
    using n frame_length_read [OF assms, of rest]
    by (simp add: try_decode_def Let_def FRAME_HEADER_LEN_def not_less [symmetric] body ty new_frame_def)
qed

lemma try_decode_partial:
  assumes "frame_ok f" and pq: "frame_bytes f = p @ q" and "q \<noteq> []"
  shows "try_decode p = Inr (None, p)"
proof (cases "length p < 5")
  case True
  then show ?thesis by (simp add: try_decode_def FRAME_HEADER_LEN_def)
next
  case False
  let ?n = "length (uf_body f)"
  have L: "length p < 5 + ?n"
    using arg_cong [OF pq, of length] assms(3) by simp
  have "subslice p 0 4 = subslice (frame_bytes f @ []) 0 4"
    using False by (simp add: subslice_def pq)
  then have "unat (of_le (subslice p 0 4) :: u32) = ?n"
    using frame_length_read [OF assms(1), of "[]"] by simp
  moreover have "usize_checked_add 5 ?n = Some (5 + ?n)"
    using assms(1) by (simp add: frame_ok_def MAX_FRAME_BODY_def)
  ultimately show ?thesis
    using False L assms(1) by (simp add: try_decode_def Let_def FRAME_HEADER_LEN_def frame_ok_def not_less [symmetric])
qed

interpretation uds: framing frame_bytes try_decode frame_ok
  by unfold_locales (auto intro: try_decode_complete try_decode_partial)

section \<open>The reader\<close>

text \<open>
  With the framer's contract, the reader recovers the first frame of the stream from any
  segmentation into nonempty chunks, and what it leaves is the rest of the stream.
\<close>

lemma read_frame_stream:
  assumes "frame_ok f" and "buf @ concat chunks = frame_bytes f @ rest" and "[] \<notin> set chunks"
  shows "\<exists>buf' chunks'. read_frame buf chunks = Inr (Some f, buf', chunks')
     \<and> buf' @ concat chunks' = rest \<and> [] \<notin> set chunks'"
  using assms(2,3)
proof (induction chunks arbitrary: buf)
  case Nil
  from assms(1) Nil.prems(1) show ?case
  proof (cases rule: uds.cut_stream)
    case partial
    with arg_cong [OF Nil.prems(1), of length] show ?thesis by simp
  next
    case (complete r)
    then show ?thesis by (simp add: read_frame.simps)
  qed
next
  case (Cons c cs)
  from assms(1) Cons.prems(1) show ?case
  proof (cases rule: uds.cut_stream)
    case partial
    then have "length buf \<le> MAX_FRAME_BODY + FRAME_HEADER_LEN"
      using assms(1) by (simp add: frame_ok_def FRAME_HEADER_LEN_def)
    moreover have "\<exists>buf' chunks'. read_frame (buf @ c) cs = Inr (Some f, buf', chunks')
        \<and> buf' @ concat chunks' = rest \<and> [] \<notin> set chunks'"
      using Cons.prems by (intro Cons.IH) auto
    ultimately show ?thesis
      using partial(2) Cons.prems(2) by (subst read_frame.simps) (auto simp: not_less [symmetric])
  next
    case (complete r)
    then show ?thesis using Cons.prems by (intro exI) (auto simp: read_frame.simps)
  qed
qed

text \<open>At the end of the stream, an incomplete tail is a close, not an error.\<close>

lemma read_frame_tail:
  assumes "frame_ok f" and "frame_bytes f = (buf @ concat chunks) @ q" and "q \<noteq> []" and "[] \<notin> set chunks"
  shows "\<exists>buf'. read_frame buf chunks = Inr (None, buf', [])"
  using assms(2,4)
proof (induction chunks arbitrary: buf)
  case Nil
  have "try_decode buf = Inr (None, buf)"
    using try_decode_partial [OF assms(1) Nil.prems(1) [simplified] assms(3)] .
  moreover have "length buf \<le> MAX_FRAME_BODY + FRAME_HEADER_LEN"
    using arg_cong [OF Nil.prems(1), of length] assms(1) by (simp add: frame_ok_def FRAME_HEADER_LEN_def)
  ultimately show ?case by (simp add: read_frame.simps)
next
  case (Cons c cs)
  have "try_decode buf = Inr (None, buf)"
    using Cons.prems assms(3) by (intro try_decode_partial [OF assms(1), of buf "concat (c # cs) @ q"]) auto
  moreover have "length buf \<le> MAX_FRAME_BODY + FRAME_HEADER_LEN"
    using arg_cong [OF Cons.prems(1), of length] assms(1) by (simp add: frame_ok_def FRAME_HEADER_LEN_def)
  ultimately show ?case
    using Cons.IH [of "buf @ c"] Cons.prems by (auto simp: read_frame.simps [of buf])
qed

text \<open>
  \<open>Ok(None)\<close> from the framer means the buffer is shorter than the largest frame, so the reader's
  own guard against an oversized buffer never fires.
\<close>

lemma try_decode_None_bound:
  "try_decode buf = Inr (None, buf') \<Longrightarrow> buf' = buf \<and> length buf < MAX_FRAME_BODY + FRAME_HEADER_LEN"
  by (auto simp: try_decode_def Let_def MAX_FRAME_BODY_def FRAME_HEADER_LEN_def
      split: if_splits option.splits dest!: usize_checked_add_SomeD)

lemma read_frame_never_overflows: "read_frame buf chunks \<noteq> proto_err StreamBufferOverflow"
proof (induction buf chunks rule: read_frame.induct)
  case (1 buf chunks)
  show ?case
  proof (cases "try_decode buf")
    case (Inl e)
    then have "e \<noteq> ErrProtocol StreamBufferOverflow"
      by (auto simp: try_decode_def Let_def split: if_splits option.splits)
    with Inl show ?thesis by (simp add: read_frame.simps)
  next
    case (Inr r)
    with "1.IH" try_decode_None_bound [of buf] show ?thesis
      by (cases r) (auto simp: read_frame.simps [of buf] split: option.splits list.splits)
  qed
qed

text \<open>The collecting loop around the reader: the frames read until the close or the first error.\<close>

lemma read_frame_progress:
  "read_frame buf chunks = Inr (Some f, buf', chunks') \<Longrightarrow>
     length buf' + length (concat chunks') < length buf + length (concat chunks)"
proof (induction buf chunks rule: read_frame.induct)
  case (1 buf chunks)
  have cut: "try_decode buf = Inr (Some g, r) \<Longrightarrow> length r < length buf" for g r
    by (auto simp: try_decode_def Let_def FRAME_HEADER_LEN_def split: if_splits option.splits
        dest!: usize_checked_add_SomeD)
  show ?case
  proof (cases "try_decode buf")
    case (Inl e)
    with "1.prems" show ?thesis by (simp add: read_frame.simps)
  next
    case (Inr r)
    obtain o' b where r: "r = (o', b)" by (cases r)
    show ?thesis
    proof (cases o')
      case (Some g)
      with Inr r "1.prems" cut show ?thesis by (simp add: read_frame.simps)
    next
      case None
      with Inr r have b: "b = buf" using try_decode_None_bound by simp
      from None Inr r "1.prems" obtain c cs where cs: "chunks = c # cs" "c \<noteq> []"
        "\<not> MAX_FRAME_BODY + FRAME_HEADER_LEN < length b"
        and rec: "read_frame (b @ c) cs = Inr (Some f, buf', chunks')"
        by (auto simp: read_frame.simps [of buf] split: if_splits list.splits)
      from "1.IH" [OF Inr r [symmetric] None cs(3,1,2) rec] show ?thesis by (simp add: b cs)
    qed
  qed
qed

function read_loop :: "bytes \<Rightarrow> bytes list \<Rightarrow> uds_frame list \<times> error option" where
  "read_loop buf chunks =
     (case read_frame buf chunks of
        Inl e \<Rightarrow> ([], Some e)
      | Inr (None, _, _) \<Rightarrow> ([], None)
      | Inr (Some f, buf', chunks') \<Rightarrow> (let (fs, r) = read_loop buf' chunks' in (f # fs, r)))"
  by pat_completeness auto
termination
  by (relation "measure (\<lambda>(b, cs). length b + length (concat cs))") (auto dest: read_frame_progress)

declare read_loop.simps [simp del]

lemma read_loop_stream:
  assumes "\<forall>f \<in> set fs. frame_ok f" and "[] \<notin> set chunks"
    and "frame_ok g" and "frame_bytes g = tail @ q" and "q \<noteq> []"
    and "buf @ concat chunks = concat (map frame_bytes fs) @ tail"
  shows "read_loop buf chunks = (fs, None)"
  using assms(1,2,6)
proof (induction fs arbitrary: buf chunks)
  case Nil
  then have "\<exists>buf'. read_frame buf chunks = Inr (None, buf', [])"
    using read_frame_tail [OF assms(3), of buf chunks q] assms(4,5) by auto
  then show ?case by (auto simp: read_loop.simps)
next
  case (Cons f fs)
  then obtain buf' chunks' where "read_frame buf chunks = Inr (Some f, buf', chunks')"
    and "buf' @ concat chunks' = concat (map frame_bytes fs) @ tail" and "[] \<notin> set chunks'"
    using read_frame_stream [of f buf chunks "concat (map frame_bytes fs) @ tail"] by auto
  with Cons.IH [of chunks' buf'] Cons.prems(1) show ?case
    by (subst read_loop.simps) simp
qed

text \<open>
  C26. The logic-server link recovers exactly the frames that were written, however the socket
  splits the byte stream: for any list of frames within the body limit, any cut of their
  concatenated encodings into nonempty reads, and an incomplete frame at the end or none, the
  reader returns those frames in order and then reports the close, with no error.
\<close>

theorem stream_any_segmentation:
  assumes "\<forall>f \<in> set fs. frame_ok f" and "[] \<notin> set chunks"
    and "frame_ok g" and "frame_bytes g = tail @ q" and "q \<noteq> []"
    and "buf @ concat chunks = concat (map frame_bytes fs) @ tail"
  shows "read_loop buf chunks = (fs, None)"
  using assms by (rule read_loop_stream)

theorem stream_any_segmentation_witness:
  "read_loop [] [[2, 0], [0, 0, 7, 9], [9, 0, 0, 0], [0, 1, 3]] =
     ([\<lparr>uf_ty = 7, uf_body = [9, 9]\<rparr>, \<lparr>uf_ty = 1, uf_body = []\<rparr>], None)"
  by (rule stream_any_segmentation [of _ _ "\<lparr>uf_ty = 0, uf_body = [0, 0, 0]\<rparr>" "[3]" "[0, 0, 0, 0, 0, 0, 0]"])
    (simp_all add: frame_ok_def MAX_FRAME_BODY_def frame_bytes_def eval_simps)

text \<open>
  The framer rejects a length field above the 1 MiB limit, waits without consuming anything
  while a frame is incomplete, and the reader's separate guard on the size of its buffer can never
  fire: whatever arrives, the buffer that \<open>try_decode\<close> leaves is shorter than that limit.
\<close>

theorem reader_buffer_bounded:
  "read_frame buf chunks \<noteq> proto_err StreamBufferOverflow
   \<and> (\<forall>buf'. try_decode buf = Inr (None, buf') \<longrightarrow>
        buf' = buf \<and> length buf < MAX_FRAME_BODY + FRAME_HEADER_LEN)
   \<and> (FRAME_HEADER_LEN \<le> length buf \<longrightarrow> MAX_FRAME_BODY < unat (of_le (subslice buf 0 4) :: u32) \<longrightarrow>
        (\<exists>n. try_decode buf = proto_err (FrameBodyTooBig n)))"
  using read_frame_never_overflows try_decode_None_bound
  by (auto simp: try_decode_def Let_def FRAME_HEADER_LEN_def)

theorem reader_buffer_bounded_witness:
  "\<exists>n. try_decode [1, 0, 16, 0, 7] = proto_err (FrameBodyTooBig n)"
proof -
  have "FRAME_HEADER_LEN \<le> length [1, 0, 16, 0, 7 :: u8]"
    and "MAX_FRAME_BODY < unat (of_le (subslice [1, 0, 16, 0, 7] 0 4) :: u32)"
    by (simp_all add: FRAME_HEADER_LEN_def MAX_FRAME_BODY_def subslice_def eval_simps)
  then show ?thesis using reader_buffer_bounded [of "[1, 0, 16, 0, 7]" "[]"] by blast
qed

end
