(* ===== verification/Uds_Body.thy ===== *)
theory Uds_Body
  imports Uds_Frame
begin

unbundle bit_operations_syntax

text \<open>
  The bodies of the logic-server frames: the constructors and parsers of the second half of
  \<open>src/protocol/frame.rs\<close>, with the socket addresses they carry, and their round trips.
\<close>

section \<open>Addresses\<close>

text \<open>\<open>SocketAddr\<close>: octets and port; for IPv6 also the flow info and scope id the wire drops.\<close>

datatype socket_addr =
    V4 "32 word" u16
  | V6 "128 word" u16 u32 u32

definition ADDR_LEN :: nat where "ADDR_LEN = 18"

fun encode_addr :: "socket_addr \<Rightarrow> bytes" where
  "encode_addr (V4 ip port) = le_bytes 4 ip @ replicate 12 0 @ le16 port"
| "encode_addr (V6 ip port _ _) = le_bytes 16 ip @ le16 port"

definition decode_addr :: "bytes \<Rightarrow> socket_addr option" where
  "decode_addr bs =
     (if length bs < ADDR_LEN then None
      else
        let port = of_le [bs ! 16, bs ! 17];
            v4_tail_zero = list_all (\<lambda>b. b = 0) (subslice bs 4 16)
        in if v4_tail_zero then Some (V4 (of_le [bs ! 0, bs ! 1, bs ! 2, bs ! 3]) port)
           else Some (V6 (of_le (take 16 bs)) port 0 0))"

section \<open>Constructors and parsers\<close>

definition engine_hello :: "u16 \<Rightarrow> u32 \<Rightarrow> bytes \<Rightarrow> bytes res" where
  "engine_hello version caps out = encode_uds FRAME_ENGINE_HELLO (le16 version @ le32 caps) out"

definition logic_hello :: "u16 \<Rightarrow> u32 \<Rightarrow> bytes \<Rightarrow> bytes res" where
  "logic_hello version caps out = encode_uds FRAME_LOGIC_HELLO (le16 version @ le32 caps) out"

definition session_open :: "u64 \<Rightarrow> socket_addr \<Rightarrow> bytes \<Rightarrow> uds_frame" where
  "session_open sess_id addr token = new_frame FRAME_SESSION_OPEN
     (le64 sess_id @ encode_addr addr @ le16 (of_nat (length token)) @ token)"

definition parse_session_open :: "bytes \<Rightarrow> (u64 \<times> socket_addr option \<times> bytes) res" where
  "parse_session_open body =
     (if length body < 8 + ADDR_LEN + 2 then proto_err BodyTooShort
      else
        let sess_id = of_le (subslice body 0 8);
            addr = decode_addr (subslice body 8 (8 + ADDR_LEN));
            token_len = unat (of_le (subslice body (8 + ADDR_LEN) (8 + ADDR_LEN + 2)) :: u16);
            start = 8 + ADDR_LEN + 2
        in case usize_checked_add start token_len of
             None \<Rightarrow> proto_err LengthOverflow
           | Some stop \<Rightarrow>
               if length body < stop then proto_err TokenOutOfBounds
               else Inr (sess_id, addr, subslice body start stop))"

definition session_close :: "u64 \<Rightarrow> u8 \<Rightarrow> uds_frame" where
  "session_close sess_id reason = new_frame FRAME_SESSION_CLOSE (le64 sess_id @ [reason])"

definition parse_session_close :: "bytes \<Rightarrow> (u64 \<times> u8) res" where
  "parse_session_close body =
     (if length body < 9 then proto_err BodyTooShort
      else Inr (of_le (subslice body 0 8), body ! 8))"

definition session_resume :: "u64 \<Rightarrow> u32 \<Rightarrow> uds_frame" where
  "session_resume sess_id gap_ms = new_frame FRAME_SESSION_RESUME (le64 sess_id @ le32 gap_ms)"

definition parse_session_resume :: "bytes \<Rightarrow> (u64 \<times> u32) res" where
  "parse_session_resume body =
     (if length body < 12 then proto_err BodyTooShort
      else Inr (of_le (subslice body 0 8), of_le (subslice body 8 12)))"

definition data_up :: "u64 \<Rightarrow> u8 \<Rightarrow> u16 \<Rightarrow> bytes \<Rightarrow> uds_frame" where
  "data_up sess_id ch msg_id payload = new_frame FRAME_DATA_UP
     (le64 sess_id @ [ch] @ le16 msg_id @ payload)"

definition parse_data :: "bytes \<Rightarrow> (u64 \<times> u8 \<times> u16 \<times> bytes) res" where
  "parse_data body =
     (if length body < 11 then proto_err BodyTooShort
      else Inr (of_le (subslice body 0 8), body ! 8, of_le (subslice body 9 11), drop 11 body))"

definition session_stats :: "u64 \<Rightarrow> u16 \<Rightarrow> u16 \<Rightarrow> u16 \<Rightarrow> uds_frame" where
  "session_stats sess_id rtt_ms loss_permille out_kbps = new_frame FRAME_SESSION_STATS
     (le64 sess_id @ le16 rtt_ms @ le16 loss_permille @ le16 out_kbps)"

definition overload :: "u32 \<Rightarrow> u32 \<Rightarrow> uds_frame" where
  "overload dropped_up dropped_down = new_frame FRAME_OVERLOAD (le32 dropped_up @ le32 dropped_down)"

definition into_send :: "uds_frame \<Rightarrow> uds_frame" where
  "into_send f = new_frame FRAME_SEND (uf_body f)"

definition send :: "u64 \<Rightarrow> u8 \<Rightarrow> u16 \<Rightarrow> bytes \<Rightarrow> uds_frame" where
  "send sess_id ch msg_id payload = into_send (data_up sess_id ch msg_id payload)"

definition multicast :: "u64 list \<Rightarrow> u8 \<Rightarrow> u16 \<Rightarrow> bytes \<Rightarrow> uds_frame" where
  "multicast ids ch msg_id payload = new_frame FRAME_MULTICAST
     ([of_nat (length ids)] @ concat (map le64 ids) @ [ch] @ le16 msg_id @ payload)"

definition parse_multicast :: "bytes \<Rightarrow> (u64 list \<times> u8 \<times> u16 \<times> bytes) res" where
  "parse_multicast body =
     (if body = [] then proto_err BodyTooShort
      else let n = unat (body ! 0) in
        case Option.bind (usize_checked_mul n 8) (usize_checked_add 1) of
          None \<Rightarrow> proto_err LengthOverflow
        | Some ids_end \<Rightarrow>
            if length body < ids_end + 3 then proto_err BodyTooShort
            else Inr (map (\<lambda>i. of_le (subslice body (1 + i * 8) (1 + i * 8 + 8))) [0..<n],
                      body ! ids_end,
                      of_le (subslice body (ids_end + 1) (ids_end + 3)),
                      drop (ids_end + 3) body))"

definition kick :: "u64 \<Rightarrow> u8 \<Rightarrow> uds_frame" where
  "kick sess_id reason = into_send (session_close sess_id reason)"

definition set_budget_frame :: "u64 \<Rightarrow> u16 \<Rightarrow> uds_frame" where
  "set_budget_frame sess_id kbps = new_frame FRAME_SET_BUDGET (le64 sess_id @ le16 kbps)"

definition parse_set_budget :: "bytes \<Rightarrow> (u64 \<times> u16) res" where
  "parse_set_budget body =
     (if length body < 10 then proto_err BodyTooShort
      else Inr (of_le (subslice body 0 8), of_le (subslice body 8 10)))"

lemmas frame_builders = session_open_def session_close_def session_resume_def data_up_def
  session_stats_def overload_def into_send_def send_def multicast_def kick_def set_budget_frame_def
  new_frame_def

section \<open>Round trips\<close>

lemma le128_codec: "fixed_codec (le_bytes 16) (of_le :: bytes \<Rightarrow> 128 word) 16"
  by (rule le_fixed_codec) simp

interpretation le128: fixed_codec "le_bytes 16" "of_le :: bytes \<Rightarrow> 128 word" 16
  by (rule le128_codec)

lemma length_encode_addr [simp]: "length (encode_addr a) = ADDR_LEN"
  by (cases a) (simp_all add: ADDR_LEN_def)

lemma four_bytes: "le32 w = [le32 w ! 0, le32 w ! 1, le32 w ! 2, le32 w ! 3]"
  by (simp add: eval_simps)

lemma decode_encode_V4: "decode_addr (encode_addr (V4 ip port)) = Some (V4 ip port)"
proof -
  let ?bs = "encode_addr (V4 ip port)"
  have p: "[?bs ! 16, ?bs ! 17] = le16 port"
    by (simp add: nth_append eval_simps)
  have i: "[?bs ! 0, ?bs ! 1, ?bs ! 2, ?bs ! 3] = le32 ip"
    using four_bytes [of ip] by (simp add: nth_append)
  have "list_all (\<lambda>b. b = 0) (subslice ?bs 4 16)"
    by (simp add: subslice_def list_all_iff)
  then show ?thesis
    unfolding decode_addr_def Let_def p i by (simp add: ADDR_LEN_def le16.dec_enc le32.dec_enc)
qed

lemma decode_encode_V6:
  "decode_addr (encode_addr (V6 ip port flow scope)) =
     (if list_all (\<lambda>b. b = 0) (drop 4 (le_bytes 16 ip))
      then Some (V4 (of_le (take 4 (le_bytes 16 ip))) port) else Some (V6 ip port 0 0))"
proof -
  let ?bs = "encode_addr (V6 ip port flow scope)"
  have p: "[?bs ! 16, ?bs ! 17] = le16 port"
    by (simp add: nth_append eval_simps)
  have i: "[?bs ! 0, ?bs ! 1, ?bs ! 2, ?bs ! 3] = take 4 (le_bytes 16 ip)"
    by (rule nth_equalityI) (auto simp: nth_append less_Suc_eq numeral_eq_Suc)
  have t: "subslice ?bs 4 16 = drop 4 (le_bytes 16 ip)" and h: "take 16 ?bs = le_bytes 16 ip"
    by (simp_all add: subslice_def)
  show ?thesis
    unfolding decode_addr_def Let_def p i t h by (simp add: ADDR_LEN_def le16.dec_enc le128.dec_enc)
qed

lemma parse_session_open_build:
  assumes "length token < 2 ^ 16"
  shows "parse_session_open (uf_body (session_open sess_id addr token)) =
    Inr (sess_id, decode_addr (encode_addr addr), token)"
  using assms
  by (simp add: parse_session_open_def session_open_def new_frame_def Let_def ADDR_LEN_def
      subslice_def le64.dec_enc le16.dec_enc unat_of_nat)

lemma parse_session_close_build:
  "parse_session_close (uf_body (session_close sess_id reason)) = Inr (sess_id, reason)"
  by (simp add: parse_session_close_def session_close_def new_frame_def subslice_def le64.dec_enc nth_append)

lemma parse_session_resume_build:
  "parse_session_resume (uf_body (session_resume sess_id gap_ms)) = Inr (sess_id, gap_ms)"
  by (simp add: parse_session_resume_def session_resume_def new_frame_def subslice_def le64.dec_enc le32.dec_enc)

lemma parse_data_build:
  "parse_data (uf_body (data_up sess_id ch msg_id payload)) = Inr (sess_id, ch, msg_id, payload)"
  by (simp add: parse_data_def data_up_def new_frame_def subslice_def le64.dec_enc le16.dec_enc nth_append)

lemma parse_set_budget_build:
  "parse_set_budget (uf_body (set_budget_frame sess_id kbps)) = Inr (sess_id, kbps)"
  by (simp add: parse_set_budget_def set_budget_frame_def new_frame_def subslice_def le64.dec_enc le16.dec_enc)

lemma length_concat_le64 [simp]: "length (concat (map le64 ids)) = 8 * length ids"
  by (induction ids) auto

lemma nth_concat_le64:
  "i < length ids \<Longrightarrow> take 8 (drop (8 * i) (concat (map le64 ids) @ rest)) = le64 (ids ! i)"
proof (induction ids arbitrary: i)
  case Nil
  then show ?case by simp
next
  case (Cons x xs)
  then show ?case by (cases i) (auto simp: add.commute [of _ 8])
qed

lemma parse_multicast_build:
  assumes "length ids < 256"
  shows "parse_multicast (uf_body (multicast ids ch msg_id payload)) = Inr (ids, ch, msg_id, payload)"
proof -
  let ?body = "uf_body (multicast ids ch msg_id payload)"
  let ?n = "length ids"
  have body: "?body = of_nat ?n # concat (map le64 ids) @ ch # le16 msg_id @ payload"
    by (simp add: multicast_def new_frame_def)
  have n: "unat (?body ! 0) = ?n"
    using assms by (simp add: body unat_of_nat)
  have e: "Option.bind (usize_checked_mul ?n 8) (usize_checked_add 1) = Some (1 + ?n * 8)"
    using assms by simp
  have "of_le (subslice ?body (1 + i * 8) (1 + i * 8 + 8)) = ids ! i" if "i < ?n" for i
    using nth_concat_le64 [OF that] by (simp add: body subslice_def le64.dec_enc mult.commute)
  then have ids: "map (\<lambda>i. of_le (subslice ?body (1 + i * 8) (1 + i * 8 + 8))) [0..<?n] = ids"
    by (intro nth_equalityI) auto
  have ch: "?body ! (1 + ?n * 8) = ch"
    by (simp add: body nth_append)
  have mid: "of_le (subslice ?body (1 + ?n * 8 + 1) (1 + ?n * 8 + 3)) = msg_id"
    by (simp add: body subslice_def le16.dec_enc)
  have pl: "drop (1 + ?n * 8 + 3) ?body = payload"
    by (simp add: body drop_Cons' mult.commute)
  have "length ?body = 1 + ?n * 8 + 3 + length payload" and ne: "?body \<noteq> []" by (simp_all add: body)
  then have le: "\<not> length ?body < 1 + ?n * 8 + 3" by linarith
  show ?thesis
    by (simp only: parse_multicast_def Let_def n e option.case ne le if_False ids ch mid pl)
qed



text \<open>
  The 18-byte address field: every IPv4 address survives the round trip; an IPv6 address does,
  with its flow info and scope id dropped, exactly when one of its last twelve octets is nonzero.
  An IPv6 address whose last twelve octets are zero (such as the prefix address 2001:db8::) is read
  back as an IPv4 address made of its first four octets.
\<close>

theorem addr_roundtrip:
  "decode_addr (encode_addr (V4 ip4 port)) = Some (V4 ip4 port)
   \<and> decode_addr (encode_addr (V6 ip port flow scope)) =
       (if \<exists>b \<in> set (drop 4 (le_bytes 16 ip)). b \<noteq> 0 then Some (V6 ip port 0 0)
        else Some (V4 (of_le (take 4 (le_bytes 16 ip))) port))"
  unfolding decode_encode_V4 decode_encode_V6 list_all_iff by auto

end
