(* ===== verification/F64.thy ===== *)
theory F64
  imports Complex_Main Prelude
begin

text \<open>
  IEEE binary64 arithmetic as the RTT estimator uses it: values are rationals, and every operation
  rounds its exact result to the nearest 53-bit significand, ties to even, with gradual underflow.
  Infinities, NaN and the sign of zero do not occur in the values the estimator handles.
\<close>

section \<open>Rounding\<close>

fun bitlen_nat :: "nat \<Rightarrow> nat" where
  "bitlen_nat n = (if n = 0 then 0 else Suc (bitlen_nat (n div 2)))"

declare bitlen_nat.simps [simp del]

text \<open>The exponent of a positive rational: the \<open>e\<close> with \<open>2 ^ e \<le> x < 2 ^ (e + 1)\<close>.\<close>

definition ilog2 :: "rat \<Rightarrow> int" where
  "ilog2 x = (let (p, q) = quotient_of x;
                k = int (bitlen_nat (nat p)) - int (bitlen_nat (nat q))
              in if 2 powi k \<le> x then k else k - 1)"

definition round_half_even :: "rat \<Rightarrow> int" where
  "round_half_even x =
     (let f = \<lfloor>x\<rfloor>; d = x - of_int f
      in if d < 1 / 2 then f else if 1 / 2 < d then f + 1 else if even f then f else f + 1)"

definition ulp_exp :: "rat \<Rightarrow> int" where
  "ulp_exp x = max (ilog2 \<bar>x\<bar>) (- 1022) - 52"

definition f64_round :: "rat \<Rightarrow> rat" where
  "f64_round x =
     (if x = 0 then 0 else of_int (round_half_even (x / 2 powi ulp_exp x)) * 2 powi ulp_exp x)"

definition f64_add :: "rat \<Rightarrow> rat \<Rightarrow> rat" where "f64_add x y = f64_round (x + y)"
definition f64_sub :: "rat \<Rightarrow> rat \<Rightarrow> rat" where "f64_sub x y = f64_round (x - y)"
definition f64_mul :: "rat \<Rightarrow> rat \<Rightarrow> rat" where "f64_mul x y = f64_round (x * y)"
definition f64_div :: "rat \<Rightarrow> rat \<Rightarrow> rat" where "f64_div x y = f64_round (x / y)"

text \<open>\<open>x as u64\<close> and \<open>x as u16\<close> truncate towards zero and saturate.\<close>

definition f64_as_uint :: "nat \<Rightarrow> rat \<Rightarrow> nat" where
  "f64_as_uint width x = min (nat \<lfloor>x\<rfloor>) (2 ^ width - 1)"

text \<open>\<open>Duration::as_secs_f64\<close>.\<close>

definition as_secs_f64 :: "duration \<Rightarrow> rat" where
  "as_secs_f64 d = f64_add (f64_round (of_nat (d div 1000000000)))
     (f64_div (of_nat (d mod 1000000000)) 1000000000)"

section \<open>The exponent\<close>

lemma bitlen_nat_bounds: "0 < n \<Longrightarrow> 2 ^ (bitlen_nat n - 1) \<le> n \<and> n < 2 ^ bitlen_nat n \<and> 0 < bitlen_nat n"
proof (induction n rule: bitlen_nat.induct)
  case (1 n)
  show ?case
  proof (cases "n div 2 = 0")
    case True
    with "1.prems" have "n = 1" by simp
    then show ?thesis by (simp add: bitlen_nat.simps)
  next
    case False
    let ?k = "bitlen_nat (n div 2)"
    from 1 False have IH: "2 ^ (?k - 1) \<le> n div 2" "n div 2 < 2 ^ ?k" "0 < ?k"
      by auto
    have b: "bitlen_nat n = Suc ?k" using "1.prems" by (subst bitlen_nat.simps) simp
    have "(2 :: nat) ^ ?k = 2 * 2 ^ (?k - 1)" using IH(3) by (cases ?k) auto
    moreover have "2 * (n div 2) \<le> n" "n < 2 * (n div 2) + 2" by presburger+
    ultimately show ?thesis using IH b by simp linarith
  qed
qed

lemma powi_2_pos [simp]: "0 < (2 :: rat) powi e"
  by simp

lemma powi_2_mono: "d \<le> e \<Longrightarrow> (2 :: rat) powi d \<le> 2 powi e"
  by (simp add: power_int_increasing)

lemma powi_2_strict: "(2 :: rat) powi d < 2 powi e \<longleftrightarrow> d < e"
  by (metis linorder_not_less power_int_strict_increasing one_less_numeral_iff powi_2_mono semiring_norm(76))

lemma ilog2_bounds:
  assumes "0 < x"
  shows "2 powi ilog2 x \<le> x" and "x < 2 powi (ilog2 x + 1)"
proof -
  obtain p q where pq: "quotient_of x = (p, q)" by (cases "quotient_of x")
  have q: "0 < q" and x: "x = of_int p / of_int q"
    using pq quotient_of_denom_pos quotient_of_div by blast+
  with assms have p: "0 < p" by (simp add: zero_less_divide_iff)
  define m where "m = nat p"
  define n where "n = nat q"
  define a where "a = bitlen_nat m"
  define b where "b = bitlen_nat n"
  have x: "x = of_nat m / of_nat n" and pos: "0 < m" "0 < n"
    using p q x by (simp_all add: m_def n_def of_nat_nat)
  have A: "2 ^ (a - 1) \<le> m" "m < 2 ^ a" "0 < a" and B: "2 ^ (b - 1) \<le> n" "n < 2 ^ b" "0 < b"
    using bitlen_nat_bounds [OF pos(1)] bitlen_nat_bounds [OF pos(2)] by (simp_all add: a_def b_def)
  have A': "2 ^ (a - 1) \<le> (of_nat m :: rat)" "of_nat m < (2 :: rat) ^ a"
    using of_nat_mono [OF A(1), where 'a = rat] of_nat_less_iff [of m "2 ^ a", where 'a = rat] A(2) by simp_all
  have B': "2 ^ (b - 1) \<le> (of_nat n :: rat)" "of_nat n < (2 :: rat) ^ b"
    using of_nat_mono [OF B(1), where 'a = rat] of_nat_less_iff [of n "2 ^ b", where 'a = rat] B(2) by simp_all
  have N: "0 < (of_nat n :: rat)" using pos by simp
  define k where "k = int a - int b"
  have "2 powi (k - 1) = (2 :: rat) ^ (a - 1) / 2 ^ b"
    using A(3) by (simp add: k_def power_int_diff [symmetric] power_int_of_nat [symmetric] of_nat_diff
        del: power_int_of_nat) (simp add: algebra_simps)
  also have "\<dots> < x"
    using A' B' N unfolding x by (intro frac_less2) auto
  finally have lo: "2 powi (k - 1) < x" .
  have "x < 2 ^ a / 2 ^ (b - 1)"
    using A' B' N unfolding x by (intro frac_less) auto
  also have "\<dots> = 2 powi (k + 1)"
    using B(3) by (simp add: k_def power_int_diff [symmetric] power_int_of_nat [symmetric] of_nat_diff
        del: power_int_of_nat) (simp add: algebra_simps)
  finally have hi: "x < 2 powi (k + 1)" .
  have e: "ilog2 x = (if 2 powi k \<le> x then k else k - 1)"
    by (simp add: ilog2_def pq Let_def k_def a_def b_def m_def n_def)
  show "2 powi ilog2 x \<le> x" "x < 2 powi (ilog2 x + 1)"
    using lo hi by (auto simp: e)
qed

lemma ilog2_unique:
  assumes "0 < x" and "2 powi e \<le> x" and "x < 2 powi (e + 1)"
  shows "ilog2 x = e"
proof -
  have "(2 :: rat) powi e < 2 powi (ilog2 x + 1)" "(2 :: rat) powi ilog2 x < 2 powi (e + 1)"
    using ilog2_bounds [OF assms(1)] assms(2,3) by linarith+
  then show ?thesis by (simp add: powi_2_strict)
qed

lemma ilog2_mono: "0 < x \<Longrightarrow> x \<le> y \<Longrightarrow> ilog2 x \<le> ilog2 y"
proof -
  assume "0 < x" "x \<le> y"
  then have "(2 :: rat) powi ilog2 x < 2 powi (ilog2 y + 1)"
    using ilog2_bounds [of x] ilog2_bounds [of y] by linarith
  then show ?thesis by (simp add: powi_2_strict)
qed

section \<open>Rounding to an integer\<close>

lemma round_half_even_int [simp]: "round_half_even (of_int n) = n"
  by (simp add: round_half_even_def)

lemma round_half_even_mono: "x \<le> y \<Longrightarrow> round_half_even x \<le> round_half_even y"
proof -
  assume le: "x \<le> y"
  have f: "\<lfloor>x\<rfloor> \<le> \<lfloor>y\<rfloor>" using le by (rule floor_mono)
  show ?thesis
  proof (cases "\<lfloor>x\<rfloor> = \<lfloor>y\<rfloor>")
    case True
    with le show ?thesis by (auto simp: round_half_even_def Let_def)
  next
    case False
    with f have "\<lfloor>x\<rfloor> + 1 \<le> \<lfloor>y\<rfloor>" by simp
    moreover have "round_half_even x \<le> \<lfloor>x\<rfloor> + 1" "\<lfloor>y\<rfloor> \<le> round_half_even y"
      by (auto simp: round_half_even_def Let_def)
    ultimately show ?thesis by linarith
  qed
qed

lemma round_half_even_le_int: "x \<le> of_int n \<Longrightarrow> round_half_even x \<le> n"
  using round_half_even_mono [of x "of_int n"] by simp

lemma round_half_even_ge_int: "of_int n \<le> x \<Longrightarrow> n \<le> round_half_even x"
  using round_half_even_mono [of "of_int n" x] by simp

lemma round_half_even_minus: "round_half_even (- x) = - round_half_even x"
proof (cases "x = of_int \<lfloor>x\<rfloor>")
  case True
  then show ?thesis by (metis of_int_minus round_half_even_int)
next
  case False
  then have "of_int \<lfloor>x\<rfloor> < x" "x < of_int \<lfloor>x\<rfloor> + 1" by linarith+
  then have "\<lfloor>- x\<rfloor> = - \<lfloor>x\<rfloor> - 1" by (intro floor_unique) auto
  then show ?thesis by (auto simp: round_half_even_def Let_def)
qed

section \<open>Rounding to binary64\<close>

lemma f64_round_0 [simp]: "f64_round 0 = 0"
  by (simp add: f64_round_def)

lemma f64_round_minus: "f64_round (- x) = - f64_round x"
  by (simp add: f64_round_def ulp_exp_def round_half_even_minus)

lemma f64_round_nonneg: "0 \<le> x \<Longrightarrow> 0 \<le> f64_round x"
  by (auto simp: f64_round_def intro!: mult_nonneg_nonneg round_half_even_ge_int [of 0, simplified])

text \<open>A value with a 53-bit significand and an exponent not below the subnormal range is exact.\<close>

lemma f64_round_exact_pos:
  assumes "0 < m" and "m \<le> 2 ^ 53" and "- 1074 \<le> j"
  shows "f64_round (of_int m * 2 powi j) = of_int m * 2 powi j"
proof -
  define x where "x = of_int m * (2 :: rat) powi j"
  define u where "u = ulp_exp x"
  have x: "0 < x" using assms(1) by (simp add: x_def)
  have "\<exists>n. x / 2 powi u = of_int n"
  proof (cases "u \<le> j")
    case True
    have "x / 2 powi u = of_int m * 2 powi (j - u)" by (simp add: x_def power_int_diff)
    also have "\<dots> = of_int (m * 2 ^ nat (j - u))" using True by (simp add: power_int_def)
    finally show ?thesis by blast
  next
    case False
    then have e: "u = ilog2 x - 52" "j \<le> ilog2 x - 53"
      using assms(3) x by (auto simp: u_def ulp_exp_def)
    have "(2 :: rat) powi (ilog2 x - j) \<le> of_int m"
    proof -
      have "2 powi ilog2 x \<le> x" by (rule ilog2_bounds [OF x])
      then have "2 powi ilog2 x / 2 powi j \<le> (of_int m :: rat)"
        by (simp add: x_def divide_le_eq)
      then show ?thesis by (simp add: power_int_diff)
    qed
    moreover have m53: "(of_int m :: rat) \<le> 2 powi 53"
      using assms(2) of_int_le_iff [of m "2 ^ 53", where 'a = rat] by (simp add: power_int_def)
    ultimately have "(2 :: rat) powi (ilog2 x - j) \<le> 2 powi 53" by linarith
    then have k: "ilog2 x - j = 53"
      using e(2) powi_2_strict [of 53 "ilog2 x - j"] by linarith
    with \<open>2 powi (ilog2 x - j) \<le> of_int m\<close> m53 have "of_int m = (2 :: rat) powi 53" by simp
    then have "x = 2 powi 53 * 2 powi j" by (simp only: x_def)
    then have "x / 2 powi u = 2 powi (53 + j - u)" by (simp add: power_int_diff power_int_add)
    also have "53 + j - u = 52" using e k by linarith
    also have "(2 :: rat) powi 52 = of_int (2 ^ 52)" by (simp add: power_int_def)
    finally show ?thesis by blast
  qed
  then obtain n where n: "x / 2 powi u = of_int n" by blast
  then have "f64_round x = of_int n * 2 powi u"
    using x by (simp add: f64_round_def u_def [symmetric])
  also have "\<dots> = x" using n by (simp add: divide_eq_eq)
  finally show ?thesis by (simp add: x_def)
qed

lemma f64_round_exact:
  assumes "\<bar>m\<bar> \<le> 2 ^ 53" and "- 1074 \<le> j"
  shows "f64_round (of_int m * 2 powi j) = of_int m * 2 powi j"
proof (cases "m = 0")
  case False
  show ?thesis
  proof (cases "0 < m")
    case True
    with assms show ?thesis by (intro f64_round_exact_pos) auto
  next
    case neg: False
    with False assms have "f64_round (of_int (- m) * 2 powi j) = of_int (- m) * 2 powi j"
      by (intro f64_round_exact_pos) auto
    then show ?thesis using f64_round_minus [of "of_int m * 2 powi j"] by simp
  qed
qed simp

lemma f64_round_int: "\<bar>m\<bar> \<le> 2 ^ 53 \<Longrightarrow> f64_round (of_int m) = of_int m"
  using f64_round_exact [of m 0] by simp

lemma f64_round_quarters: "\<bar>m\<bar> \<le> 2 ^ 53 \<Longrightarrow> f64_round (of_int m / 8) = of_int m / 8"
  using f64_round_exact [of m "- 3"] by (simp add: power_int_def field_simps)

lemma f64_round_mono_pos:
  assumes "0 < x" and "x \<le> y"
  shows "f64_round x \<le> f64_round y"
proof -
  have y: "0 < y" using assms by linarith
  have ux: "ulp_exp x = max (ilog2 x) (- 1022) - 52" and uy: "ulp_exp y = max (ilog2 y) (- 1022) - 52"
    using assms(1) y by (simp_all add: ulp_exp_def)
  have le: "ulp_exp x \<le> ulp_exp y"
    using ilog2_mono [OF assms] by (simp add: ux uy)
  show ?thesis
  proof (cases "ulp_exp x = ulp_exp y")
    case True
    have "round_half_even (x / 2 powi ulp_exp x) \<le> round_half_even (y / 2 powi ulp_exp x)"
      using assms(2) by (intro round_half_even_mono divide_right_mono) auto
    then show ?thesis
      using assms(1) y True by (simp add: f64_round_def mult_right_mono)
  next
    case False
    then have lt: "max (ilog2 x) (- 1022) < ilog2 y"
      using ilog2_mono [OF assms] by (simp add: ux uy max_def split: if_splits)
    then have uy': "ulp_exp y = ilog2 y - 52" by (simp add: uy)
    have "x < 2 powi (max (ilog2 x) (- 1022) + 1)"
      using ilog2_bounds(2) [OF assms(1)] powi_2_mono [of "ilog2 x + 1" "max (ilog2 x) (- 1022) + 1"]
      by linarith
    also have "\<dots> = of_int (2 ^ 53) * 2 powi ulp_exp x"
      by (simp add: ux power_int_diff power_int_add power_int_def [of _ 52])
    finally have "x / 2 powi ulp_exp x \<le> of_int (2 ^ 53)"
      by (simp add: divide_le_eq del: of_int_power)
    then have "round_half_even (x / 2 powi ulp_exp x) \<le> 2 ^ 53" by (rule round_half_even_le_int)
    then have "f64_round x \<le> of_int (2 ^ 53) * 2 powi ulp_exp x"
      using assms(1) by (auto simp: f64_round_def simp del: of_int_power intro!: mult_right_mono)
    also have "\<dots> = 2 powi (max (ilog2 x) (- 1022) + 1)"
      by (simp add: ux power_int_diff power_int_add power_int_def [of _ 52])
    also have "\<dots> \<le> 2 powi ilog2 y" using lt by (intro powi_2_mono) linarith
    also have "\<dots> = of_int (2 ^ 52) * 2 powi ulp_exp y"
      by (simp add: uy' power_int_diff power_int_def [of _ 52])
    also have "\<dots> \<le> f64_round y"
    proof -
      have "of_int (2 ^ 52) * 2 powi ulp_exp y \<le> y"
        using ilog2_bounds(1) [OF y] by (simp add: uy' power_int_diff power_int_def [of _ 52])
      then have "of_int (2 ^ 52) \<le> y / 2 powi ulp_exp y"
        by (simp add: le_divide_eq del: of_int_power)
      then have "2 ^ 52 \<le> round_half_even (y / 2 powi ulp_exp y)" by (rule round_half_even_ge_int)
      then show ?thesis
        using y by (auto simp: f64_round_def simp del: of_int_power intro!: mult_right_mono)
    qed
    finally show ?thesis .
  qed
qed

lemma f64_round_mono: "x \<le> y \<Longrightarrow> f64_round x \<le> f64_round y"
proof -
  assume le: "x \<le> y"
  consider "0 < x" | "x \<le> 0" "0 \<le> y" | "y < 0" by linarith
  then show ?thesis
  proof cases
    case 1
    then show ?thesis using le by (rule f64_round_mono_pos)
  next
    case 2
    then have "f64_round x \<le> 0"
      using f64_round_nonneg [of "- x"] by (simp add: f64_round_minus)
    with f64_round_nonneg [OF 2(2)] show ?thesis by linarith
  next
    case 3
    then have "f64_round (- y) \<le> f64_round (- x)" using le by (intro f64_round_mono_pos) auto
    then show ?thesis by (simp add: f64_round_minus)
  qed
qed

lemmas f64_defs = f64_add_def f64_sub_def f64_mul_def f64_div_def

end
