(* ===== verification/Rtt.thy ===== *)
theory Rtt
  imports F64 Proto_Types
begin

text \<open>
  The RTT estimator of \<open>src/reliable/rtt.rs\<close>: Jacobson/Karels smoothing in binary64, the RTO clamped
  to its two bounds, and the smoothed RTT reported in whole milliseconds. The flag \<open>chk\<close> stands for
  a build with overflow checks, where the 32-bit sample counter panics instead of wrapping.
\<close>

section \<open>Estimator\<close>

definition INITIAL_RTO :: duration where "INITIAL_RTO = millis 200"

record rtt_estimator =
  re_srtt_ms :: rat
  re_rttvar_ms :: rat
  re_sample_count :: u32

definition rtt_new :: rtt_estimator where
  "rtt_new = \<lparr>re_srtt_ms = 0, re_rttvar_ms = 0, re_sample_count = 0\<rparr>"

definition f64_clamp :: "rat \<Rightarrow> rat \<Rightarrow> rat \<Rightarrow> rat" where
  "f64_clamp lo hi x = (if x < lo then lo else if hi < x then hi else x)"

definition rto :: "rtt_estimator \<Rightarrow> duration" where
  "rto e =
     (if re_sample_count e = 0 then INITIAL_RTO
      else millis (f64_as_uint 64
        (f64_clamp (of_nat (as_millis RTO_MIN)) (of_nat (as_millis RTO_MAX))
          (f64_add (re_srtt_ms e) (f64_mul 4 (re_rttvar_ms e))))))"

definition srtt_ms :: "rtt_estimator \<Rightarrow> nat" where
  "srtt_ms e = f64_as_uint 16 (min (re_srtt_ms e) 65535)"

text \<open>The state after \<open>update\<close> and the RTO it returns; \<open>None\<close> is the overflow panic.\<close>

definition rtt_update :: "bool \<Rightarrow> rtt_estimator \<Rightarrow> rat \<Rightarrow> (rtt_estimator \<times> duration) option" where
  "rtt_update chk e rtt_ms =
     (if rtt_ms \<le> 0 then Some (e, rto e)
      else if chk \<and> re_sample_count e = - 1 then None
      else
        let n = re_sample_count e + 1;
            e' = (if n = 1
                  then e\<lparr>re_sample_count := n, re_srtt_ms := rtt_ms, re_rttvar_ms := f64_div rtt_ms 2\<rparr>
                  else
                    let s = f64_add (f64_mul (7/8) (re_srtt_ms e)) (f64_mul (1/8) rtt_ms);
                        v = f64_add (f64_mul (3/4) (re_rttvar_ms e)) (f64_mul (1/4) \<bar>f64_sub s rtt_ms\<bar>)
                    in e\<lparr>re_sample_count := n, re_srtt_ms := s, re_rttvar_ms := v\<rparr>)
        in Some (e', rto e'))"

text \<open>A run over a sequence of samples.\<close>

fun rtt_run :: "bool \<Rightarrow> rtt_estimator \<Rightarrow> rat list \<Rightarrow> rtt_estimator option" where
  "rtt_run chk e [] = Some e"
| "rtt_run chk e (x # xs) =
     (case rtt_update chk e x of None \<Rightarrow> None | Some (e', _) \<Rightarrow> rtt_run chk e' xs)"

section \<open>Bounds\<close>

lemma rto_bounds: "RTO_MIN \<le> rto e \<and> rto e \<le> RTO_MAX"
proof (cases "re_sample_count e = 0")
  case True
  then show ?thesis by (simp add: rto_def INITIAL_RTO_def RTO_MIN_def RTO_MAX_def)
next
  case False
  have c: "50 \<le> f64_clamp 50 1000 x \<and> f64_clamp 50 1000 x \<le> 1000" for x
    by (simp add: f64_clamp_def)
  have fl: "50 \<le> \<lfloor>f64_clamp 50 1000 x\<rfloor>" "\<lfloor>f64_clamp 50 1000 x\<rfloor> \<le> 1000" for x
    using c [of x] by (simp_all add: le_floor_iff floor_le_iff)
  have "50 \<le> f64_as_uint 64 (f64_clamp 50 1000 x) \<and> f64_as_uint 64 (f64_clamp 50 1000 x) \<le> 1000" for x
    using nat_mono [OF fl(1) [of x]] nat_mono [OF fl(2) [of x]] by (auto simp: f64_as_uint_def)
  with False show ?thesis
    by (simp add: rto_def RTO_MIN_def RTO_MAX_def as_millis_def)
qed

text \<open>
  A weighted mean of two values between whole-millisecond bounds stays between them, in spite of the
  rounding of each step: at the bounds themselves every step is exact.
\<close>

definition ms_bound :: "int \<Rightarrow> bool" where
  "ms_bound n \<longleftrightarrow> 0 \<le> n \<and> n \<le> 2 ^ 49"

lemma f64_eighths: "ms_bound n \<Longrightarrow> 0 \<le> k \<Longrightarrow> k \<le> 8 \<Longrightarrow> f64_round (of_int (k * n) / 8) = of_int (k * n) / 8"
proof -
  assume "ms_bound n" "0 \<le> k" "k \<le> 8"
  then have "0 \<le> k * n" "k * n \<le> 8 * 2 ^ 49"
    using mult_mono [of k 8 n "2 ^ 49"] by (auto simp: ms_bound_def)
  then show ?thesis by (intro f64_round_quarters) (simp add: abs_le_iff)
qed

lemma f64_scaled_bounds:
  assumes "ms_bound lo" "ms_bound hi" "0 \<le> k" "k \<le> 8"
    and "of_int lo \<le> x" "x \<le> of_int hi"
  shows "of_int (k * lo) / 8 \<le> f64_round (of_int k / 8 * x)"
    and "f64_round (of_int k / 8 * x) \<le> of_int (k * hi) / 8"
proof -
  have "of_int (k * lo) / 8 \<le> of_int k / 8 * x" and "of_int k / 8 * x \<le> of_int (k * hi) / 8"
    using assms(3,5,6) by (simp_all add: mult_left_mono divide_right_mono)
  from this [THEN f64_round_mono]
  show "of_int (k * lo) / 8 \<le> f64_round (of_int k / 8 * x)"
    and "f64_round (of_int k / 8 * x) \<le> of_int (k * hi) / 8"
    using f64_eighths [of lo k] f64_eighths [of hi k] assms(1-4) by simp_all
qed

lemma f64_round_between:
  assumes "ms_bound lo" "ms_bound hi" "of_int lo \<le> x" "x \<le> of_int hi"
  shows "of_int lo \<le> f64_round x \<and> f64_round x \<le> of_int hi"
  using f64_round_mono [OF assms(3)] f64_round_mono [OF assms(4)] f64_round_int [of lo] f64_round_int [of hi]
    assms(1,2) by (simp add: ms_bound_def)

lemma srtt_step_between:
  assumes "ms_bound lo" "ms_bound hi"
    and "of_int lo \<le> s" "s \<le> of_int hi" "of_int lo \<le> x" "x \<le> of_int hi"
  shows "of_int lo \<le> f64_add (f64_mul (7/8) s) (f64_mul (1/8) x)
     \<and> f64_add (f64_mul (7/8) s) (f64_mul (1/8) x) \<le> of_int hi"
proof -
  note a = f64_scaled_bounds [OF assms(1,2), of 7 s] and b = f64_scaled_bounds [OF assms(1,2), of 1 x]
  have "of_int lo \<le> f64_round (7/8 * s) + f64_round (1/8 * x)"
    and "f64_round (7/8 * s) + f64_round (1/8 * x) \<le> of_int hi"
    using a b assms(3-6) by simp_all
  with f64_round_between [OF assms(1,2)] show ?thesis by (simp add: f64_defs)
qed

lemma rttvar_step_bound:
  assumes "ms_bound hi" and "0 \<le> v" "v \<le> of_int hi"
    and "0 \<le> s" "s \<le> of_int hi" "0 \<le> x" "x \<le> of_int hi"
  shows "0 \<le> f64_add (f64_mul (3/4) v) (f64_mul (1/4) \<bar>f64_sub s x\<bar>)
     \<and> f64_add (f64_mul (3/4) v) (f64_mul (1/4) \<bar>f64_sub s x\<bar>) \<le> of_int hi"
proof -
  have z: "ms_bound 0" by (simp add: ms_bound_def)
  have "f64_round (s - x) \<le> of_int hi" "f64_round (x - s) \<le> of_int hi"
    using f64_round_mono [of "s - x" "of_int hi"] f64_round_mono [of "x - s" "of_int hi"]
      f64_round_int [of hi] assms by (simp_all add: ms_bound_def)
  then have d: "\<bar>f64_sub s x\<bar> \<le> of_int hi"
    using f64_round_minus [of "s - x"] by (simp add: f64_sub_def abs_le_iff)
  note a = f64_scaled_bounds [OF z assms(1), of 6 v]
    and b = f64_scaled_bounds [OF z assms(1), of 2 "\<bar>f64_sub s x\<bar>"]
  have "0 \<le> f64_round (3/4 * v) + f64_round (1/4 * \<bar>f64_sub s x\<bar>)"
    and "f64_round (3/4 * v) + f64_round (1/4 * \<bar>f64_sub s x\<bar>) \<le> of_int hi"
    using a b assms(2,3) d by simp_all
  with f64_round_between [OF z assms(1)] show ?thesis by (simp add: f64_defs)
qed

text \<open>What holds of the estimator once it has a sample and all samples lie in \<open>[lo, hi]\<close>.\<close>

definition rtt_within :: "int \<Rightarrow> int \<Rightarrow> rtt_estimator \<Rightarrow> bool" where
  "rtt_within lo hi e \<longleftrightarrow> of_int lo \<le> re_srtt_ms e \<and> re_srtt_ms e \<le> of_int hi
     \<and> 0 \<le> re_rttvar_ms e \<and> re_rttvar_ms e \<le> of_int hi"

lemma rtt_update_within:
  assumes b: "ms_bound lo" "ms_bound hi" "0 < lo"
    and x: "of_int lo \<le> x" "x \<le> of_int hi"
    and e: "re_sample_count e = 0 \<or> rtt_within lo hi e"
    and u: "rtt_update chk e x = Some (e', t)"
  shows "rtt_within lo hi e'"
proof -
  have x0: "0 < x" "0 \<le> x"
    using b(3) x(1) by (metis less_le_trans of_int_0_less_iff) (metis b(3) less_imp_le order.trans of_int_0_le_iff x(1))
  have first: "0 \<le> f64_div x 2 \<and> f64_div x 2 \<le> of_int hi"
  proof -
    have "x / 2 \<le> of_int hi" using x x0 by linarith
    then show ?thesis
      using f64_round_nonneg [of "x / 2"] f64_round_mono [of "x / 2" "of_int hi"] f64_round_int [of hi] b(2) x0
      by (simp add: f64_defs ms_bound_def)
  qed
  show ?thesis
  proof (cases "re_sample_count e + 1 = 1")
    case True
    with u x0 x first show ?thesis
      by (auto simp: rtt_update_def Let_def rtt_within_def split: if_splits)
  next
    case False
    then have w: "rtt_within lo hi e" using e by auto
    let ?s = "f64_add (f64_mul (7/8) (re_srtt_ms e)) (f64_mul (1/8) x)"
    have s: "of_int lo \<le> ?s \<and> ?s \<le> of_int hi"
      using w x by (intro srtt_step_between b) (auto simp: rtt_within_def)
    moreover have "0 \<le> ?s" using s b(3) by (meson less_imp_le of_int_0_le_iff order.trans)
    ultimately have "0 \<le> f64_add (f64_mul (3/4) (re_rttvar_ms e)) (f64_mul (1/4) \<bar>f64_sub ?s x\<bar>)
        \<and> f64_add (f64_mul (3/4) (re_rttvar_ms e)) (f64_mul (1/4) \<bar>f64_sub ?s x\<bar>) \<le> of_int hi"
      using w x x0 by (intro rttvar_step_bound b) (auto simp: rtt_within_def)
    with s False u x0 show ?thesis
      by (auto simp: rtt_update_def Let_def rtt_within_def split: if_splits)
  qed
qed

text \<open>The RTO follows the samples: between the clamp of the least and of five times the largest.\<close>

definition clamp_ms :: "nat \<Rightarrow> nat" where
  "clamp_ms n = max 50 (min n 1000)"

lemma f64_as_uint_floor_between:
  assumes "of_nat a \<le> x" "x \<le> of_nat b" "b < 2 ^ w"
  shows "a \<le> f64_as_uint w x \<and> f64_as_uint w x \<le> b"
proof -
  have "int a \<le> \<lfloor>x\<rfloor>" "\<lfloor>x\<rfloor> \<le> int b"
    using assms(1,2) by (simp_all add: le_floor_iff) (metis floor_mono floor_of_nat)
  from this [THEN nat_mono] show ?thesis using assms(3) by (auto simp: f64_as_uint_def)
qed

lemma f64_clamp_between:
  assumes "of_nat a \<le> x" "x \<le> of_nat b"
  shows "of_nat (clamp_ms a) \<le> f64_clamp 50 1000 x \<and> f64_clamp 50 1000 x \<le> of_nat (clamp_ms b)"
  using assms by (auto simp: f64_clamp_def clamp_ms_def max_def min_def not_le)

lemma rto_between:
  assumes "rtt_within (int lo) (int hi) e" "ms_bound (int lo)" "ms_bound (5 * int hi)" "re_sample_count e \<noteq> 0"
  shows "millis (clamp_ms lo) \<le> rto e \<and> rto e \<le> millis (clamp_ms (5 * hi))"
proof -
  let ?s = "re_srtt_ms e" and ?v = "re_rttvar_ms e"
  have b: "of_nat lo \<le> ?s" "?s \<le> of_nat hi" "0 \<le> ?v" "?v \<le> of_nat hi"
    using assms(1) by (simp_all add: rtt_within_def)
  have h: "ms_bound (4 * int hi)" "ms_bound 0" using assms(3) by (simp_all add: ms_bound_def)
  have v: "0 \<le> f64_mul 4 ?v" "f64_mul 4 ?v \<le> of_nat (4 * hi)"
    using f64_round_between [OF h(2) h(1), of "4 * ?v"] b(3,4) by (simp_all add: f64_defs)
  have "of_nat lo \<le> f64_add ?s (f64_mul 4 ?v) \<and> f64_add ?s (f64_mul 4 ?v) \<le> of_nat (5 * hi)"
    using f64_round_between [OF assms(2,3), of "?s + f64_mul 4 ?v"] b v by (simp add: f64_add_def)
  then have "of_nat (clamp_ms lo) \<le> f64_clamp 50 1000 (f64_add ?s (f64_mul 4 ?v))
     \<and> f64_clamp 50 1000 (f64_add ?s (f64_mul 4 ?v)) \<le> of_nat (clamp_ms (5 * hi))"
    by (intro f64_clamp_between) simp_all
  moreover have "clamp_ms (5 * hi) < 2 ^ 64" by (simp add: clamp_ms_def)
  ultimately have "clamp_ms lo \<le> f64_as_uint 64 (f64_clamp 50 1000 (f64_add ?s (f64_mul 4 ?v)))
     \<and> f64_as_uint 64 (f64_clamp 50 1000 (f64_add ?s (f64_mul 4 ?v))) \<le> clamp_ms (5 * hi)"
    using f64_as_uint_floor_between by blast
  then show ?thesis using assms(4) by (simp add: rto_def as_millis_def RTO_MIN_def RTO_MAX_def)
qed

section \<open>Runs\<close>

lemma rtt_update_counts:
  assumes "0 < x" "re_sample_count e = of_nat k" "Suc k < 2 ^ 32"
  shows "\<exists>e' t. rtt_update chk e x = Some (e', t) \<and> re_sample_count e' = of_nat (Suc k)"
proof -
  have "unat (of_nat (Suc k) :: u32) = Suc k"
    using assms(3) by (simp only: unat_of_nat) simp
  then have "(of_nat (Suc k) :: u32) \<noteq> 0" by (metis unat_0 nat.distinct(1))
  then have "re_sample_count e \<noteq> - 1" using assms(2) by auto
  then show ?thesis using assms(1,2) by (simp add: rtt_update_def Let_def)
qed

lemma rtt_run_within:
  assumes "ms_bound (int lo)" "ms_bound (int hi)" "0 < lo"
    and "\<forall>x \<in> set xs. of_nat lo \<le> x \<and> x \<le> of_nat hi"
    and "re_sample_count e = of_nat k" "k + length xs < 2 ^ 32" "k = 0 \<or> rtt_within (int lo) (int hi) e"
  shows "\<exists>e'. rtt_run chk e xs = Some e' \<and> re_sample_count e' = of_nat (k + length xs)
     \<and> (k + length xs = 0 \<or> rtt_within (int lo) (int hi) e')"
  using assms(4-)
proof (induction xs arbitrary: e k)
  case Nil
  then show ?case by simp
next
  case (Cons x xs)
  have x: "of_nat lo \<le> x" "x \<le> of_nat hi" "0 < x"
    using Cons.prems(1) assms(3) by (simp_all add: less_le_trans [of 0 "of_nat lo :: rat" x])
  obtain e' t where u: "rtt_update chk e x = Some (e', t)" "re_sample_count e' = of_nat (Suc k)"
    using rtt_update_counts [OF x(3) Cons.prems(2), of chk] Cons.prems(3) by auto
  have "re_sample_count e = 0 \<or> rtt_within (int lo) (int hi) e"
    using Cons.prems(2,4) by auto
  then have "rtt_within (int lo) (int hi) e'"
    using rtt_update_within [OF assms(1,2) _ _ _ _ u(1)] x assms(3) by simp
  then have "\<exists>e''. rtt_run chk e' xs = Some e'' \<and> re_sample_count e'' = of_nat (Suc k + length xs)
     \<and> (Suc k + length xs = 0 \<or> rtt_within (int lo) (int hi) e'')"
    using Cons.prems u(2) by (intro Cons.IH) auto
  then show ?case using u(1) by simp
qed

text \<open>
  C33. Fed at most \<open>2^32 - 1\<close> samples that all lie between \<open>lo\<close> and \<open>hi\<close> milliseconds, the estimator
  never panics (with overflow checks or without), the smoothed RTT it reports stays between \<open>lo\<close> and
  \<open>hi\<close>, and the RTO between the clamp of \<open>lo\<close> and the clamp of \<open>5 * hi\<close>: binary64 rounding never
  pushes either outside.
\<close>

theorem rtt_tracks_samples:
  assumes "0 < lo" "lo \<le> hi" "hi < 65536"
    and "xs \<noteq> []" "length xs < 2 ^ 32" "\<forall>x \<in> set xs. of_nat lo \<le> x \<and> x \<le> of_nat hi"
  shows "\<exists>e. rtt_run chk rtt_new xs = Some e \<and> lo \<le> srtt_ms e \<and> srtt_ms e \<le> hi
     \<and> millis (clamp_ms lo) \<le> rto e \<and> rto e \<le> millis (clamp_ms (5 * hi))"
proof -
  have b: "ms_bound (int lo)" "ms_bound (int hi)" "ms_bound (5 * int hi)"
    using assms(1-3) by (simp_all add: ms_bound_def)
  obtain e where e: "rtt_run chk rtt_new xs = Some e" "re_sample_count e = of_nat (length xs)"
      "rtt_within (int lo) (int hi) e"
    using rtt_run_within [OF b(1,2) assms(1,6), of rtt_new 0 chk] assms(4,5) by (auto simp: rtt_new_def)
  have "unat (re_sample_count e) = length xs"
    using assms(5) by (simp add: e(2) unat_of_nat)
  then have "re_sample_count e \<noteq> 0" using assms(4) by auto
  note r = rto_between [OF e(3) b(1,3) this]
  have "of_nat lo \<le> min (re_srtt_ms e) 65535" "min (re_srtt_ms e) 65535 \<le> of_nat hi"
    using e(3) assms(2,3) by (simp_all add: rtt_within_def)
  then have "lo \<le> srtt_ms e \<and> srtt_ms e \<le> hi"
    unfolding srtt_ms_def using assms(3) by (intro f64_as_uint_floor_between) simp_all
  with e(1) r show ?thesis by blast
qed

theorem rtt_tracks_samples_witness:
  "\<exists>e. rtt_run True rtt_new [20, 25, 40] = Some e \<and> 20 \<le> srtt_ms e \<and> srtt_ms e \<le> 40
     \<and> millis 50 \<le> rto e \<and> rto e \<le> millis 200"
  using rtt_tracks_samples [of 20 40 "[20, 25, 40]" True] by (simp add: clamp_ms_def)

text \<open>
  Whatever the samples were, even after the counter has wrapped, the RTO stays between its two
  constant bounds.
\<close>

theorem rto_in_range: "RTO_MIN \<le> rto e \<and> rto e \<le> RTO_MAX"
  by (rule rto_bounds)

end
