(* ===== verification/Serial.thy ===== *)
theory Serial
  imports Prelude
begin

text \<open>
  Serial-number arithmetic on 16-bit sequence numbers: \<open>seq_newer\<close> and \<open>seq_lt\<close> of
  \<open>src/session/table.rs\<close> (with the private copy in \<open>src/reliable/retransmit.rs\<close>), and the distance
  \<open>seq_dist a b\<close> from \<open>a\<close> forward to \<open>b\<close> in which the lemmas express them.
\<close>

definition seq_newer :: "u16 \<Rightarrow> u16 \<Rightarrow> bool" where
  "seq_newer a b \<longleftrightarrow> 0 < sint (a - b)"

definition seq_lt :: "u16 \<Rightarrow> u16 \<Rightarrow> bool" where
  "seq_lt a b \<longleftrightarrow> sint (a - b) < 0"

definition seq_dist :: "u16 \<Rightarrow> u16 \<Rightarrow> nat" where
  "seq_dist a b = unat (b - a)"

lemma seq_dist_less: "seq_dist a b < 65536"
  using unsigned_less [of "b - a", where 'a = nat] by (simp add: seq_dist_def)

lemma sint16: "sint (w :: u16) = (if unat w < 32768 then int (unat w) else int (unat w) - 65536)"
proof -
  have u: "unat w < 65536" using unsigned_less [of w, where 'a = nat] by simp
  have s: "sint w = (int (unat w) + 32768) mod 65536 - 32768"
    by (simp add: sint_uint signed_take_bit_eq_take_bit_shift take_bit_eq_mod)
  have g: "(int n + 32768) mod 65536 - 32768 = (if n < 32768 then int n else int n - 65536)"
    if "n < 65536" for n :: nat
  proof (cases "n < 32768")
    case True
    then show ?thesis by simp
  next
    case False
    then have "(int n + 32768) mod 65536 = (int n - 32768) mod 65536"
      using mod_add_self2 [of "int n - 32768" 65536] by (simp add: add.commute)
    also have "\<dots> = int n - 32768" using False that by (intro mod_pos_pos_trivial) simp_all
    finally show ?thesis using False by simp
  qed
  show ?thesis by (simp only: s g [OF u])
qed

lemma seq_newer_dist: "seq_newer a b \<longleftrightarrow> 0 < seq_dist b a \<and> seq_dist b a < 32768"
  using seq_dist_less [of b a] unfolding seq_newer_def sint16 seq_dist_def by presburger

lemma seq_lt_dist: "seq_lt a b \<longleftrightarrow> 32768 \<le> seq_dist b a"
  using seq_dist_less [of b a] unfolding seq_lt_def sint16 seq_dist_def by presburger

lemma seq_dist_add: "seq_dist a (a + of_nat k) = k mod 65536"
  by (simp add: seq_dist_def unat_of_nat)

lemma seq_dist_self [simp]: "seq_dist a a = 0"
  by (simp add: seq_dist_def)

lemma seq_dist_eq_0 [simp]: "seq_dist a b = 0 \<longleftrightarrow> a = b"
  by (auto simp: seq_dist_def unat_eq_zero)

lemma seq_newer_irrefl [simp]: "\<not> seq_newer a a"
  by (simp add: seq_newer_dist)

lemma seq_newer_add: "0 < k \<Longrightarrow> k < 32768 \<Longrightarrow> seq_newer (a + of_nat k) a"
  by (simp add: seq_newer_dist seq_dist_add)

lemma add_seq_dist [simp]: "a + of_nat (seq_dist a b) = b"
  by (simp add: seq_dist_def)

lemma seq_dist_sym: "a \<noteq> b \<Longrightarrow> seq_dist b a = 65536 - seq_dist a b"
proof -
  assume ne: "a \<noteq> b"
  have "a = b + of_nat (65536 - seq_dist a b)"
  proof -
    have "of_nat (65536 - seq_dist a b) = (0 :: u16) - of_nat (seq_dist a b)"
      using seq_dist_less [of a b] by (simp add: of_nat_diff)
    then show ?thesis by (simp add: seq_dist_def)
  qed
  moreover have "0 < seq_dist a b" using ne by (metis gr0I seq_dist_eq_0)
  ultimately show ?thesis
    using seq_dist_add [of b "65536 - seq_dist a b"] seq_dist_less [of a b] by simp
qed

lemma seq_newer_asym: "seq_newer a b \<Longrightarrow> \<not> seq_newer b a"
  by (cases "a = b") (auto simp: seq_newer_dist seq_dist_sym [of a b])

end
