(* ===== verification/Retransmit.thy ===== *)
theory Retransmit
  imports Serial Rtt
begin

text \<open>
  The retransmission queue of \<open>src/reliable/retransmit.rs\<close>: a bounded FIFO of encoded datagrams
  waiting for an acknowledgement, with the KCP skip counter of its head. The \<open>HashMap\<close> of skip
  counters is a partial map (it is only ever looked up). \<open>chk\<close> stands for a build with overflow
  checks; \<open>None\<close> is the panic of the 8-bit counter in such a build.
\<close>

section \<open>Data\<close>

record pending_packet =
  pp_seq :: u16
  pp_sent_at :: instant
  pp_datagram :: bytes

record retransmit_queue =
  rq_entries :: "pending_packet list"
  rq_skip_count :: "u16 \<rightharpoonup> u8"

definition rq_new :: retransmit_queue where
  "rq_new = \<lparr>rq_entries = [], rq_skip_count = Map.empty\<rparr>"

section \<open>Operations\<close>

definition rq_push :: "retransmit_queue \<Rightarrow> u16 \<Rightarrow> bytes \<Rightarrow> instant \<Rightarrow> retransmit_queue res" where
  "rq_push q seq datagram now =
     (if RETRANSMIT_QUEUE_CAP \<le> length (rq_entries q) then proto_err RetransmitOverflow
      else Inr (q\<lparr>rq_entries := rq_entries q @
        [\<lparr>pp_seq = seq, pp_sent_at = now, pp_datagram = datagram\<rparr>]\<rparr>))"

definition is_acked :: "u16 \<Rightarrow> u16 \<Rightarrow> u32 \<Rightarrow> bool" where
  "is_acked seq ack ack_bits =
     (if \<not> seq_newer seq ack then True
      else let ahead = seq - ack in
        if 1 \<le> ahead \<and> ahead \<le> 32
        then ack_bits AND push_bit (unat (ahead - 1)) 1 \<noteq> 0
        else False)"

text \<open>
  The first step of \<open>on_ack\<close>: the skip counter of an unacknowledged head and the head's datagram
  when it has been skipped twice.
\<close>

definition skip_head ::
  "bool \<Rightarrow> retransmit_queue \<Rightarrow> u16 \<Rightarrow> u32 \<Rightarrow> (retransmit_queue \<times> bytes list) option" where
  "skip_head chk q ack ack_bits =
     (case rq_entries q of
        [] \<Rightarrow> Some (q, [])
      | front # _ \<Rightarrow>
          if is_acked (pp_seq front) ack ack_bits then Some (q, [])
          else
            let n = (case rq_skip_count q (pp_seq front) of None \<Rightarrow> 0 | Some n \<Rightarrow> n) in
            if chk \<and> n = - 1 then None
            else Some (q\<lparr>rq_skip_count := (rq_skip_count q)(pp_seq front \<mapsto> n + 1)\<rparr>,
                       if 2 \<le> n + 1 then [pp_datagram front] else []))"

definition rtt_sample_ms :: "instant \<Rightarrow> pending_packet \<Rightarrow> rat" where
  "rtt_sample_ms now p = f64_mul (as_secs_f64 (duration_since now (pp_sent_at p))) 1000"

text \<open>The second step: the loop that pops acknowledged entries from the front.\<close>

fun pop_acked :: "u16 \<Rightarrow> u32 \<Rightarrow> instant \<Rightarrow> pending_packet list \<Rightarrow> (u16 \<rightharpoonup> u8) \<Rightarrow> u16 list \<Rightarrow> rat option
    \<Rightarrow> pending_packet list \<times> (u16 \<rightharpoonup> u8) \<times> u16 list \<times> rat option" where
  "pop_acked ack ack_bits now [] skip acked sample = ([], skip, acked, sample)"
| "pop_acked ack ack_bits now (front # rest) skip acked sample =
     (if is_acked (pp_seq front) ack ack_bits
      then pop_acked ack ack_bits now rest (skip(pp_seq front := None)) (acked @ [pp_seq front])
             (Some (rtt_sample_ms now front))
      else (front # rest, skip, acked, sample))"

record ack_result =
  ar_queue :: retransmit_queue
  ar_acked :: "u16 list"
  ar_sample :: "rat option"
  ar_fast :: "bytes list"

definition on_ack :: "bool \<Rightarrow> retransmit_queue \<Rightarrow> u16 \<Rightarrow> u32 \<Rightarrow> instant \<Rightarrow> ack_result option" where
  "on_ack chk q ack ack_bits now = do {
     (q, fast) \<leftarrow> skip_head chk q ack ack_bits;
     let (es, skip, acked, sample) =
       pop_acked ack ack_bits now (rq_entries q) (rq_skip_count q) [] None;
     Some \<lparr>ar_queue = q\<lparr>rq_entries := es, rq_skip_count := skip\<rparr>, ar_acked = acked,
            ar_sample = sample, ar_fast = fast\<rparr>
   }"

definition retransmit_due ::
  "retransmit_queue \<Rightarrow> instant \<Rightarrow> duration \<Rightarrow> retransmit_queue \<times> (u16 \<times> bytes) list" where
  "retransmit_due q now rto_d =
     (let late = (\<lambda>p. rto_d \<le> duration_since now (pp_sent_at p)) in
      (q\<lparr>rq_entries := map (\<lambda>p. if late p then p\<lparr>pp_sent_at := now\<rparr> else p) (rq_entries q)\<rparr>,
       map (\<lambda>p. (pp_seq p, pp_datagram p)) (filter late (rq_entries q))))"

section \<open>Acknowledgement window\<close>

lemma and_exp_ne_0: "(w AND 2 ^ n \<noteq> 0) = bit (w :: 'a::len word) n"
  by (simp add: and_exp_eq_0_iff_not_bit)

lemma is_acked_dist:
  "is_acked seq ack ack_bits \<longleftrightarrow>
     seq = ack \<or> 32768 \<le> seq_dist ack seq
     \<or> 1 \<le> seq_dist ack seq \<and> seq_dist ack seq \<le> 32 \<and> bit ack_bits (seq_dist ack seq - 1)"
proof (cases "seq_newer seq ack")
  case False
  then show ?thesis by (auto simp: is_acked_def seq_newer_dist not_less)
next
  case True
  let ?d = "seq_dist ack seq"
  have d: "0 < ?d" "?d < 32768" using True by (simp_all add: seq_newer_dist)
  have "1 \<le> seq - ack \<and> seq - ack \<le> 32 \<longleftrightarrow> 1 \<le> ?d \<and> ?d \<le> 32"
    by (simp add: seq_dist_def word_le_nat_alt)
  moreover have "unat (seq - ack - 1) = ?d - 1"
    using d by (simp add: seq_dist_def unat_minus_one unat_gt_0)
  moreover have "seq \<noteq> ack" using d by auto
  ultimately show ?thesis
    using True d by (auto simp: is_acked_def Let_def and_exp_ne_0 and_exp_eq_0_iff_not_bit)
qed

section \<open>Functional behaviour\<close>

abbreviation acked_prefix :: "u16 \<Rightarrow> u32 \<Rightarrow> pending_packet list \<Rightarrow> pending_packet list" where
  "acked_prefix ack ack_bits \<equiv> takeWhile (\<lambda>p. is_acked (pp_seq p) ack ack_bits)"

abbreviation unacked_suffix :: "u16 \<Rightarrow> u32 \<Rightarrow> pending_packet list \<Rightarrow> pending_packet list" where
  "unacked_suffix ack ack_bits \<equiv> dropWhile (\<lambda>p. is_acked (pp_seq p) ack ack_bits)"

definition forget_seqs :: "u16 list \<Rightarrow> (u16 \<rightharpoonup> u8) \<Rightarrow> u16 \<rightharpoonup> u8" where
  "forget_seqs ss m = (\<lambda>s. if s \<in> set ss then None else m s)"

lemma forget_seqs_Nil [simp]: "forget_seqs [] m = m"
  by (simp add: forget_seqs_def)

lemma forget_seqs_upd: "forget_seqs ss (m(x := None)) = forget_seqs (x # ss) m"
  by (auto simp: forget_seqs_def fun_eq_iff)

lemma dom_forget_seqs: "dom (forget_seqs ss m) = dom m - set ss"
  by (auto simp: forget_seqs_def split: if_splits)

lemma pop_acked_eq:
  "pop_acked ack ack_bits now es skip acked sample =
     (let done = acked_prefix ack ack_bits es in
      (unacked_suffix ack ack_bits es, forget_seqs (map pp_seq done) skip, acked @ map pp_seq done,
       if done = [] then sample else Some (rtt_sample_ms now (last done))))"
  by (induction es arbitrary: skip acked sample)
    (simp_all add: Let_def forget_seqs_upd del: fun_upd_apply)

lemma skip_head_cases:
  assumes "skip_head chk q ack ack_bits = Some (q', fast)"
  obtains (kept) "q' = q" "fast = []" "\<And>p ps. rq_entries q = p # ps \<Longrightarrow> is_acked (pp_seq p) ack ack_bits"
  | (skipped) front rest n where "rq_entries q = front # rest" "\<not> is_acked (pp_seq front) ack ack_bits"
      "q' = q\<lparr>rq_skip_count := (rq_skip_count q)(pp_seq front \<mapsto> n)\<rparr>"
      "fast = [] \<or> fast = [pp_datagram front]"
proof (cases "rq_entries q")
  case Nil
  then show ?thesis using assms kept by (simp add: skip_head_def)
next
  case (Cons front rest)
  show ?thesis
  proof (cases "is_acked (pp_seq front) ack ack_bits")
    case True
    then show ?thesis using assms Cons kept by (simp add: skip_head_def)
  next
    case False
    then show ?thesis using assms Cons skipped by (auto simp: skip_head_def Let_def split: if_splits)
  qed
qed

lemma rq_entries_skip_head:
  "skip_head chk q ack ack_bits = Some (q', fast) \<Longrightarrow> rq_entries q' = rq_entries q"
  by (erule skip_head_cases) simp_all

text \<open>\<open>on_ack\<close> as a whole, in terms of the acknowledged prefix of the queue.\<close>

lemma on_ack_SomeE:
  assumes "on_ack chk q ack ack_bits now = Some r"
  obtains q' where "skip_head chk q ack ack_bits = Some (q', ar_fast r)"
    and "ar_queue r = q'\<lparr>rq_entries := unacked_suffix ack ack_bits (rq_entries q),
      rq_skip_count := forget_seqs (ar_acked r) (rq_skip_count q')\<rparr>"
    and "ar_acked r = map pp_seq (acked_prefix ack ack_bits (rq_entries q))"
    and "ar_sample r = (let done = acked_prefix ack ack_bits (rq_entries q) in
      if done = [] then None else Some (rtt_sample_ms now (last done)))"
  using assms
  by (auto simp: on_ack_def pop_acked_eq Let_def rq_entries_skip_head split: bind_splits)

lemma on_ack_SomeD:
  assumes "on_ack chk q ack ack_bits now = Some r"
  shows "rq_entries (ar_queue r) = unacked_suffix ack ack_bits (rq_entries q)"
    and "ar_acked r = map pp_seq (acked_prefix ack ack_bits (rq_entries q))"
  by (rule on_ack_SomeE [OF assms], simp)+

lemma skip_head_total: "\<not> chk \<Longrightarrow> \<exists>r. skip_head chk q ack ack_bits = Some r"
  by (auto simp: skip_head_def Let_def split: list.splits)

lemma on_ack_total: "\<not> chk \<Longrightarrow> \<exists>r. on_ack chk q ack ack_bits now = Some r"
  using skip_head_total [of chk q ack ack_bits] by (auto simp: on_ack_def Let_def split: prod.splits)

lemma retransmit_due_frame [frame_simps]:
  "map pp_seq (rq_entries (fst (retransmit_due q now t))) = map pp_seq (rq_entries q)"
  "map pp_datagram (rq_entries (fst (retransmit_due q now t))) = map pp_datagram (rq_entries q)"
  "length (rq_entries (fst (retransmit_due q now t))) = length (rq_entries q)"
  "rq_skip_count (fst (retransmit_due q now t)) = rq_skip_count q"
  by (simp_all add: retransmit_due_def Let_def o_def if_distrib cong: if_cong)

section \<open>Histories\<close>

text \<open>
  A queue with the log of what was pushed, acknowledged and sent again, and the steps a session takes
  on it in any order: a push (refused when full), an acknowledgement, a retransmission scan.
\<close>

record rq_history =
  rh_queue :: retransmit_queue
  rh_pushed :: "(u16 \<times> bytes) list"
  rh_acked :: "u16 list"
  rh_resent :: "bytes list"

definition rh_init :: rq_history where
  "rh_init = \<lparr>rh_queue = rq_new, rh_pushed = [], rh_acked = [], rh_resent = []\<rparr>"

inductive rq_step :: "bool \<Rightarrow> rq_history \<Rightarrow> rq_history \<Rightarrow> bool" for chk where
  step_push: "rq_push (rh_queue h) seq datagram now = Inr q
    \<Longrightarrow> rq_step chk h (h\<lparr>rh_queue := q, rh_pushed := rh_pushed h @ [(seq, datagram)]\<rparr>)"
| step_full: "rq_push (rh_queue h) seq datagram now = Inl e \<Longrightarrow> rq_step chk h h"
| step_ack: "on_ack chk (rh_queue h) ack ack_bits now = Some r
    \<Longrightarrow> rq_step chk h (h\<lparr>rh_queue := ar_queue r, rh_acked := rh_acked h @ ar_acked r,
          rh_resent := rh_resent h @ ar_fast r\<rparr>)"
| step_due: "retransmit_due (rh_queue h) now rto_d = (q, due)
    \<Longrightarrow> rq_step chk h (h\<lparr>rh_queue := q, rh_resent := rh_resent h @ map snd due\<rparr>)"

inductive_cases rq_stepE: "rq_step chk h h'"

definition rq_inv :: "rq_history \<Rightarrow> bool" where
  "rq_inv h \<longleftrightarrow>
     length (rq_entries (rh_queue h)) \<le> RETRANSMIT_QUEUE_CAP
     \<and> rh_acked h @ map pp_seq (rq_entries (rh_queue h)) = map fst (rh_pushed h)
     \<and> drop (length (rh_acked h)) (map snd (rh_pushed h)) = map pp_datagram (rq_entries (rh_queue h))
     \<and> set (rh_resent h) \<subseteq> set (map snd (rh_pushed h))
     \<and> dom (rq_skip_count (rh_queue h)) \<subseteq> pp_seq ` set (take 1 (rq_entries (rh_queue h)))"

lemma rq_inv_init [inv_intros]: "rq_inv rh_init"
  by (simp add: rq_inv_def rh_init_def rq_new_def)

lemma rq_push_InrD:
  "rq_push q seq d now = Inr q' \<Longrightarrow> length (rq_entries q) < RETRANSMIT_QUEUE_CAP
     \<and> rq_entries q' = rq_entries q @ [\<lparr>pp_seq = seq, pp_sent_at = now, pp_datagram = d\<rparr>]
     \<and> rq_skip_count q' = rq_skip_count q"
  by (auto simp: rq_push_def split: if_splits)

lemma rq_inv_datagrams: "rq_inv h \<Longrightarrow> pp_datagram ` set (rq_entries (rh_queue h)) \<subseteq> set (map snd (rh_pushed h))"
  unfolding rq_inv_def by (metis list.set_map set_drop_subset)

lemma skip_head_fast:
  "skip_head chk q ack ack_bits = Some (q', fast) \<Longrightarrow> set fast \<subseteq> pp_datagram ` set (rq_entries q)"
  by (erule skip_head_cases) auto

lemma skip_head_dom:
  "skip_head chk q ack ack_bits = Some (q', fast)
     \<Longrightarrow> dom (rq_skip_count q) \<subseteq> pp_seq ` set (take 1 (rq_entries q))
     \<Longrightarrow> dom (rq_skip_count q') \<subseteq> pp_seq ` set (take 1 (rq_entries q))"
  by (erule skip_head_cases) auto

lemma dom_forget_head:
  assumes "dom m \<subseteq> pp_seq ` set (take 1 es)"
  shows "dom (forget_seqs (map pp_seq (acked_prefix ack ack_bits es)) m)
    \<subseteq> pp_seq ` set (take 1 (unacked_suffix ack ack_bits es))"
  using assms by (cases es) (auto simp: dom_forget_seqs)

lemma on_ack_dom:
  assumes "on_ack chk q ack ack_bits now = Some r"
    and "dom (rq_skip_count q) \<subseteq> pp_seq ` set (take 1 (rq_entries q))"
  shows "dom (rq_skip_count (ar_queue r)) \<subseteq> pp_seq ` set (take 1 (rq_entries (ar_queue r)))"
proof -
  obtain q' where q: "skip_head chk q ack ack_bits = Some (q', ar_fast r)"
    "ar_queue r = q'\<lparr>rq_entries := unacked_suffix ack ack_bits (rq_entries q),
      rq_skip_count := forget_seqs (ar_acked r) (rq_skip_count q')\<rparr>"
    "ar_acked r = map pp_seq (acked_prefix ack ack_bits (rq_entries q))"
    by (rule on_ack_SomeE [OF assms(1)])
  show ?thesis
    using dom_forget_head [OF skip_head_dom [OF q(1) assms(2)]] by (simp only: q(2,3)) simp
qed

lemma on_ack_fast:
  "on_ack chk q ack ack_bits now = Some r \<Longrightarrow> set (ar_fast r) \<subseteq> pp_datagram ` set (rq_entries q)"
  by (erule on_ack_SomeE) (erule skip_head_fast)

lemma rq_inv_push [inv_intros]:
  assumes "rq_inv h" "rq_push (rh_queue h) seq d now = Inr q"
  shows "rq_inv (h\<lparr>rh_queue := q, rh_pushed := rh_pushed h @ [(seq, d)]\<rparr>)"
proof -
  note q = rq_push_InrD [OF assms(2)]
  have "length (rh_acked h @ map pp_seq (rq_entries (rh_queue h))) = length (map fst (rh_pushed h))"
    using assms(1) by (simp only: rq_inv_def)
  then have "length (rh_acked h) \<le> length (rh_pushed h)" by simp
  moreover have "set (take 1 (rq_entries (rh_queue h))) \<subseteq> set (take 1 (rq_entries q))"
    using q by (cases "rq_entries (rh_queue h)") simp_all
  ultimately show ?thesis using assms(1) q by (simp add: rq_inv_def) blast
qed

lemma rq_inv_ack [inv_intros]:
  assumes "rq_inv h" "on_ack chk (rh_queue h) ack ack_bits now = Some r"
  shows "rq_inv (h\<lparr>rh_queue := ar_queue r, rh_acked := rh_acked h @ ar_acked r,
    rh_resent := rh_resent h @ ar_fast r\<rparr>)"
proof -
  let ?es = "rq_entries (rh_queue h)"
  have split: "acked_prefix ack ack_bits ?es @ unacked_suffix ack ack_bits ?es = ?es" by simp
  have "drop (length (ar_acked r)) (drop (length (rh_acked h)) (map snd (rh_pushed h))) = map pp_datagram (unacked_suffix ack ack_bits ?es)"
    using assms(1) by (simp only: rq_inv_def) (simp add: on_ack_SomeD(2) [OF assms(2)] drop_map dropWhile_eq_drop)
  moreover have "map pp_seq (acked_prefix ack ack_bits ?es) @ map pp_seq (unacked_suffix ack ack_bits ?es) = map pp_seq ?es"
    by (metis map_append split)
  moreover have "length (unacked_suffix ack ack_bits ?es) \<le> length ?es" by (rule length_dropWhile_le)
  ultimately show ?thesis
    using assms(1) on_ack_dom [OF assms(2)] on_ack_fast [OF assms(2)] rq_inv_datagrams [OF assms(1)]
      on_ack_SomeD(1,2) [OF assms(2)]
    by (auto simp: rq_inv_def add.commute)
qed

lemma rq_inv_due [inv_intros]:
  assumes "rq_inv h" "retransmit_due (rh_queue h) now t = (q, due)"
  shows "rq_inv (h\<lparr>rh_queue := q, rh_resent := rh_resent h @ map snd due\<rparr>)"
proof -
  have q: "q = fst (retransmit_due (rh_queue h) now t)" using assms(2) by simp
  have "set (map snd due) \<subseteq> pp_datagram ` set (rq_entries (rh_queue h))"
    using assms(2) by (auto simp: retransmit_due_def Let_def)
  moreover have "pp_seq ` set (take 1 (rq_entries q)) = pp_seq ` set (take 1 (rq_entries (rh_queue h)))"
    by (metis q list.set_map retransmit_due_frame(1) take_map)
  ultimately show ?thesis
    using assms(1) rq_inv_datagrams [OF assms(1)] by (auto simp: rq_inv_def q frame_simps)
qed

lemma rq_inv_step: "rq_step chk h h' \<Longrightarrow> rq_inv h \<Longrightarrow> rq_inv h'"
  by (induction rule: rq_step.induct) (auto intro: inv_intros)

lemma rq_inv_reachable: "(rq_step chk)\<^sup>*\<^sup>* rh_init h \<Longrightarrow> rq_inv h"
  by (induction rule: rtranclp_induct) (auto intro: inv_intros rq_inv_step)

text \<open>
  C22. Whatever order a session pushes, acknowledges and scans in, a retransmission queue holds at most
  64 datagrams, what has been acknowledged followed by what is still queued is exactly what was
  pushed, in order (so nothing is lost and nothing is acknowledged out of order), only datagrams that
  were pushed are ever sent again, and a skip counter exists at most for the head of the queue.
\<close>

theorem retransmit_queue_history:
  assumes "(rq_step chk)\<^sup>*\<^sup>* rh_init h"
  shows "length (rq_entries (rh_queue h)) \<le> 64
     \<and> rh_acked h @ map pp_seq (rq_entries (rh_queue h)) = map fst (rh_pushed h)
     \<and> set (rh_resent h) \<subseteq> set (map snd (rh_pushed h))
     \<and> dom (rq_skip_count (rh_queue h)) \<subseteq> pp_seq ` set (take 1 (rq_entries (rh_queue h)))"
  using rq_inv_reachable [OF assms] by (simp add: rq_inv_def RETRANSMIT_QUEUE_CAP_def)

theorem retransmit_queue_history_witness:
  "\<exists>h :: rq_history. rh_pushed h = [(5, [7])] \<and> length (rq_entries (rh_queue h)) \<le> 64
     \<and> rh_acked h @ map pp_seq (rq_entries (rh_queue h)) = map fst (rh_pushed h)
     \<and> set (rh_resent h) \<subseteq> set (map snd (rh_pushed h))
     \<and> dom (rq_skip_count (rh_queue h)) \<subseteq> pp_seq ` set (take 1 (rq_entries (rh_queue h)))"
proof -
  let ?h = "rh_init\<lparr>rh_queue := \<lparr>rq_entries = [\<lparr>pp_seq = 5, pp_sent_at = 0, pp_datagram = [7]\<rparr>],
    rq_skip_count = Map.empty\<rparr>, rh_pushed := rh_pushed rh_init @ [(5, [7])]\<rparr>"
  have "(rq_step True)\<^sup>*\<^sup>* rh_init ?h"
    by (intro r_into_rtranclp step_push [where now = 0])
      (simp add: rq_push_def rh_init_def rq_new_def RETRANSMIT_QUEUE_CAP_def)
  moreover have "rh_pushed ?h = [(5, [7])]" by (simp add: rh_init_def)
  ultimately obtain h where h: "(rq_step True)\<^sup>*\<^sup>* rh_init h" and p: "rh_pushed h = [(5, [7])]" by blast
  show ?thesis by (rule exI [of _ h], rule conjI [OF p retransmit_queue_history [OF h]])
qed

lemma on_ack_None_iff:
  "on_ack chk q ack ack_bits now = None \<longleftrightarrow>
     chk \<and> (\<exists>front rest. rq_entries q = front # rest \<and> \<not> is_acked (pp_seq front) ack ack_bits
       \<and> rq_skip_count q (pp_seq front) = Some 255)"
  by (cases "rq_entries q")
    (auto simp: on_ack_def skip_head_def Let_def split: bind_splits if_splits prod.splits option.splits)

text \<open>
  An acknowledgement panics only in a build with overflow checks, and there exactly when the head
  of the queue is unacknowledged with its 8-bit skip counter at 255; otherwise it removes exactly the
  longest acknowledged prefix, reports those sequence numbers, and leaves the rest untouched.
\<close>

theorem on_ack_outcome:
  "case on_ack chk q ack ack_bits now of
     None \<Rightarrow> chk \<and> (\<exists>front rest. rq_entries q = front # rest
       \<and> \<not> is_acked (pp_seq front) ack ack_bits \<and> rq_skip_count q (pp_seq front) = Some 255)
   | Some r \<Rightarrow> rq_entries q = acked_prefix ack ack_bits (rq_entries q) @ rq_entries (ar_queue r)
       \<and> ar_acked r = map pp_seq (acked_prefix ack ack_bits (rq_entries q))
       \<and> (case rq_entries (ar_queue r) of [] \<Rightarrow> True | p # _ \<Rightarrow> \<not> is_acked (pp_seq p) ack ack_bits)"
proof (cases "on_ack chk q ack ack_bits now")
  case None
  from None [unfolded on_ack_None_iff] show ?thesis unfolding None option.case .
next
  case (Some r)
  have "case unacked_suffix ack ack_bits (rq_entries q) of [] \<Rightarrow> True
      | p # _ \<Rightarrow> \<not> is_acked (pp_seq p) ack ack_bits"
    using hd_dropWhile [of "\<lambda>p. is_acked (pp_seq p) ack ack_bits" "rq_entries q"]
    by (cases "unacked_suffix ack ack_bits (rq_entries q)") (simp_all del: dropWhile_eq_Cons_conv dropWhile_eq_Nil_conv)
  then show ?thesis by (simp add: Some on_ack_SomeD [OF Some])
qed

fun ack_run :: "bool \<Rightarrow> retransmit_queue \<Rightarrow> (u16 \<times> u32 \<times> instant) list \<Rightarrow> retransmit_queue option" where
  "ack_run chk q [] = Some q"
| "ack_run chk q ((ack, ack_bits, now) # acks) =
     (case on_ack chk q ack ack_bits now of None \<Rightarrow> None | Some r \<Rightarrow> ack_run chk (ar_queue r) acks)"

definition skips :: "retransmit_queue \<Rightarrow> u8" where
  "skips q = (case rq_entries q of [] \<Rightarrow> 0
     | front # _ \<Rightarrow> (case rq_skip_count q (pp_seq front) of None \<Rightarrow> 0 | Some n \<Rightarrow> n))"

lemma on_ack_hole:
  assumes "rq_entries q = front # rest" "\<not> is_acked (pp_seq front) ack ack_bits" "skips q \<noteq> - 1"
  shows "\<exists>r. on_ack True q ack ack_bits now = Some r \<and> rq_entries (ar_queue r) = front # rest
     \<and> skips (ar_queue r) = skips q + 1"
  using assms by (auto simp: on_ack_def skip_head_def Let_def skips_def split: option.splits)

lemma unat_minus_1_u8: "unat (- 1 :: u8) = 255"
  by (simp add: unsigned_minus_1_eq_mask mask_eq_exp_minus_1)

lemma ack_run_hole:
  assumes "rq_entries q = front # rest" "\<forall>(ack, ack_bits, now) \<in> set acks. \<not> is_acked (pp_seq front) ack ack_bits"
  shows "ack_run True q acks = None \<longleftrightarrow> 255 < unat (skips q) + length acks"
  using assms
proof (induction acks arbitrary: q)
  case Nil
  then show ?case using unsigned_less [of "skips q", where 'a = nat] by simp
next
  case (Cons a acks)
  obtain ack ack_bits now where a: "a = (ack, ack_bits, now)" by (metis prod.exhaust)
  have un: "\<not> is_acked (pp_seq front) ack ack_bits" using Cons.prems(2) a by simp
  show ?case
  proof (cases "skips q = - 1")
    case True
    then have "on_ack True q ack ack_bits now = None"
      using Cons.prems(1) un by (auto simp: on_ack_None_iff skips_def split: option.splits)
    then show ?thesis using True a by (simp add: unat_minus_1_u8)
  next
    case False
    obtain r where r: "on_ack True q ack ack_bits now = Some r" "rq_entries (ar_queue r) = front # rest"
        "skips (ar_queue r) = skips q + 1"
      using on_ack_hole [OF Cons.prems(1) un False] by blast
    have "unat (skips q + 1) = Suc (unat (skips q))"
      using False unatSuc [of "skips q"] by (auto simp: add.commute eq_neg_iff_add_eq_0)
    then show ?thesis using Cons.IH [OF r(2)] Cons.prems(2) r a by simp
  qed
qed

text \<open>
  In a build with overflow checks a single lost reliable datagram is fatal after enough traffic:
  with the head of the queue unacknowledged, the connection handler survives exactly 255 further
  acknowledgements and panics on the 256th (the 8-bit counter of the fast-retransmit scheme).
\<close>

theorem skip_counter_overflow:
  assumes "rq_entries q = front # rest" and "rq_skip_count q (pp_seq front) = None"
    and "\<forall>(ack, ack_bits, now) \<in> set acks. \<not> is_acked (pp_seq front) ack ack_bits"
  shows "ack_run True q acks = None \<longleftrightarrow> 256 \<le> length acks"
  using ack_run_hole [OF assms(1,3)] assms(1,2) by (auto simp: skips_def)

theorem skip_counter_overflow_witness:
  "ack_run True \<lparr>rq_entries = [\<lparr>pp_seq = 0, pp_sent_at = 0, pp_datagram = []\<rparr>],
     rq_skip_count = Map.empty\<rparr> (replicate 256 (- 1, 0, 0)) = None"
  by (subst skip_counter_overflow [where rest = "[]"])
    (auto simp: is_acked_def seq_newer_dist seq_dist_def)

end
