(* ===== verification/Fragment.thy ===== *)
theory Fragment
  imports Proto_Types
begin

text \<open>
  Fragmentation and reassembly, \<open>src/reliable/fragment.rs\<close>: \<open>split\<close> cuts a payload into fragment
  bodies, \<open>decode_fragment\<close> checks one body, and the assembler collects the fragments of each group,
  remembers the last 128 groups it completed, and forgets groups that stay incomplete for 10 seconds.
\<close>

section \<open>Wire format\<close>

definition FRAGMENT_TIMEOUT :: duration where "FRAGMENT_TIMEOUT = secs 10"
definition MAX_FRAGMENTS :: u8 where "MAX_FRAGMENTS = 64"
definition FRAGMENT_THRESHOLD :: nat where "FRAGMENT_THRESHOLD = 1100"
definition FRAG_HEADER_LEN :: nat where "FRAG_HEADER_LEN = 6"
definition COMPLETED_CAP :: nat where "COMPLETED_CAP = 128"

definition encode_fragment :: "u16 \<Rightarrow> u16 \<Rightarrow> u8 \<Rightarrow> u8 \<Rightarrow> bytes \<Rightarrow> bytes" where
  "encode_fragment group_id first_seq frag_no total_no chunk =
     le16 group_id @ le16 first_seq @ [frag_no] @ [total_no] @ chunk"

text \<open>\<open>slice::chunks\<close>; a chunk size of zero is the caller's panic.\<close>

function chunks :: "nat \<Rightarrow> 'a list \<Rightarrow> 'a list list" where
  "chunks n xs = (if n = 0 \<or> xs = [] then [] else take n xs # chunks n (drop n xs))"
  by auto
termination by (relation "measure (\<lambda>(n, xs). length xs)") auto

declare chunks.simps [simp del]

definition div_ceil :: "nat \<Rightarrow> nat \<Rightarrow> nat" where
  "div_ceil a b = (a + b - 1) div b"

text \<open>\<open>None\<close> is the division by zero of \<open>div_ceil(0)\<close>.\<close>

definition split_payload :: "bytes \<Rightarrow> u16 \<Rightarrow> u16 \<Rightarrow> nat \<Rightarrow> bytes list option" where
  "split_payload payload group_id first_seq max_chunk =
     (if max_chunk = 0 then None
      else
        let total_no = (of_nat (max (div_ceil (length payload) max_chunk) 1) :: u8) in
        Some (map (\<lambda>(i, chunk). encode_fragment group_id first_seq (of_nat i) total_no chunk)
          (List.enumerate 0 (chunks max_chunk payload))))"

definition decode_fragment :: "bytes \<Rightarrow> (u16 \<times> u16 \<times> u8 \<times> u8 \<times> bytes) res" where
  "decode_fragment body =
     (if length body < FRAG_HEADER_LEN then proto_err BodyTooShort
      else
        let group_id = of_le (subslice body 0 2);
            first_seq = of_le (subslice body 2 4);
            frag_no = body ! 4;
            total_no = body ! 5
        in if total_no = 0 \<or> MAX_FRAGMENTS < total_no \<or> total_no \<le> frag_no
           then proto_err (BadFragment frag_no total_no)
           else Inr (group_id, first_seq, frag_no, total_no, drop FRAG_HEADER_LEN body))"

section \<open>Assembler\<close>

record frag_state =
  fs_total :: u8
  fs_first_seq :: u16
  fs_parts :: "bytes option list"
  fs_last_update :: instant

record fragment_assembler =
  fa_pending :: "u16 \<rightharpoonup> frag_state"
  fa_completed :: "u16 list"

definition fa_new :: fragment_assembler where
  "fa_new = \<lparr>fa_pending = Map.empty, fa_completed = []\<rparr>"

definition fresh_state :: "u8 \<Rightarrow> u16 \<Rightarrow> instant \<Rightarrow> frag_state" where
  "fresh_state total_no first_seq now =
     \<lparr>fs_total = total_no, fs_first_seq = first_seq, fs_parts = replicate (unat total_no) None,
      fs_last_update = now\<rparr>"

definition join_parts :: "bytes option list \<Rightarrow> bytes" where
  "join_parts ps = concat (map (\<lambda>p. case p of None \<Rightarrow> [] | Some v \<Rightarrow> v) ps)"

text \<open>The outer \<open>None\<close> is the panic of the index \<open>parts[frag_no]\<close>.\<close>

definition fa_push :: "fragment_assembler \<Rightarrow> u16 \<Rightarrow> u16 \<Rightarrow> u8 \<Rightarrow> u8 \<Rightarrow> bytes \<Rightarrow> instant
    \<Rightarrow> (fragment_assembler \<times> (u16 \<times> bytes) option) option" where
  "fa_push a group_id first_seq frag_no total_no chunk now =
     (if group_id \<in> set (fa_completed a) then Some (a, None)
      else
        let e0 = (case fa_pending a group_id of
                    None \<Rightarrow> fresh_state total_no first_seq now
                  | Some e \<Rightarrow> e);
            e1 = (if fs_total e0 \<noteq> total_no \<or> fs_first_seq e0 \<noteq> first_seq
                  then fresh_state total_no first_seq now else e0);
            e2 = e1\<lparr>fs_last_update := now\<rparr>;
            i = unat frag_no
        in if length (fs_parts e2) \<le> i then None
           else
             let parts = (if fs_parts e2 ! i = None then (fs_parts e2)[i := Some chunk]
                          else fs_parts e2)
             in if \<forall>p \<in> set parts. p \<noteq> None
                then Some (a\<lparr>fa_pending := (fa_pending a)(group_id := None),
                             fa_completed := push_capped COMPLETED_CAP (fa_completed a) group_id\<rparr>,
                           Some (fs_first_seq e2, join_parts parts))
                else Some (a\<lparr>fa_pending := (fa_pending a)(group_id \<mapsto> e2\<lparr>fs_parts := parts\<rparr>)\<rparr>, None))"

definition fa_cleanup :: "fragment_assembler \<Rightarrow> instant \<Rightarrow> fragment_assembler" where
  "fa_cleanup a now = a\<lparr>fa_pending := (\<lambda>g. case fa_pending a g of
       None \<Rightarrow> None
     | Some s \<Rightarrow> if duration_since now (fs_last_update s) < FRAGMENT_TIMEOUT then Some s else None)\<rparr>"

section \<open>Chunks\<close>

lemma chunks_Nil [simp]: "chunks n [] = []"
  by (simp add: chunks.simps)

lemma concat_chunks: "0 < n \<Longrightarrow> concat (chunks n xs) = xs"
  by (induction n xs rule: chunks.induct) (subst chunks.simps, simp)

lemma length_chunks: "0 < n \<Longrightarrow> length (chunks n xs) = div_ceil (length xs) n"
proof (induction n xs rule: chunks.induct)
  case (1 n xs)
  show ?case
  proof (cases "xs = []")
    case True
    then show ?thesis using 1 by (simp add: div_ceil_def)
  next
    case False
    have "length xs + n - 1 = (length xs - 1) + n" using False by (cases xs) auto
    then have "div_ceil (length xs) n = (length xs - 1 + n) div n" by (simp only: div_ceil_def)
    then have "Suc ((length xs - 1) div n) = div_ceil (length xs) n"
      using 1(2) div_add_self2 [of n "length xs - 1"] by simp
    moreover have "div_ceil (length xs - n) n = (length xs - 1) div n"
    proof (cases "length xs < n")
      case True
      then show ?thesis using 1(2) False by (simp add: div_ceil_def)
    next
      case ge: False
      then have "length xs - n + n - 1 = length xs - 1" by simp
      then show ?thesis by (simp only: div_ceil_def)
    qed
    ultimately show ?thesis
      using 1 False by (subst chunks.simps) (simp del: One_nat_def)
  qed
qed

lemma chunks_size: "c \<in> set (chunks n xs) \<Longrightarrow> c \<noteq> [] \<and> length c \<le> n"
  by (induction n xs rule: chunks.induct) (subst (asm) (2) chunks.simps, auto split: if_splits)

lemma div_ceil_pos: "xs \<noteq> [] \<Longrightarrow> 0 < n \<Longrightarrow> 0 < div_ceil (length xs) n"
  by (cases xs) (simp_all add: div_ceil_def div_greater_zero_iff)

section \<open>Decoding\<close>

lemma decode_encode_fragment [wire_simps]:
  assumes "total_no \<noteq> 0" "total_no \<le> MAX_FRAGMENTS" "frag_no < total_no"
  shows "decode_fragment (encode_fragment g f frag_no total_no chunk) = Inr (g, f, frag_no, total_no, chunk)"
  using assms le16.dec_enc
  by (simp add: decode_fragment_def encode_fragment_def FRAG_HEADER_LEN_def subslice_def nth_append
    not_less not_le)

lemma decode_fragment_reject:
  assumes "MAX_FRAGMENTS < total_no"
  shows "decode_fragment (encode_fragment g f frag_no total_no chunk) = proto_err (BadFragment frag_no total_no)"
  using assms
  by (simp add: decode_fragment_def encode_fragment_def FRAG_HEADER_LEN_def nth_append Let_def)

lemma decode_fragment_InrD:
  assumes "decode_fragment body = Inr (g, f, frag_no, total_no, chunk)"
  shows "frag_no < total_no" "total_no \<le> MAX_FRAGMENTS" "6 + length chunk = length body"
  using assms by (auto simp: decode_fragment_def Let_def FRAG_HEADER_LEN_def split: if_splits)

section \<open>Assembler invariant\<close>

text \<open>
  Every pending group has one slot per fragment and at least one of them empty, and is not remembered
  as completed; the memory of completed groups is bounded and free of duplicates.
\<close>

definition fa_inv :: "fragment_assembler \<Rightarrow> bool" where
  "fa_inv a \<longleftrightarrow>
     (\<forall>g s. fa_pending a g = Some s \<longrightarrow>
        length (fs_parts s) = unat (fs_total s) \<and> None \<in> set (fs_parts s) \<and> g \<notin> set (fa_completed a))
     \<and> distinct (fa_completed a) \<and> length (fa_completed a) \<le> COMPLETED_CAP"

lemma fa_inv_new [inv_intros]: "fa_inv fa_new"
  by (simp add: fa_inv_def fa_new_def)

lemma distinct_push_capped: "distinct q \<Longrightarrow> x \<notin> set q \<Longrightarrow> distinct (push_capped cap q x)"
  unfolding push_capped_def Let_def by (rule distinct_drop) simp

lemma fa_push_inv [inv_intros]:
  assumes "fa_inv a" "fa_push a g f i t chunk now = Some (a', out)"
  shows "fa_inv a'"
proof (cases "g \<in> set (fa_completed a)")
  case True
  then show ?thesis using assms by (simp add: fa_push_def)
next
  case False
  have fresh: "length (fs_parts (fresh_state t f now)) = unat (fs_total (fresh_state t f now))"
    by (simp add: fresh_state_def)
  have len: "\<And>s. fa_pending a g = Some s \<Longrightarrow> length (fs_parts s) = unat (fs_total s)"
    using assms(1) by (simp add: fa_inv_def)
  have notin: "h \<notin> set (push_capped COMPLETED_CAP (fa_completed a) g)"
    if "h \<notin> set (fa_completed a)" "h \<noteq> g" for h
    using that set_push_capped_subset [of COMPLETED_CAP "fa_completed a" g] by auto
  show ?thesis
    using assms False fresh len
    by (auto simp: fa_push_def Let_def fa_inv_def notin distinct_push_capped length_push_capped_le
      intro: sym [of _ None] split: if_splits option.splits)
qed

text \<open>The bodies a session feeds to the assembler; malformed ones are dropped silently.\<close>

fun fa_feed :: "fragment_assembler \<Rightarrow> instant \<Rightarrow> bytes list
    \<Rightarrow> (fragment_assembler \<times> (u16 \<times> bytes) list) option" where
  "fa_feed a now [] = Some (a, [])"
| "fa_feed a now (body # bodies) =
     (case decode_fragment body of
        Inl _ \<Rightarrow> fa_feed a now bodies
      | Inr (g, f, i, t, chunk) \<Rightarrow>
          (case fa_push a g f i t chunk now of
             None \<Rightarrow> None
           | Some (a', r) \<Rightarrow>
               (case fa_feed a' now bodies of
                  None \<Rightarrow> None
                | Some (a'', out) \<Rightarrow> Some (a'', (case r of None \<Rightarrow> out | Some x \<Rightarrow> x # out)))))"

lemma fa_push_Some:
  assumes "fa_inv a" "i < t"
  shows "\<exists>a' r. fa_push a g f i t chunk now = Some (a', r)"
  using assms
  by (auto simp: fa_push_def Let_def fresh_state_def fa_inv_def word_less_nat_alt not_le
    split: option.splits)

lemma fa_feed_total:
  "fa_inv a \<Longrightarrow> \<exists>a' out. fa_feed a now bodies = Some (a', out) \<and> fa_inv a'"
proof (induction bodies arbitrary: a)
  case Nil
  then show ?case by simp
next
  case (Cons body bodies)
  show ?case
  proof (cases "decode_fragment body")
    case (Inl e)
    then show ?thesis using Cons by simp
  next
    case (Inr x)
    obtain g f i t chunk where x: "decode_fragment body = Inr (g, f, i, t, chunk)"
      using Inr by (metis prod_cases5)
    obtain a' r where p: "fa_push a g f i t chunk now = Some (a', r)"
      using fa_push_Some [OF Cons.prems decode_fragment_InrD(1) [OF x]] by blast
    show ?thesis
      using Cons.IH [OF fa_push_inv [OF Cons.prems p]] by (auto simp: x p)
  qed
qed

text \<open>
  Reassembly never panics and never loses its bounds: whatever bytes a peer sends as fragment
  bodies, every index into a group's slots is in range, each pending group still misses a fragment
  (\<open>fa_inv\<close>), and at most 128 distinct completed groups are remembered.
\<close>

theorem reassembly_never_panics:
  "\<exists>a out. fa_feed fa_new now bodies = Some (a, out) \<and> fa_inv a
     \<and> distinct (fa_completed a) \<and> length (fa_completed a) \<le> 128"
  using fa_feed_total [OF fa_inv_new, of now bodies] by (auto simp: fa_inv_def COMPLETED_CAP_def)

section \<open>Reassembly in any order\<close>

text \<open>The slots once the fragments with index in \<open>S\<close> have arrived.\<close>

definition slots :: "bytes list \<Rightarrow> nat set \<Rightarrow> bytes option list" where
  "slots cs S = map (\<lambda>i. if i \<in> S then Some (cs ! i) else None) [0..<length cs]"

lemma length_slots [simp]: "length (slots cs S) = length cs"
  by (simp add: slots_def)

lemma slots_nth [simp]: "i < length cs \<Longrightarrow> slots cs S ! i = (if i \<in> S then Some (cs ! i) else None)"
  by (simp add: slots_def)

lemma slots_insert: "i < length cs \<Longrightarrow> (slots cs S)[i := Some (cs ! i)] = slots cs (insert i S)"
  by (rule nth_equalityI) (auto simp: nth_list_update)

lemma slots_insert_mem: "i \<in> S \<Longrightarrow> slots cs (insert i S) = slots cs S"
  by (simp add: insert_absorb)

lemma slots_empty: "slots cs {} = replicate (length cs) None"
  by (rule nth_equalityI) simp_all

lemma slots_full: "(\<forall>p \<in> set (slots cs S). p \<noteq> None) \<longleftrightarrow> {..<length cs} \<subseteq> S"
  by (auto simp: slots_def)

lemma join_slots: "{..<length cs} \<subseteq> S \<Longrightarrow> join_parts (slots cs S) = concat cs"
proof -
  assume "{..<length cs} \<subseteq> S"
  then have "slots cs S = map Some cs"
    by (intro nth_equalityI) auto
  then show ?thesis by (simp add: join_parts_def o_def)
qed

text \<open>How the assembler stands with respect to one group while its fragments arrive.\<close>

definition collecting :: "fragment_assembler \<Rightarrow> u16 \<Rightarrow> u16 \<Rightarrow> bytes list \<Rightarrow> nat set \<Rightarrow> bool" where
  "collecting a g f cs S \<longleftrightarrow> g \<notin> set (fa_completed a)
     \<and> (case fa_pending a g of
          None \<Rightarrow> S = {}
        | Some s \<Rightarrow> fs_total s = of_nat (length cs) \<and> fs_first_seq s = f \<and> fs_parts s = slots cs S)"

lemma fa_push_collecting:
  assumes "collecting a g f cs S" "i < length cs" "length cs < 256"
  shows "\<exists>a'. if {..<length cs} \<subseteq> insert i S
     then fa_push a g f (of_nat i) (of_nat (length cs)) (cs ! i) now = Some (a', Some (f, concat cs))
       \<and> g \<in> set (fa_completed a')
     else fa_push a g f (of_nat i) (of_nat (length cs)) (cs ! i) now = Some (a', None)
       \<and> collecting a' g f cs (insert i S)"
proof -
  have u: "unat (of_nat i :: u8) = i" "unat (of_nat (length cs) :: u8) = length cs"
    using assms(2,3) by (simp_all add: unat_of_nat)
  let ?T = "of_nat (length cs) :: u8"
  let ?e0 = "case fa_pending a g of None \<Rightarrow> fresh_state ?T f now | Some e \<Rightarrow> e"
  let ?s = "\<lparr>fs_total = ?T, fs_first_seq = f, fs_parts = slots cs S, fs_last_update = now\<rparr>"
  have e: "(if fs_total ?e0 \<noteq> ?T \<or> fs_first_seq ?e0 \<noteq> f then fresh_state ?T f now else ?e0)
      \<lparr>fs_last_update := now\<rparr> = ?s"
    using assms(1) by (auto simp: collecting_def fresh_state_def slots_empty u split: option.splits)
  have ins: "(if slots cs S ! i = None then (slots cs S)[i := Some (cs ! i)] else slots cs S) = slots cs (insert i S)"
    using assms(2) by (simp add: slots_insert slots_insert_mem)
  have g: "g \<notin> set (fa_completed a)" using assms(1) by (simp add: collecting_def)
  then have p: "fa_push a g f (of_nat i) ?T (cs ! i) now =
      (if {..<length cs} \<subseteq> insert i S
       then Some (a\<lparr>fa_pending := (fa_pending a)(g := None),
           fa_completed := push_capped COMPLETED_CAP (fa_completed a) g\<rparr>, Some (f, join_parts (slots cs (insert i S))))
       else Some (a\<lparr>fa_pending := (fa_pending a)(g \<mapsto> ?s\<lparr>fs_parts := slots cs (insert i S)\<rparr>)\<rparr>, None))"
    unfolding fa_push_def Let_def e using assms(2)
    by (simp only: u frag_state.select_convs ins slots_full length_slots not_less [symmetric] not_not
      if_True if_False simp_thms)
  have "g \<in> set (push_capped COMPLETED_CAP (fa_completed a) g)"
    by (rule push_capped_mem) (simp add: COMPLETED_CAP_def)
  then show ?thesis
    using g by (cases "{..<length cs} \<subseteq> insert i S") (simp_all add: p join_slots collecting_def)
qed

text \<open>The bodies of a group as the sender writes them.\<close>

definition frag_body :: "u16 \<Rightarrow> u16 \<Rightarrow> bytes list \<Rightarrow> nat \<Rightarrow> bytes" where
  "frag_body g f cs i = encode_fragment g f (of_nat i) (of_nat (length cs)) (cs ! i)"

lemma decode_frag_body:
  assumes "i < length cs" "length cs \<le> 64"
  shows "decode_fragment (frag_body g f cs i) = Inr (g, f, of_nat i, of_nat (length cs), cs ! i)"
proof -
  have u: "unat (of_nat i :: u8) = i" "unat (of_nat (length cs) :: u8) = length cs"
    using assms by (simp_all add: unat_of_nat)
  show ?thesis
    unfolding frag_body_def using assms u
    by (intro decode_encode_fragment)
      (auto simp: MAX_FRAGMENTS_def word_le_nat_alt word_less_nat_alt simp flip: unat_eq_zero)
qed

lemma fa_feed_completed:
  assumes "g \<in> set (fa_completed a)" "\<forall>i \<in> set js. i < length cs" "length cs \<le> 64"
  shows "fa_feed a now (map (frag_body g f cs) js) = Some (a, [])"
  using assms(2) by (induction js) (simp_all add: decode_frag_body assms fa_push_def)

lemma fa_feed_collecting:
  assumes "collecting a g f cs S" "\<not> {..<length cs} \<subseteq> S" "\<forall>i \<in> set js. i < length cs" "length cs \<le> 64"
  shows "\<exists>a'. fa_feed a now (map (frag_body g f cs) js) =
    Some (a', if {..<length cs} \<subseteq> S \<union> set js then [(f, concat cs)] else [])"
  using assms(1-3)
proof (induction js arbitrary: a S)
  case Nil
  then show ?case by simp
next
  case (Cons i js)
  have i: "i < length cs" using Cons.prems by simp
  obtain a' where a': "if {..<length cs} \<subseteq> insert i S
     then fa_push a g f (of_nat i) (of_nat (length cs)) (cs ! i) now = Some (a', Some (f, concat cs))
       \<and> g \<in> set (fa_completed a')
     else fa_push a g f (of_nat i) (of_nat (length cs)) (cs ! i) now = Some (a', None)
       \<and> collecting a' g f cs (insert i S)"
    using fa_push_collecting [OF Cons.prems(1) i, of now] assms(4) by auto
  show ?case
  proof (cases "{..<length cs} \<subseteq> insert i S")
    case True
    then have "{..<length cs} \<subseteq> S \<union> set (i # js)" by auto
    then show ?thesis
      using a' True Cons.prems(3) assms(4) i by (simp add: decode_frag_body fa_feed_completed)
  next
    case False
    have u: "S \<union> set (i # js) = insert i S \<union> set js" by auto
    obtain a'' where "fa_feed a' now (map (frag_body g f cs) js) =
        Some (a'', if {..<length cs} \<subseteq> insert i S \<union> set js then [(f, concat cs)] else [])"
      using Cons.IH [of a' "insert i S"] a' False Cons.prems(3) by auto
    then show ?thesis
      unfolding u using a' False assms(4) i by (intro exI [of _ a'']) (simp add: decode_frag_body)
  qed
qed

lemma split_payload_eq:
  assumes "0 < max_chunk" "payload \<noteq> []"
  shows "split_payload payload g f max_chunk =
    Some (map (frag_body g f (chunks max_chunk payload)) [0..<length (chunks max_chunk payload)])"
proof -
  have "0 < div_ceil (length payload) max_chunk" using div_ceil_pos [OF assms(2,1)] .
  then have m: "max (div_ceil (length payload) max_chunk) 1 = length (chunks max_chunk payload)"
    by (simp add: length_chunks assms)
  have "map (\<lambda>(i, c). encode_fragment g f (of_nat i) (of_nat (length cs)) c) (List.enumerate 0 cs) =
      map (frag_body g f cs) [0..<length cs]" for cs
    by (rule nth_equalityI) (simp_all add: nth_enumerate_eq frag_body_def)
  then show ?thesis using assms(1) unfolding split_payload_def Let_def m by simp
qed

lemma length_split_payload:
  "split_payload payload g f max_chunk = Some parts \<Longrightarrow> length parts = div_ceil (length payload) max_chunk"
  by (auto simp: split_payload_def Let_def length_chunks split: if_splits)

lemma reassemble_split:
  assumes "split_payload payload g f max_chunk = Some parts"
    and "payload \<noteq> []" "div_ceil (length payload) max_chunk \<le> 64"
    and "fa_pending a g = None" "g \<notin> set (fa_completed a)"
    and "\<forall>i \<in> set js. i < length parts"
  shows "\<exists>a'. fa_feed a now (map (nth parts) js) =
    Some (a', if {..<length parts} \<subseteq> set js then [(f, payload)] else [])"
proof -
  have n: "0 < max_chunk" using assms(1) by (simp add: split_payload_def split: if_splits)
  let ?cs = "chunks max_chunk payload"
  have len: "length parts = length ?cs" "length ?cs \<le> 64"
    using length_split_payload [OF assms(1)] assms(3) n by (simp_all add: length_chunks)
  have "parts = map (frag_body g f ?cs) [0..<length ?cs]"
    using split_payload_eq [OF n assms(2), of g f] assms(1) by simp
  then have eq: "map (nth parts) js = map (frag_body g f ?cs) js"
    using assms(6) len(1) by simp
  have "collecting a g f ?cs {}" using assms(4,5) by (simp add: collecting_def)
  moreover have "\<not> {..<length ?cs} \<subseteq> {}"
    using div_ceil_pos [OF assms(2) n] n by (auto simp: length_chunks lessThan_empty_iff)
  ultimately show ?thesis
    using fa_feed_collecting [of a g f ?cs "{}" js now] assms(6) len(2)
    unfolding eq len(1) concat_chunks [OF n] by simp
qed

text \<open>
  C24. A payload of at most 64 chunks, cut by the sender and received in any order, with any losses
  and any duplicates, by an assembler that does not know its group, is delivered exactly once with
  the sequence number of its first fragment when every fragment has arrived, and not at all before.
\<close>

theorem reassembly_any_order:
  assumes "split_payload payload g f max_chunk = Some parts"
    and "payload \<noteq> []" "div_ceil (length payload) max_chunk \<le> 64"
    and "fa_pending a g = None" "g \<notin> set (fa_completed a)"
    and "\<forall>i \<in> set js. i < length parts"
  shows "\<exists>a'. fa_feed a now (map (nth parts) js) =
    Some (a', if {..<length parts} \<subseteq> set js then [(f, payload)] else [])"
  using assms by (rule reassemble_split)

theorem reassembly_any_order_witness:
  "\<exists>a'. fa_feed fa_new 9 (map (nth [encode_fragment 7 100 0 3 [1, 2], encode_fragment 7 100 1 3 [3, 4],
      encode_fragment 7 100 2 3 [5]]) [1, 2, 1, 0, 2]) = Some (a', [(100, [1, 2, 3, 4, 5])])"
proof -
  have s: "split_payload [1, 2, 3, 4, 5] 7 100 2 =
      Some [encode_fragment 7 100 0 3 [1, 2], encode_fragment 7 100 1 3 [3, 4], encode_fragment 7 100 2 3 [5]]"
    by (simp add: split_payload_def div_ceil_def chunks.simps)
  have l: "{..<Suc (Suc (Suc 0))} = {0, 1, 2}" by auto
  show ?thesis
    using reassembly_any_order [OF s, of fa_new "[1, 2, 1, 0, 2]" 9]
    by (simp del: fa_feed.simps add: fa_new_def div_ceil_def l)
qed

text \<open>
  The count of fragments is written in one byte. A payload of 65 to 255 chunks is cut into
  fragments every one of which the receiver refuses; when the count is 1 modulo 256, the first
  fragment claims to be the whole message and is delivered as such, cut to one chunk.
\<close>

theorem oversize_payload_split:
  assumes "split_payload payload g f max_chunk = Some parts" and "payload \<noteq> []"
    and "n = div_ceil (length payload) max_chunk"
  shows "(64 < n \<and> n < 256 \<longrightarrow> (\<forall>body \<in> set parts. \<exists>e. decode_fragment body = Inl e))
     \<and> (n mod 256 = 1 \<longrightarrow> decode_fragment (parts ! 0) = Inr (g, f, 0, 1, take max_chunk payload))"
proof -
  have mc: "0 < max_chunk" using assms(1) by (simp add: split_payload_def split: if_splits)
  let ?cs = "chunks max_chunk payload"
  have len: "length ?cs = n" by (simp add: length_chunks mc assms(3))
  have parts: "parts = map (frag_body g f ?cs) [0..<n]"
    using split_payload_eq [OF mc assms(2), of g f] assms(1) len by simp
  have "\<exists>e. decode_fragment (frag_body g f ?cs i) = Inl e" if "64 < n" "n < 256" for i
    unfolding frag_body_def len
    using decode_fragment_reject [of "of_nat n"] that
    by (auto simp: MAX_FRAGMENTS_def word_less_nat_alt unat_of_nat)
  moreover have "decode_fragment (parts ! 0) = Inr (g, f, 0, 1, take max_chunk payload)" if "n mod 256 = 1"
  proof -
    have "0 < n" using that by (cases n) auto
    have "unat (of_nat n :: u8) = 1" using that by (simp add: unat_of_nat)
    then have "(of_nat n :: u8) = 1" by (metis word_unat_eq_iff unat_1)
    moreover have "?cs ! 0 = take max_chunk payload" using mc assms(2) by (subst chunks.simps) simp
    ultimately show ?thesis
      using \<open>0 < n\<close> decode_encode_fragment [of 1 0 g f "take max_chunk payload"]
      by (simp add: parts frag_body_def len MAX_FRAGMENTS_def)
  qed
  ultimately show ?thesis by (auto simp: parts)
qed

theorem oversize_payload_split_witness:
  "decode_fragment (the (split_payload (replicate 257 0) 1 2 1) ! 0) = Inr (1, 2, 0, 1, [0])"
proof -
  let ?p = "replicate 257 0 :: bytes"
  have p: "split_payload ?p 1 2 1 = Some (the (split_payload ?p 1 2 1))"
    by (simp add: split_payload_def Let_def)
  have ne: "?p \<noteq> []" by simp
  have t: "take 1 ?p = [0]" by simp
  have n: "257 = div_ceil (length ?p) 1" by (simp add: div_ceil_def)
  have m: "(257 :: nat) mod 256 = 1" by simp
  from oversize_payload_split [OF p ne n, THEN conjunct2, THEN mp, OF m] show ?thesis by (simp only: t)
qed

end
