(* ===== verification/Session.thy ===== *)
theory Session
  imports Retransmit Fragment Datagram Uds_Body
begin

text \<open>
  One session of \<open>src/session/table.rs\<close> and the operations that touch only it: the acknowledgement
  value \<open>compute_ack\<close>, the receive window \<open>record_seq\<close>, and the reliable ordered channel (duplicate
  filter, reassembly, reorder buffer, in-order delivery). The \<open>BTreeMap\<close> of out-of-order frames is a
  partial map (only looked up by key); the two retransmission queues of the array are two fields.
  \<open>None\<close> is a panic.
\<close>

section \<open>State\<close>

datatype session_state = Active | Grace instant

record session =
  se_conn_id :: u32
  se_sess_id :: u64
  se_peer :: socket_addr
  se_secret :: u64
  se_token :: bytes
  se_send_seq :: u16
  se_last_rx :: instant
  se_state :: session_state
  se_budget_kbps :: "u16 option"
  se_established :: instant
  se_recv_seq :: u16
  se_recv_bits :: u32
  se_ch1_last :: "u16 option"
  se_ch3_seen :: "u16 list"
  se_retrans_ch2 :: retransmit_queue
  se_retrans_ch3 :: retransmit_queue
  se_rtt :: rtt_estimator
  se_assembler :: fragment_assembler
  se_reorder :: "u16 \<rightharpoonup> (u16 \<times> bytes)"
  se_ch2_next :: "u16 option"
  se_delivered_max :: u16
  se_delivered_seqs :: "u16 list"
  se_frag_group_id :: u16
  se_bytes_window :: "(instant \<times> u64) list"

datatype session_event =
    EvOpen u64 socket_addr bytes
  | EvClose u64 u8
  | EvResume u64 u32
  | EvData u64 u8 u16 bytes

text \<open>The session a completed handshake creates.\<close>

definition new_session :: "u32 \<Rightarrow> u64 \<Rightarrow> socket_addr \<Rightarrow> u64 \<Rightarrow> bytes \<Rightarrow> instant \<Rightarrow> session" where
  "new_session conn_id sess_id peer secret token now =
     \<lparr>se_conn_id = conn_id, se_sess_id = sess_id, se_peer = peer, se_secret = secret,
      se_token = token, se_send_seq = 0, se_last_rx = now, se_state = Active,
      se_budget_kbps = None, se_established = now, se_recv_seq = 0, se_recv_bits = 0,
      se_ch1_last = None, se_ch3_seen = [], se_retrans_ch2 = rq_new, se_retrans_ch3 = rq_new,
      se_rtt = rtt_new, se_assembler = fa_new, se_reorder = Map.empty, se_ch2_next = Some 0,
      se_delivered_max = 0, se_delivered_seqs = [], se_frag_group_id = 0, se_bytes_window = []\<rparr>"

definition is_active :: "session \<Rightarrow> bool" where
  "is_active s = (se_state s = Active)"

section \<open>Acknowledgements\<close>

definition seq_known :: "session \<Rightarrow> u16 \<Rightarrow> bool" where
  "seq_known s seq \<longleftrightarrow>
     se_reorder s seq \<noteq> None \<or> seq \<in> set (se_delivered_seqs s) \<or> seq \<in> set (se_ch3_seen s)"

definition compute_ack :: "session \<Rightarrow> u16 \<times> u32" where
  "compute_ack s =
     (let ack = (case se_ch2_next s of None \<Rightarrow> 0 | Some n \<Rightarrow> n) - 1 in
      (ack, foldl (\<lambda>bits i. if seq_known s (ack + of_nat i) then bits OR push_bit (i - 1) 1 else bits)
              0 [1..<33]))"

text \<open>The negation of a 16-bit \<open>-32768\<close> panics under overflow checks and otherwise stays \<open>-32768\<close>.\<close>

definition record_seq :: "bool \<Rightarrow> u16 \<Rightarrow> u32 \<Rightarrow> u16 \<Rightarrow> (u16 \<times> u32) option" where
  "record_seq chk recv_seq recv_bits seq =
     (let diff = sint (seq - recv_seq) in
      if diff \<le> 0 then
        if diff = - 32768 then (if chk then None else Some (recv_seq, recv_bits))
        else
          let back = nat (- diff) in
          Some (recv_seq, if 1 \<le> back \<and> back \<le> 32 then recv_bits OR push_bit (back - 1) 1 else recv_bits)
      else
        let shift = min (nat diff) 32 in
        Some (seq, if shift = 32 then 1 else push_bit shift recv_bits OR 1))"

section \<open>Reliable ordered channel\<close>

text \<open>The loop of \<open>deliver_ch2_in_order\<close>; it ends because each turn removes an entry of the buffer.\<close>

function deliver_loop :: "u16 \<Rightarrow> session \<Rightarrow> session \<times> session_event list" where
  "deliver_loop seq s =
     (case se_reorder s seq of
        None \<Rightarrow> (s, [])
      | Some (msg_id, payload) \<Rightarrow>
          let s' = s\<lparr>se_reorder := (se_reorder s)(seq := None),
                     se_ch2_next := Some (seq + 1),
                     se_delivered_max := seq,
                     se_delivered_seqs := push_capped 512 (se_delivered_seqs s) seq\<rparr>;
              evs = (if msg_id \<noteq> 0xFFFF \<or> payload \<noteq> []
                     then [EvData (se_sess_id s) CH_RELIABLE_ORDERED msg_id payload] else []);
              (s'', evs') = deliver_loop (seq + 1) s'
          in (s'', evs @ evs'))"
  by auto
termination
proof (relation "measure (\<lambda>(_, s). card (dom (se_reorder s)))", simp)
  fix seq :: u16 and s :: session and x msg_id payload s'
  assume "se_reorder s seq = Some x"
    and s': "s' = s\<lparr>se_reorder := (se_reorder s)(seq := None), se_ch2_next := Some (seq + 1),
      se_delivered_max := seq, se_delivered_seqs := push_capped 512 (se_delivered_seqs s) seq\<rparr>"
  then have "dom (se_reorder s') \<subset> dom (se_reorder s)" by auto
  then have "card (dom (se_reorder s')) < card (dom (se_reorder s))"
    by (rule psubset_card_mono [rotated]) simp
  then show "((seq + 1, s'), seq, s) \<in> measure (\<lambda>(_, s). card (dom (se_reorder s)))" by simp
qed

declare deliver_loop.simps [simp del]

definition deliver_ch2_in_order :: "session \<Rightarrow> session \<times> session_event list" where
  "deliver_ch2_in_order s = (case se_ch2_next s of None \<Rightarrow> (s, []) | Some n \<Rightarrow> deliver_loop n s)"

definition reorder_insert :: "session \<Rightarrow> u16 \<Rightarrow> u16 \<times> bytes \<Rightarrow> session" where
  "reorder_insert s seq v = s\<lparr>se_reorder := (se_reorder s)(seq \<mapsto> v)\<rparr>"

text \<open>A completed group: placeholders for the sequence numbers its fragments used, then the message.\<close>

definition insert_group :: "session \<Rightarrow> u16 \<Rightarrow> nat \<Rightarrow> u16 \<Rightarrow> bytes \<Rightarrow> session" where
  "insert_group s gseq n msg_id full =
     reorder_insert
       (foldl (\<lambda>s i. if gseq + of_nat i \<noteq> gseq then reorder_insert s (gseq + of_nat i) (0xFFFF, []) else s)
          s [0..<n])
       gseq (msg_id, full)"

definition handle_ch2 :: "session \<Rightarrow> datagram_header \<Rightarrow> frame_ref \<Rightarrow> instant
    \<Rightarrow> (session \<times> session_event list) option" where
  "handle_ch2 s header f now =
     (let seq = dh_seq header in
      if seq \<in> set (se_delivered_seqs s) then Some (s, [])
      else if dh_flags header AND FLAG_FRAGMENT = 0
        \<and> seq_lt seq (se_delivered_max s) \<and> se_reorder s seq = None then Some (s, [])
      else if dh_flags header AND FLAG_FRAGMENT \<noteq> 0 then
        (case decode_fragment (fr_body f) of
           Inl _ \<Rightarrow> Some (s, [])
         | Inr (gid, first_seq, frag_no, total_no, chunk) \<Rightarrow>
             (case fa_push (se_assembler s) gid first_seq frag_no total_no chunk now of
                None \<Rightarrow> None
              | Some (a, None) \<Rightarrow> Some (s\<lparr>se_assembler := a\<rparr>, [])
              | Some (a, Some (gseq, full)) \<Rightarrow>
                  Some (deliver_ch2_in_order
                    (insert_group (s\<lparr>se_assembler := a\<rparr>) gseq (unat total_no) (fr_msg_id f) full))))
      else Some (deliver_ch2_in_order (reorder_insert s seq (fr_msg_id f, fr_body f))))"

section \<open>The acknowledgement value\<close>

lemma bit_fold_set_bits:
  "\<forall>i \<in> set xs. 1 \<le> i \<and> i \<le> 32 \<Longrightarrow>
     bit (foldl (\<lambda>bits i. if P i then bits OR push_bit (i - 1) 1 else bits) (b :: u32) xs) n
       \<longleftrightarrow> bit b n \<or> (\<exists>i \<in> set xs. P i \<and> n = i - 1)"
proof (induction xs arbitrary: b)
  case Nil
  then show ?case by simp
next
  case (Cons x xs)
  have "bit (push_bit (x - 1) 1 :: u32) n \<longleftrightarrow> n = x - 1"
    using Cons.prems by (auto simp: bit_simps)
  then show ?case using Cons by (auto simp: bit_or_iff)
qed

lemma fst_compute_ack: "fst (compute_ack s) = (case se_ch2_next s of None \<Rightarrow> 0 | Some n \<Rightarrow> n) - 1"
  by (simp add: compute_ack_def Let_def)

lemma bit_compute_ack:
  "bit (snd (compute_ack s)) n \<longleftrightarrow> n < 32 \<and> seq_known s (fst (compute_ack s) + of_nat (Suc n))"
proof -
  let ?P = "\<lambda>i. seq_known s (fst (compute_ack s) + of_nat i)"
  have "bit (snd (compute_ack s)) n \<longleftrightarrow> (\<exists>i \<in> set [1..<33]. ?P i \<and> n = i - 1)"
    unfolding fst_compute_ack
    by (simp only: compute_ack_def Let_def snd_conv, subst bit_fold_set_bits) auto
  also have "\<dots> \<longleftrightarrow> n < 32 \<and> ?P (Suc n)"
    by (auto intro!: bexI [of _ "Suc n"])
  finally show ?thesis .
qed

section \<open>In-order delivery\<close>

definition data_event :: "session \<Rightarrow> u16 \<times> bytes \<Rightarrow> session_event list" where
  "data_event s v = (if fst v \<noteq> 0xFFFF \<or> snd v \<noteq> []
     then [EvData (se_sess_id s) CH_RELIABLE_ORDERED (fst v) (snd v)] else [])"

definition delivered :: "session \<Rightarrow> u16 \<Rightarrow> session" where
  "delivered s seq = s\<lparr>se_reorder := (se_reorder s)(seq := None), se_ch2_next := Some (seq + 1),
     se_delivered_max := seq, se_delivered_seqs := push_capped 512 (se_delivered_seqs s) seq\<rparr>"

lemma data_event_delivered [simp]: "data_event (delivered s seq) v = data_event s v"
  by (simp add: data_event_def delivered_def)

lemma deliver_loop_None: "se_reorder s seq = None \<Longrightarrow> deliver_loop seq s = (s, [])"
  by (subst deliver_loop.simps) simp

lemma deliver_loop_Some:
  "se_reorder s seq = Some v \<Longrightarrow> deliver_loop seq s =
     (case deliver_loop (seq + 1) (delivered s seq) of (s', evs) \<Rightarrow> (s', data_event s v @ evs))"
  by (subst deliver_loop.simps) (auto simp: Let_def data_event_def delivered_def split: prod.splits)

text \<open>What the ordered channel leaves alone: the session without its five fields.\<close>

definition ch2_core :: "session \<Rightarrow> session" where
  "ch2_core s = s\<lparr>se_assembler := fa_new, se_reorder := Map.empty, se_ch2_next := None,
     se_delivered_max := 0, se_delivered_seqs := []\<rparr>"

lemma ch2_core_upd [frame_simps]:
  "ch2_core (s\<lparr>se_assembler := a\<rparr>) = ch2_core s"
  "ch2_core (reorder_insert s seq v) = ch2_core s"
  "ch2_core (delivered s seq) = ch2_core s"
  by (simp_all add: ch2_core_def reorder_insert_def delivered_def)

lemma ch2_core_deliver_loop [frame_simps]: "ch2_core (fst (deliver_loop seq s)) = ch2_core s"
proof (induction seq s rule: deliver_loop.induct)
  case (1 seq s)
  show ?case
  proof (cases "se_reorder s seq")
    case None
    then show ?thesis by (simp add: deliver_loop_None)
  next
    case (Some v)
    obtain msg_id payload where v: "v = (msg_id, payload)" by force
    from 1 [OF Some v [symmetric] refl refl] show ?thesis
      by (simp add: deliver_loop_Some [OF Some] case_prod_beta frame_simps flip: delivered_def)
  qed
qed

lemma ch2_core_deliver [frame_simps]: "ch2_core (fst (deliver_ch2_in_order s)) = ch2_core s"
  by (simp add: deliver_ch2_in_order_def frame_simps split: option.split)

lemma ch2_core_group [frame_simps]: "ch2_core (insert_group s gseq n msg_id full) = ch2_core s"
proof -
  have "ch2_core (foldl (\<lambda>s i. if gseq + of_nat i \<noteq> gseq then reorder_insert s (gseq + of_nat i) (0xFFFF, []) else s)
          s xs) = ch2_core s" for xs
    by (induction xs rule: rev_induct) (simp_all add: frame_simps)
  then show ?thesis by (simp add: insert_group_def frame_simps)
qed

lemma handle_ch2_core:
  assumes "handle_ch2 s header f now = Some (s', evs)"
  shows "ch2_core s' = ch2_core s"
proof -
  have "ch2_core t' = ch2_core s" if "deliver_ch2_in_order t = (t', evs)" "ch2_core t = ch2_core s" for t t' evs
    using ch2_core_deliver [of t] that by simp
  then show ?thesis
    using assms
    by (auto simp: handle_ch2_def Let_def frame_simps split: if_splits sum.splits option.splits prod.splits)
qed

lemma ch2_core_sel:
  "se_sess_id (ch2_core s) = se_sess_id s" "se_conn_id (ch2_core s) = se_conn_id s"
  "se_state (ch2_core s) = se_state s" "se_send_seq (ch2_core s) = se_send_seq s"
  "se_ch3_seen (ch2_core s) = se_ch3_seen s" "se_peer (ch2_core s) = se_peer s"
  "se_secret (ch2_core s) = se_secret s" "se_retrans_ch2 (ch2_core s) = se_retrans_ch2 s"
  "se_retrans_ch3 (ch2_core s) = se_retrans_ch3 s" "se_ch1_last (ch2_core s) = se_ch1_last s"
  by (simp_all add: ch2_core_def)

lemma ch2_core_fields:
  assumes "ch2_core s' = ch2_core s"
  shows "se_sess_id s' = se_sess_id s" "se_conn_id s' = se_conn_id s" "se_state s' = se_state s"
    "se_send_seq s' = se_send_seq s" "se_ch3_seen s' = se_ch3_seen s" "se_peer s' = se_peer s"
    "se_secret s' = se_secret s" "se_retrans_ch2 s' = se_retrans_ch2 s"
    "se_retrans_ch3 s' = se_retrans_ch3 s" "se_ch1_last s' = se_ch1_last s"
  by (metis assms ch2_core_sel)+

text \<open>
  How a session stands against an unbounded stream \<open>M\<close> of messages whose sequence numbers are their
  index modulo \<open>2^16\<close>: everything below \<open>k\<close> has been delivered, and \<open>H\<close> holds the indices of the
  messages received ahead of it.
\<close>

definition WINDOW :: nat where "WINDOW = 32767"

definition rx_at :: "(nat \<Rightarrow> u16 \<times> bytes) \<Rightarrow> nat \<Rightarrow> nat set \<Rightarrow> session \<Rightarrow> bool" where
  "rx_at M k H s \<longleftrightarrow>
     se_ch2_next s = Some (of_nat k)
     \<and> se_delivered_max s = of_nat (k - 1)
     \<and> se_delivered_seqs s = map of_nat [k - 512..<k]
     \<and> H \<subseteq> {k..<k + WINDOW}
     \<and> (\<forall>j \<in> H. se_reorder s (of_nat j) = Some (M j))
     \<and> dom (se_reorder s) = of_nat ` H"

lemma of_nat_u16_less: "a \<le> b \<Longrightarrow> b < a + 65536 \<Longrightarrow> (of_nat b :: u16) = of_nat a \<Longrightarrow> b = a"
proof -
  assume le: "a \<le> b" "b < a + 65536" and eq: "(of_nat b :: u16) = of_nat a"
  have "(of_nat (b - a) :: u16) = 0" using le eq by (simp add: of_nat_diff)
  moreover have "unat (of_nat (b - a) :: u16) = (b - a) mod 65536" by (simp only: unat_of_nat) simp
  ultimately have "(b - a) mod 65536 = 0" by (metis unat_0)
  then show ?thesis using le by simp
qed

lemma of_nat_u16_inj: "a < b + 65536 \<Longrightarrow> b < a + 65536 \<Longrightarrow> (of_nat a :: u16) = of_nat b \<longleftrightarrow> a = b"
  using of_nat_u16_less [of a b] of_nat_u16_less [of b a] by (cases "a \<le> b") auto

lemma rx_at_reorder:
  assumes "rx_at M k H s" "k \<le> j + 32769" "j < k + 32768"
  shows "se_reorder s (of_nat j) = (if j \<in> H then Some (M j) else None)"
proof (cases "j \<in> H")
  case True
  then show ?thesis using assms(1) by (simp add: rx_at_def)
next
  case False
  have "(of_nat j :: u16) \<noteq> of_nat i" if "i \<in> H" for i
    using that False assms of_nat_u16_inj [of j i] by (auto simp: rx_at_def WINDOW_def)
  then have "of_nat j \<notin> dom (se_reorder s)" using assms(1) by (auto simp: rx_at_def)
  then have "se_reorder s (of_nat j) = None" by (simp only: domIff not_not)
  then show ?thesis using False by simp
qed

lemma rx_at_delivered:
  assumes "rx_at M k H s" "k \<le> j + 32769" "j < k + 32768"
  shows "of_nat j \<in> set (se_delivered_seqs s) \<longleftrightarrow> k - 512 \<le> j \<and> j < k"
proof
  assume "of_nat j \<in> set (se_delivered_seqs s)"
  then obtain i where i: "k - 512 \<le> i" "i < k" "(of_nat j :: u16) = of_nat i"
    using assms(1) by (auto simp: rx_at_def)
  then have "j = i" using assms(2,3) of_nat_u16_inj [of j i] by simp
  then show "k - 512 \<le> j \<and> j < k" using i by simp
next
  assume "k - 512 \<le> j \<and> j < k"
  then show "of_nat j \<in> set (se_delivered_seqs s)" using assms(1) by (auto simp: rx_at_def)
qed

lemma push_capped_upt:
  assumes "0 < cap"
  shows "push_capped cap (map f [k - cap..<k]) (f k) = map f [Suc k - cap..<Suc k]"
proof -
  have "map f [k - cap..<k] @ [f k] = map f [k - cap..<Suc k]" by simp
  then have "push_capped cap (map f [k - cap..<k]) (f k) =
      map f (drop (Suc k - (k - cap) - cap) [k - cap..<Suc k])"
    by (simp only: push_capped_def Let_def drop_map) simp
  also have "\<dots> = map f [Suc k - cap..<Suc k]"
  proof (cases "k < cap")
    case True
    then show ?thesis by (simp del: upt_Suc)
  next
    case False
    then have "k - cap + (Suc k - (k - cap) - cap) = Suc k - cap" using assms by simp
    then show ?thesis by (simp only: drop_upt)
  qed
  finally show ?thesis .
qed

text \<open>Delivery runs to the first index that is not held, whatever was there when it started.\<close>

lemma deliver_loop_rx:
  assumes "rx_at M k H s"
  shows "\<exists>k' s'. deliver_loop (of_nat k) s = (s', concat (map (\<lambda>i. data_event s (M i)) [k..<k']))
     \<and> k \<le> k' \<and> {k..<k'} \<subseteq> H \<and> k' \<notin> H \<and> rx_at M k' (H - {k..<k'}) s'"
  using assms
proof (induction "card H" arbitrary: k H s)
  case 0
  have "finite H" using 0(2) by (auto simp: rx_at_def intro: finite_subset)
  then have "H = {}" using 0(1) by simp
  then have "se_reorder s (of_nat k) = None"
    using rx_at_reorder [OF 0(2), of k] by simp
  then show ?case
    using 0(2) \<open>H = {}\<close> by (auto simp: deliver_loop_None intro!: exI [of _ k])
next
  case (Suc n)
  have fin: "finite H" using Suc(3) by (auto simp: rx_at_def intro: finite_subset)
  note r = rx_at_reorder [OF Suc(3), of k]
  show ?case
  proof (cases "k \<in> H")
    case False
    then show ?thesis
      using Suc(3) r by (auto simp: deliver_loop_None intro!: exI [of _ k])
  next
    case True
    let ?s = "delivered s (of_nat k)"
    have inv: "rx_at M (Suc k) (H - {k}) ?s"
    proof -
      have "H - {k} \<subseteq> {Suc k..<Suc k + WINDOW}" using Suc(3) by (auto simp: rx_at_def)
      moreover have "(of_nat j :: u16) \<noteq> of_nat k" if "j \<in> H - {k}" for j
        using that of_nat_u16_inj [of j k] Suc(3) by (auto simp: rx_at_def WINDOW_def)
      then have "\<forall>j \<in> H - {k}. se_reorder ?s (of_nat j) = Some (M j)"
        and "dom (se_reorder ?s) = of_nat ` (H - {k})"
        using Suc(3) by (auto simp: rx_at_def delivered_def)
      ultimately show ?thesis
        using Suc(3) push_capped_upt [of 512 of_nat k] by (simp add: rx_at_def delivered_def add.commute)
    qed
    have "n = card (H - {k})" using Suc(2) fin True by simp
    from Suc(1) [OF this inv] obtain k' s' where d:
      "deliver_loop (of_nat (Suc k)) ?s = (s', concat (map (\<lambda>i. data_event ?s (M i)) [Suc k..<k']))"
      "Suc k \<le> k'" "{Suc k..<k'} \<subseteq> H - {k}" "k' \<notin> H - {k}" "rx_at M k' (H - {k} - {Suc k..<k'}) s'"
      by blast
    have "deliver_loop (of_nat k) s = (s', concat (map (\<lambda>i. data_event s (M i)) [k..<k']))"
      using r True d(1,2) by (simp add: deliver_loop_Some upt_conv_Cons add.commute)
    moreover have "{k..<k'} = insert k {Suc k..<k'}" using d(2) by auto
    then have "H - {k} - {Suc k..<k'} = H - {k..<k'}" "{k..<k'} \<subseteq> H" "k' \<notin> H"
      using d True by auto
    ultimately show ?thesis using d(2,5) by (intro exI [of _ k'] exI [of _ s']) simp
  qed
qed

section \<open>One arrival on the ordered channel\<close>

lemma seq_dist_of_nat: "a \<le> b \<Longrightarrow> b < a + 65536 \<Longrightarrow> seq_dist (of_nat a) (of_nat b) = b - a"
proof -
  assume le: "a \<le> b" "b < a + 65536"
  have "(of_nat b :: u16) = of_nat a + of_nat (b - a)" using le(1) by (simp add: of_nat_diff)
  then have "seq_dist (of_nat a) (of_nat b) = (b - a) mod 65536" by (simp only: seq_dist_add)
  then show ?thesis using le by simp
qed

lemma seq_lt_of_nat: "a < b \<Longrightarrow> b \<le> a + 32768 \<Longrightarrow> seq_lt (of_nat a) (of_nat b)"
  using seq_dist_of_nat [of a b] seq_dist_sym [of "of_nat a" "of_nat b"] of_nat_u16_less [of a b]
  by (cases "(of_nat a :: u16) = of_nat b") (simp_all add: seq_lt_dist)

lemma not_seq_lt_of_nat: "b \<le> a \<Longrightarrow> a < b + 32768 \<Longrightarrow> \<not> seq_lt (of_nat a) (of_nat b)"
  by (simp add: seq_lt_dist seq_dist_of_nat)

lemma rx_at_insert:
  assumes "rx_at M k H s" "k \<le> j" "j < k + WINDOW"
  shows "rx_at M k (insert j H) (reorder_insert s (of_nat j) (M j))"
proof -
  have "(of_nat i :: u16) = of_nat j \<longleftrightarrow> i = j" if "i \<in> H" for i
    using that assms of_nat_u16_inj [of i j] by (auto simp: rx_at_def WINDOW_def)
  then show ?thesis using assms by (auto simp: rx_at_def reorder_insert_def)
qed

lemma deliver_rx:
  assumes "rx_at M k H s"
  shows "\<exists>k' H' s'. deliver_ch2_in_order s = (s', concat (map (\<lambda>i. data_event s (M i)) [k..<k']))
     \<and> k \<le> k' \<and> rx_at M k' H' s' \<and> k' \<notin> H' \<and> {..<k'} \<union> H' = {..<k} \<union> H"
proof -
  obtain k' s' where d: "deliver_loop (of_nat k) s = (s', concat (map (\<lambda>i. data_event s (M i)) [k..<k']))"
      "k \<le> k'" "{k..<k'} \<subseteq> H" "k' \<notin> H" "rx_at M k' (H - {k..<k'}) s'"
    using deliver_loop_rx [OF assms] by blast
  moreover have "{..<k'} = {..<k} \<union> {k..<k'}" using d(2) by auto
  then have "{..<k'} \<union> (H - {k..<k'}) = {..<k} \<union> H" using d(3) by blast
  moreover have "se_ch2_next s = Some (of_nat k)" using assms by (simp add: rx_at_def)
  ultimately show ?thesis
    by (intro exI [of _ k'] exI [of _ "H - {k..<k'}"] exI [of _ s']) (simp add: deliver_ch2_in_order_def)
qed

lemma data_event_reorder_insert [simp]: "data_event (reorder_insert s seq v) = data_event s"
  by (simp add: data_event_def reorder_insert_def fun_eq_iff)

lemma handle_ch2_rx:
  assumes rx: "rx_at M k H s" "k \<notin> H" and win: "k \<le> j + 32768" "j < k + WINDOW"
    and h: "dh_flags header AND FLAG_FRAGMENT = 0" "dh_seq header = of_nat j"
    and f: "(fr_msg_id f, fr_body f) = M j"
  shows "\<exists>k' H' s'. handle_ch2 s header f now = Some (s', concat (map (\<lambda>i. data_event s (M i)) [k..<k']))
     \<and> k \<le> k' \<and> rx_at M k' H' s' \<and> k' \<notin> H' \<and> {..<k'} \<union> H' = insert j ({..<k} \<union> H)"
proof (cases "j < k")
  case True
  have "of_nat j \<in> set (se_delivered_seqs s) \<or> seq_lt (of_nat j) (se_delivered_max s) \<and> se_reorder s (of_nat j) = None"
  proof (cases "k - 512 \<le> j")
    case True
    then show ?thesis using rx_at_delivered [OF rx(1), of j] \<open>j < k\<close> win by simp
  next
    case False
    have "j \<notin> H" using rx(1) \<open>j < k\<close> by (auto simp: rx_at_def)
    then have "se_reorder s (of_nat j) = None" using rx_at_reorder [OF rx(1), of j] win \<open>j < k\<close> by simp
    moreover have "se_delivered_max s = of_nat (k - 1)" using rx(1) by (simp add: rx_at_def)
    ultimately show ?thesis using seq_lt_of_nat [of j "k - 1"] False win by simp
  qed
  then have "handle_ch2 s header f now = Some (s, [])" using h by (auto simp: handle_ch2_def Let_def)
  moreover have "{..<k} \<union> H = insert j ({..<k} \<union> H)" using True by auto
  ultimately show ?thesis using rx by (intro exI [of _ k] exI [of _ H] exI [of _ s]) simp
next
  case False
  then have "of_nat j \<notin> set (se_delivered_seqs s)"
    using rx_at_delivered [OF rx(1), of j] win by (simp add: WINDOW_def)
  moreover have "\<not> seq_lt (of_nat j) (se_delivered_max s)"
    using rx(1) not_seq_lt_of_nat [of "k - 1" j] False win by (simp add: rx_at_def WINDOW_def)
  ultimately have e: "handle_ch2 s header f now = Some (deliver_ch2_in_order (reorder_insert s (of_nat j) (M j)))"
    using h f by (auto simp: handle_ch2_def Let_def)
  have "{..<k} \<union> insert j H = insert j ({..<k} \<union> H)" by auto
  with deliver_rx [OF rx_at_insert [OF rx(1), of j]] False win(2) show ?thesis unfolding e by auto
qed

text \<open>A sequence of arrivals.\<close>

fun ch2_feed :: "session \<Rightarrow> instant \<Rightarrow> (datagram_header \<times> frame_ref) list
    \<Rightarrow> (session \<times> session_event list) option" where
  "ch2_feed s now [] = Some (s, [])"
| "ch2_feed s now ((header, f) # rest) =
     (case handle_ch2 s header f now of
        None \<Rightarrow> None
      | Some (s', evs) \<Rightarrow>
          (case ch2_feed s' now rest of
             None \<Rightarrow> None
           | Some (s'', evs') \<Rightarrow> Some (s'', evs @ evs')))"

text \<open>The first index that is missing from a list of indices.\<close>

definition frontier :: "nat list \<Rightarrow> nat" where
  "frontier js = length (takeWhile (\<lambda>n. n \<in> set js) [0..<Suc (length js)])"

lemma frontier_eq:
  assumes "{..<k} \<subseteq> set js" "k \<notin> set js"
  shows "frontier js = k"
proof -
  have "card {..<k} \<le> card (set js)" using assms(1) by (intro card_mono) simp_all
  then have "k \<le> length js" using card_length [of js] by simp
  then have "[0..<Suc (length js)] = [0..<k] @ k # [Suc k..<Suc (length js)]"
    using upt_add_eq_append [of 0 k "Suc (length js) - k"] upt_conv_Cons [of k "Suc (length js)"]
    by (simp del: upt_Suc)
  moreover have "takeWhile (\<lambda>n. n \<in> set js) ([0..<k] @ k # rest) = [0..<k]" for rest
    using assms by (subst takeWhile_append2) (auto simp: subset_iff)
  ultimately show ?thesis unfolding frontier_def by simp
qed

text \<open>Every arrival is within half the sequence space of what is expected when it arrives.\<close>

definition in_window :: "nat list \<Rightarrow> bool" where
  "in_window js \<longleftrightarrow> (\<forall>i < length js. frontier (take i js) \<le> js ! i + 32768
     \<and> js ! i < frontier (take i js) + WINDOW)"

lemma ch2_feed_snoc:
  "ch2_feed s now (xs @ [(header, f)]) =
     (case ch2_feed s now xs of
        None \<Rightarrow> None
      | Some (s', evs) \<Rightarrow>
          (case handle_ch2 s' header f now of
             None \<Rightarrow> None
           | Some (s'', evs') \<Rightarrow> Some (s'', evs @ evs')))"
  by (induction s now xs rule: ch2_feed.induct) (auto split: option.splits prod.splits)

lemma in_window_snoc: "in_window (js @ [j]) \<longleftrightarrow> in_window js \<and> frontier js \<le> j + 32768 \<and> j < frontier js + WINDOW"
  by (auto simp: in_window_def less_Suc_eq nth_append)

lemma ch2_feed_rx:
  assumes "in_window js"
    and "\<And>j. j \<in> set js \<Longrightarrow> dh_flags (header j) AND FLAG_FRAGMENT = 0 \<and> dh_seq (header j) = of_nat j
      \<and> (fr_msg_id (f j), fr_body (f j)) = M j"
    and "rx_at M 0 {} s"
  shows "\<exists>s' H. ch2_feed s now (map (\<lambda>j. (header j, f j)) js) =
      Some (s', concat (map (\<lambda>i. data_event s (M i)) [0..<frontier js]))
    \<and> rx_at M (frontier js) H s' \<and> frontier js \<notin> H \<and> {..<frontier js} \<union> H = set js \<and> ch2_core s' = ch2_core s"
  using assms(1,2)
proof (induction js rule: rev_induct)
  case Nil
  then show ?case using assms(3) by (intro exI [of _ s] exI [of _ "{}"]) (simp add: frontier_def)
next
  case (snoc j js)
  let ?k = "frontier js"
  obtain s1 H where ih: "ch2_feed s now (map (\<lambda>j. (header j, f j)) js) =
      Some (s1, concat (map (\<lambda>i. data_event s (M i)) [0..<?k]))"
      "rx_at M ?k H s1" "?k \<notin> H" "{..<?k} \<union> H = set js" "ch2_core s1 = ch2_core s"
    using snoc by (auto simp: in_window_snoc)
  have e: "data_event s1 = data_event s"
    using ch2_core_fields(1) [OF ih(5)] by (simp add: data_event_def fun_eq_iff)
  obtain k' H' s2 where st: "handle_ch2 s1 (header j) (f j) now =
      Some (s2, concat (map (\<lambda>i. data_event s1 (M i)) [?k..<k']))"
      "?k \<le> k'" "rx_at M k' H' s2" "k' \<notin> H'" "{..<k'} \<union> H' = insert j ({..<?k} \<union> H)"
    using handle_ch2_rx [OF ih(2,3), of j "header j" "f j" now] snoc.prems by (auto simp: in_window_snoc)
  have "{..<k'} \<union> H' = set (js @ [j])" using st(5) ih(4) by simp
  then have k': "frontier (js @ [j]) = k'"
    using st(3,4) by (intro frontier_eq) (auto simp: rx_at_def)
  have "[0..<k'] = [0..<?k] @ [?k..<k']" using st(2) upt_add_eq_append [of 0 ?k "k' - ?k"] by simp
  then have "ch2_feed s now (map (\<lambda>j. (header j, f j)) (js @ [j])) =
      Some (s2, concat (map (\<lambda>i. data_event s (M i)) [0..<k']))"
    using ih(1) st(1) by (simp add: ch2_feed_snoc e)
  moreover have "ch2_core s2 = ch2_core s" using handle_ch2_core [OF st(1)] ih(5) by simp
  ultimately show ?case
    using st(3,4) \<open>{..<k'} \<union> H' = set (js @ [j])\<close> unfolding k' by blast
qed

lemma rx_at_new: "rx_at M 0 {} (new_session conn_id sess_id peer secret token now)"
  by (simp add: rx_at_def new_session_def)

lemma data_event_new:
  assumes "msg_id \<le> MSG_ID_MASK"
  shows "data_event (new_session conn_id sess_id peer secret token now) (msg_id, body) = [EvData sess_id CH_RELIABLE_ORDERED msg_id body]"
proof -
  have "msg_id \<le> 0x0FFF" using assms by (simp add: MSG_ID_MASK_def)
  then have "msg_id \<noteq> 0xFFFF" by auto
  then show ?thesis by (simp add: data_event_def new_session_def)
qed

text \<open>
  C2. The reliable ordered channel delivers exactly once and in order: whatever the order, the losses
  and the duplicates of the arriving frames of a stream \<open>M\<close> (each within half the 16-bit sequence
  space of the one expected next), the events handed to the logic server are exactly the messages
  \<open>M 0, M 1, \<dots>\<close> up to the first one that never arrived, through any number of sequence wrap-arounds.
\<close>

theorem ch2_exactly_once_in_order:
  assumes "in_window js"
    and "\<forall>j \<in> set js. dh_flags (header j) AND FLAG_FRAGMENT = 0 \<and> dh_seq (header j) = of_nat j
      \<and> fr_msg_id (f j) \<le> MSG_ID_MASK"
  shows "\<exists>s'. ch2_feed (new_session conn_id sess_id peer secret token t0) now (map (\<lambda>j. (header j, f j)) js) =
    Some (s', map (\<lambda>i. EvData sess_id CH_RELIABLE_ORDERED (fr_msg_id (f i)) (fr_body (f i))) [0..<frontier js])"
proof -
  let ?s = "new_session conn_id sess_id peer secret token t0" and ?M = "\<lambda>j. (fr_msg_id (f j), fr_body (f j))"
  obtain s' H where fd: "ch2_feed ?s now (map (\<lambda>j. (header j, f j)) js) =
      Some (s', concat (map (\<lambda>i. data_event ?s (?M i)) [0..<frontier js]))"
      "{..<frontier js} \<union> H = set js"
    using ch2_feed_rx [of js header f ?M ?s now] assms rx_at_new by (auto simp: Ball_def)
  have "data_event ?s (?M i) = [EvData sess_id CH_RELIABLE_ORDERED (fr_msg_id (f i)) (fr_body (f i))]"
    if "i \<in> set [0..<frontier js]" for i
    using that fd(2) assms(2) by (intro data_event_new) auto
  then have "map (\<lambda>i. data_event ?s (?M i)) [0..<frontier js] =
      map (\<lambda>i. [EvData sess_id CH_RELIABLE_ORDERED (fr_msg_id (f i)) (fr_body (f i))]) [0..<frontier js]"
    by (rule map_cong [OF refl])
  then show ?thesis using fd(1) by (simp only:) simp
qed

theorem ch2_exactly_once_in_order_witness:
  "\<exists>s'. ch2_feed (new_session 1 9 (V4 0 0) 0 [] 0) 5
       (map (\<lambda>j. (\<lparr>dh_version = VERSION, dh_flags = 0, dh_conn_id = 1, dh_seq = of_nat j, dh_ack = 0,
               dh_ack_bits = 0\<rparr>, \<lparr>fr_ch = 2, fr_msg_id = 7, fr_body = [of_nat j]\<rparr>)) [1, 0, 1, 3])
     = Some (s', [EvData 9 CH_RELIABLE_ORDERED 7 [0], EvData 9 CH_RELIABLE_ORDERED 7 [1]])"
proof -
  have f: "frontier [1, 0, 1, 3] = 2" "frontier [] = 0" "frontier [1] = 0" "frontier [1, 0] = 2"
    "frontier [1, 0, 1] = 2"
    by (simp_all add: frontier_def upt_rec)
  have w: "in_window [1, 0, 1, 3]"
    by (simp add: in_window_def less_Suc_eq all_conj_distrib f f [unfolded One_nat_def] WINDOW_def)
  show ?thesis
    using ch2_exactly_once_in_order [OF w,
        of "\<lambda>j. \<lparr>dh_version = VERSION, dh_flags = 0, dh_conn_id = 1, dh_seq = of_nat j, dh_ack = 0, dh_ack_bits = 0\<rparr>"
           "\<lambda>j. \<lparr>fr_ch = 2, fr_msg_id = 7, fr_body = [of_nat j]\<rparr>" 1 9 "V4 0 0" 0 "[]" 0 5]
    by (simp del: ch2_feed.simps add: f f [unfolded One_nat_def] MSG_ID_MASK_def upt_rec)
qed

section \<open>What an acknowledgement confirms\<close>

lemma ack_dist:
  assumes "ack = of_nat k - (1 :: u16)"
  shows "k \<le> j \<Longrightarrow> j < k + 65535 \<Longrightarrow> seq_dist ack (of_nat j) = j + 1 - k"
    and "j < k \<Longrightarrow> k \<le> j + 65536 \<Longrightarrow> seq_dist (of_nat j) ack = k - 1 - j"
proof -
  assume le: "k \<le> j" "j < k + 65535"
  have "(of_nat j :: u16) = ack + of_nat (j + 1 - k)"
    using le(1) assms by (simp add: of_nat_diff)
  then have "seq_dist ack (of_nat j) = (j + 1 - k) mod 65536" by (simp only: seq_dist_add)
  then show "seq_dist ack (of_nat j) = j + 1 - k" using le by simp
next
  assume le: "j < k" "k \<le> j + 65536"
  have "ack = of_nat j + of_nat (k - 1 - j)" using le(1) assms by (simp add: of_nat_diff)
  then have "seq_dist (of_nat j) ack = (k - 1 - j) mod 65536" by (simp only: seq_dist_add)
  then show "seq_dist (of_nat j) ack = k - 1 - j" using le by simp
qed

lemma is_acked_compute_ack:
  assumes rx: "rx_at M k H s" "k \<notin> H" and win: "k \<le> j + 32768" "j < k + WINDOW"
  shows "is_acked (of_nat j) (fst (compute_ack s)) (snd (compute_ack s)) \<longleftrightarrow>
    j < k \<or> (j \<in> H \<or> of_nat j \<in> set (se_ch3_seen s)) \<and> j < k + 32"
proof -
  let ?ack = "fst (compute_ack s)"
  have ack: "?ack = of_nat k - 1" using rx(1) by (simp add: fst_compute_ack rx_at_def)
  show ?thesis
  proof (cases "j < k")
    case True
    have "of_nat j = ?ack \<or> 32768 \<le> seq_dist ?ack (of_nat j)"
    proof (cases "of_nat j = ?ack")
      case False
      then have "seq_dist ?ack (of_nat j) = 65536 - (k - 1 - j)"
        using seq_dist_sym [of "of_nat j" ?ack] ack_dist(2) [OF ack True] win by simp
      then show ?thesis using win by (intro disjI2) simp
    qed simp
    then show ?thesis using True by (auto simp: is_acked_dist)
  next
    case False
    have d: "seq_dist ?ack (of_nat j) = j + 1 - k" using ack_dist(1) [OF ack, of j] False win by (simp add: WINDOW_def)
    then have ne: "of_nat j \<noteq> ?ack" using False seq_dist_eq_0 [of ?ack "of_nat j"] by simp
    have "?ack + of_nat (Suc (j - k)) = of_nat j" using False ack by (simp add: of_nat_diff)
    then have "bit (snd (compute_ack s)) (j + 1 - k - 1) \<longleftrightarrow> j - k < 32 \<and> seq_known s (of_nat j)"
      by (simp add: bit_compute_ack)
    moreover have "seq_known s (of_nat j) \<longleftrightarrow> j \<in> H \<or> of_nat j \<in> set (se_ch3_seen s)"
      using rx_at_reorder [OF rx(1), of j] rx_at_delivered [OF rx(1), of j] win False
      by (auto simp: seq_known_def WINDOW_def)
    ultimately show ?thesis using d ne False win by (auto simp: is_acked_dist WINDOW_def)
  qed
qed

text \<open>
  An acknowledgement never confirms a message the receiver does not have, and confirms every
  message it has up to 32 ahead of the first missing one: reading the receiver's \<open>compute_ack\<close> with
  the sender's \<open>is_acked\<close> says of index \<open>j\<close> (within half the sequence space) exactly that \<open>j\<close>
  arrived and lies below the first missing index plus 32.
\<close>

theorem ack_confirms_exactly_received:
  assumes "in_window js"
    and "\<forall>j \<in> set js. dh_flags (header j) AND FLAG_FRAGMENT = 0 \<and> dh_seq (header j) = of_nat j"
    and "ch2_feed (new_session conn_id sess_id peer secret token t0) now (map (\<lambda>j. (header j, f j)) js) = Some (s, evs)"
    and "frontier js \<le> j + 32768" "j < frontier js + 32767"
  shows "is_acked (of_nat j) (fst (compute_ack s)) (snd (compute_ack s)) \<longleftrightarrow> j \<in> set js \<and> j < frontier js + 32"
proof -
  let ?s = "new_session conn_id sess_id peer secret token t0" and ?M = "\<lambda>j. (fr_msg_id (f j), fr_body (f j))"
  obtain H where rx: "rx_at ?M (frontier js) H s" "frontier js \<notin> H" "{..<frontier js} \<union> H = set js"
      "ch2_core s = ch2_core ?s"
    using ch2_feed_rx [of js header f ?M ?s now] assms(1-3) rx_at_new by auto
  have "se_ch3_seen s = []" using ch2_core_fields(5) [OF rx(4)] by (simp add: new_session_def)
  moreover have "j < frontier js \<or> j \<in> H \<longleftrightarrow> j \<in> set js" using rx(3) by auto
  ultimately show ?thesis
    using is_acked_compute_ack [OF rx(1,2), of j] assms(4,5) by (auto simp: WINDOW_def)
qed

theorem ack_confirms_exactly_received_witness:
  "\<exists>s evs. ch2_feed (new_session 1 9 (V4 0 0) 0 [] 0) 5
       (map (\<lambda>j. (\<lparr>dh_version = VERSION, dh_flags = 0, dh_conn_id = 1, dh_seq = of_nat j, dh_ack = 0,
               dh_ack_bits = 0\<rparr>, \<lparr>fr_ch = 2, fr_msg_id = 7, fr_body = [of_nat j]\<rparr>)) [0, 2]) = Some (s, evs)
     \<and> \<not> is_acked (of_nat 1) (fst (compute_ack s)) (snd (compute_ack s))
     \<and> is_acked (of_nat 2) (fst (compute_ack s)) (snd (compute_ack s))"
proof -
  let ?h = "\<lambda>j. \<lparr>dh_version = VERSION, dh_flags = 0, dh_conn_id = 1, dh_seq = of_nat j, dh_ack = 0, dh_ack_bits = 0\<rparr>"
  let ?f = "\<lambda>j. \<lparr>fr_ch = 2, fr_msg_id = 7, fr_body = [of_nat j]\<rparr>"
  have f: "frontier [0, 2] = 1" "frontier [] = 0" "frontier [0] = 1"
    by (simp_all add: frontier_def upt_rec)
  have w: "in_window [0, 2]"
    by (simp add: in_window_def less_Suc_eq all_conj_distrib f WINDOW_def)
  obtain s evs where s: "ch2_feed (new_session 1 9 (V4 0 0) 0 [] 0) 5 (map (\<lambda>j. (?h j, ?f j)) [0, 2]) = Some (s, evs)"
    using ch2_feed_rx [OF w, of ?h ?f "\<lambda>j. (7, [of_nat j])" "new_session 1 9 (V4 0 0) 0 [] 0" 5] rx_at_new
    by auto
  from ack_confirms_exactly_received [OF w, of ?h 1 9 "V4 0 0" 0 "[]" 0 5 ?f s evs 1]
    ack_confirms_exactly_received [OF w, of ?h 1 9 "V4 0 0" 0 "[]" 0 5 ?f s evs 2] s f
  show ?thesis by (simp del: ch2_feed.simps)
qed

section \<open>The receive window\<close>

text \<open>
  \<open>record_seq\<close> panics exactly in a build with overflow checks on a packet half the sequence space
  away, otherwise the window never moves back; but across a gap of \<open>d\<close> (more than one, fewer than 32)
  the bitmap is wrong: it marks the packet just before the new one as received, which was skipped,
  and not the last one that really was.
\<close>

theorem record_seq_outcome:
  "(record_seq chk r b seq = None \<longleftrightarrow> chk \<and> seq_dist r seq = 32768)
   \<and> (\<not> seq_newer seq r \<longrightarrow> (\<forall>r' b'. record_seq chk r b seq = Some (r', b') \<longrightarrow> r' = r))
   \<and> (\<forall>d. 1 < d \<and> d < 32 \<and> seq_dist r seq = d \<longrightarrow>
        (\<exists>b'. record_seq chk r b seq = Some (seq, b') \<and> bit b' 0 \<and> \<not> bit b' (d - 1)))"
proof -
  have i: "sint (seq - r) = (if seq_dist r seq < 32768 then int (seq_dist r seq) else int (seq_dist r seq) - 65536)"
    by (simp only: sint16 seq_dist_def)
  have l: "seq_dist r seq < 65536" by (rule seq_dist_less)
  have "sint (seq - r) = - 32768 \<longleftrightarrow> seq_dist r seq = 32768" unfolding i using l by auto
  then have none: "record_seq chk r b seq = None \<longleftrightarrow> chk \<and> seq_dist r seq = 32768"
    by (auto simp: record_seq_def Let_def)
  moreover have "\<not> seq_newer seq r \<longrightarrow> (\<forall>r' b'. record_seq chk r b seq = Some (r', b') \<longrightarrow> r' = r)"
    by (auto simp: record_seq_def Let_def seq_newer_def split: if_splits)
  moreover have "\<exists>b'. record_seq chk r b seq = Some (seq, b') \<and> bit b' 0 \<and> \<not> bit b' (d - 1)"
    if "1 < d \<and> d < 32 \<and> seq_dist r seq = d" for d
  proof -
    have "sint (seq - r) = int d" unfolding i using that by simp
    then have "record_seq chk r b seq = Some (seq, push_bit d b OR 1)"
      using that by (simp add: record_seq_def Let_def min_def)
    moreover have "bit (push_bit d b OR 1) 0" "\<not> bit (push_bit d b OR 1) (d - 1)"
      using that by (auto simp: bit_simps)
    ultimately show ?thesis by blast
  qed
  ultimately show ?thesis by blast
qed

theorem record_seq_outcome_witness:
  "record_seq True 7 0 (7 + 32768) = None \<and> (\<exists>b'. record_seq True 7 1 9 = Some (9, b') \<and> bit b' 0 \<and> \<not> bit b' 1)"
proof -
  have d: "seq_dist 7 (7 + 32768) = 32768" "seq_dist 7 9 = 2"
    by (simp_all add: seq_dist_def)
  show ?thesis
    using record_seq_outcome [of True 7 0 "7 + 32768"] record_seq_outcome [of True 7 1 9] d by force
qed

section \<open>Invariant\<close>

definition session_inv :: "session \<Rightarrow> bool" where
  "session_inv s \<longleftrightarrow>
     fa_inv (se_assembler s)
     \<and> length (se_ch3_seen s) \<le> 256
     \<and> length (se_delivered_seqs s) \<le> 512
     \<and> length (rq_entries (se_retrans_ch2 s)) \<le> RETRANSMIT_QUEUE_CAP
     \<and> length (rq_entries (se_retrans_ch3 s)) \<le> RETRANSMIT_QUEUE_CAP"

lemma session_inv_new [inv_intros]: "session_inv (new_session conn_id sess_id peer secret token now)"
  by (simp add: session_inv_def new_session_def fa_inv_new rq_new_def)

lemma session_inv_delivered: "session_inv s \<Longrightarrow> session_inv (delivered s seq)"
  by (simp add: session_inv_def delivered_def length_push_capped_le)

lemma session_inv_deliver_loop: "session_inv s \<Longrightarrow> session_inv (fst (deliver_loop seq s))"
proof (induction seq s rule: deliver_loop.induct)
  case (1 seq s)
  show ?case
  proof (cases "se_reorder s seq")
    case None
    then show ?thesis using 1 by (simp add: deliver_loop_None)
  next
    case (Some v)
    obtain msg_id payload where v: "v = (msg_id, payload)" by force
    from 1(1) [OF Some v [symmetric] refl refl] session_inv_delivered [OF 1(2), of seq] show ?thesis
      by (simp add: deliver_loop_Some [OF Some] case_prod_beta flip: delivered_def)
  qed
qed

lemma session_inv_deliver [inv_intros]: "session_inv s \<Longrightarrow> session_inv (fst (deliver_ch2_in_order s))"
  by (simp add: deliver_ch2_in_order_def session_inv_deliver_loop split: option.split)

lemma session_inv_reorder_insert [simp]: "session_inv (reorder_insert s seq v) = session_inv s"
  by (simp add: session_inv_def reorder_insert_def)

lemma session_inv_group [simp]: "session_inv (insert_group s gseq n msg_id full) = session_inv s"
proof -
  have "session_inv (foldl (\<lambda>s i. if gseq + of_nat i \<noteq> gseq then reorder_insert s (gseq + of_nat i) (0xFFFF, []) else s)
          s xs) = session_inv s" for xs
    by (induction xs rule: rev_induct) simp_all
  then show ?thesis by (simp add: insert_group_def)
qed

lemma session_inv_assembler: "session_inv s \<Longrightarrow> fa_inv a \<Longrightarrow> session_inv (s\<lparr>se_assembler := a\<rparr>)"
  by (simp add: session_inv_def)

lemma handle_ch2_inv:
  assumes "session_inv s"
  shows "\<exists>s' evs. handle_ch2 s header f now = Some (s', evs) \<and> session_inv s'"
proof -
  have ok: "\<exists>s' evs. Some (deliver_ch2_in_order t) = Some (s', evs) \<and> session_inv s'" if "session_inv t" for t
    using session_inv_deliver [OF that] by (metis prod.collapse)
  have fa: "fa_inv (se_assembler s)" using assms by (simp add: session_inv_def)
  have frag: "\<exists>s' evs. (case fa_push (se_assembler s) g q i t chunk now of None \<Rightarrow> None
              | Some (a, None) \<Rightarrow> Some (s\<lparr>se_assembler := a\<rparr>, [])
              | Some (a, Some (gseq, full)) \<Rightarrow>
                  Some (deliver_ch2_in_order (insert_group (s\<lparr>se_assembler := a\<rparr>) gseq (unat t) m full)))
      = Some (s', evs) \<and> session_inv s'" if "decode_fragment (fr_body f) = Inr (g, q, i, t, chunk)" for g q i t chunk m
  proof -
    have "i < t" using that by (rule decode_fragment_InrD)
    then obtain a r where p: "fa_push (se_assembler s) g q i t chunk now = Some (a, r)"
      using fa_push_Some [OF fa] by blast
    then have "session_inv (s\<lparr>se_assembler := a\<rparr>)"
      using fa_push_inv [OF fa p] assms by (simp add: session_inv_assembler)
    then show ?thesis using ok by (auto simp: p split: option.split)
  qed
  show ?thesis
  proof (cases "decode_fragment (fr_body f)")
    case (Inl e)
    then show ?thesis using assms ok by (simp add: handle_ch2_def Let_def)
  next
    case (Inr x)
    obtain g q i t chunk where x: "x = (g, q, i, t, chunk)" by (metis prod_cases5)
    show ?thesis using assms ok frag [OF Inr [unfolded x]] by (simp add: handle_ch2_def Let_def Inr x)
  qed
qed

end
