(* ===== verification/Stats.thy ===== *)
theory Stats
  imports Prelude
begin

text \<open>
  The counters of \<open>src/stats.rs\<close>: 64-bit atomics that wrap on overflow, grouped in one record, and the
  snapshot taken for export. A relaxed \<open>fetch_add\<close> is one update of the record.
\<close>

type_synonym counter = u64

definition incr_by :: "u64 \<Rightarrow> counter \<Rightarrow> counter" where
  "incr_by n c = c + n"

definition incr :: "counter \<Rightarrow> counter" where
  "incr c = incr_by 1 c"

definition decr :: "counter \<Rightarrow> counter" where
  "decr c = c - 1"

record stats =
  sessions_active :: counter
  sessions_handshaking :: counter
  sessions_grace :: counter
  pkt_in :: counter
  pkt_out :: counter
  pkt_bad :: counter
  pkt_bytes_in :: counter
  pkt_bytes_out :: counter
  dropped_up :: counter
  dropped_down :: counter
  nat_rebind :: counter
  logic_reconnects :: counter
  kicks :: counter
  retransmits :: counter
  acks_seen :: counter

definition stats_new :: stats where
  "stats_new = \<lparr>sessions_active = 0, sessions_handshaking = 0, sessions_grace = 0, pkt_in = 0,
     pkt_out = 0, pkt_bad = 0, pkt_bytes_in = 0, pkt_bytes_out = 0, dropped_up = 0,
     dropped_down = 0, nat_rebind = 0, logic_reconnects = 0, kicks = 0, retransmits = 0,
     acks_seen = 0\<rparr>"

text \<open>The snapshot has the same fields; taken at one moment it is the record itself.\<close>

definition snapshot :: "stats \<Rightarrow> stats" where
  "snapshot st = \<lparr>sessions_active = sessions_active st, sessions_handshaking = sessions_handshaking st,
     sessions_grace = sessions_grace st, pkt_in = pkt_in st, pkt_out = pkt_out st,
     pkt_bad = pkt_bad st, pkt_bytes_in = pkt_bytes_in st, pkt_bytes_out = pkt_bytes_out st,
     dropped_up = dropped_up st, dropped_down = dropped_down st, nat_rebind = nat_rebind st,
     logic_reconnects = logic_reconnects st, kicks = kicks st, retransmits = retransmits st,
     acks_seen = acks_seen st\<rparr>"

lemma snapshot_id: "snapshot st = st"
  by (simp add: snapshot_def)

lemma decr_incr [simp]: "decr (incr c) = c"
  by (simp add: decr_def incr_def incr_by_def)

end
