(* ===== verification/Table.thy ===== *)
theory Table
  imports Session Stats "HOL-Library.AList"
begin

text \<open>
  The session table of \<open>src/session/table.rs\<close>: sharded hash maps of sessions, the pending handshakes,
  and the whole path of an inbound datagram. A shard is an association list, its order standing for
  the iteration order of the hash map. Parameters of the model are \<open>hmac4\<close> (HMAC-SHA256 cut to four
  bytes, from the crates \<open>hmac\<close> and \<open>sha2\<close>), \<open>rnd\<close> (the eight random bytes a handshake draws, packed
  in a word), \<open>clk\<close> (the clock read inside the packet handler) and \<open>chk\<close> (overflow checks). Packets
  sent through the \<open>send_back\<close> callback are returned in order; \<open>None\<close> is a panic.
\<close>

section \<open>State\<close>

definition HMAC_LEN :: nat where "HMAC_LEN = 4"
definition CLOSE_GRACE_TIMEOUT :: u8 where "CLOSE_GRACE_TIMEOUT = 1"
definition CLOSE_KICKED :: u8 where "CLOSE_KICKED = 2"

record table_config =
  cfg_shards :: nat
  cfg_handshake_timeout :: duration
  cfg_idle_grace :: duration
  cfg_reconnect_grace :: duration
  cfg_enable_hmac :: bool
  cfg_dynamic_timeouts :: bool
  cfg_timeout_min :: duration
  cfg_timeout_max :: duration
  cfg_reconnect_min :: duration
  cfg_reconnect_max :: duration

definition default_config :: table_config where
  "default_config = \<lparr>cfg_shards = DEFAULT_SESSION_SHARDS, cfg_handshake_timeout = HANDSHAKE_TIMEOUT,
     cfg_idle_grace = IDLE_GRACE, cfg_reconnect_grace = RECONNECT_GRACE, cfg_enable_hmac = True,
     cfg_dynamic_timeouts = True, cfg_timeout_min = TIMEOUT_MIN, cfg_timeout_max = TIMEOUT_MAX,
     cfg_reconnect_min = RECONNECT_MIN, cfg_reconnect_max = RECONNECT_MAX\<rparr>"

record pending_handshake =
  ph_challenge :: bytes
  ph_created :: instant

type_synonym shard_map = "(u32 \<times> session) list"

record session_table =
  st_shards :: "shard_map list"
  st_pending :: "socket_addr \<rightharpoonup> pending_handshake"
  st_next_conn_id :: u64
  st_next_sess_id :: u64
  st_cfg :: table_config
  st_stats :: stats

type_synonym packets = "(bytes \<times> socket_addr) list"

definition table_new :: "table_config \<Rightarrow> session_table" where
  "table_new cfg = \<lparr>st_shards = replicate (max (cfg_shards cfg) 1) [], st_pending = Map.empty,
     st_next_conn_id = 1, st_next_sess_id = 1, st_cfg = cfg, st_stats = stats_new\<rparr>"

abbreviation count_in :: "(stats \<Rightarrow> stats) \<Rightarrow> session_table \<Rightarrow> session_table" where
  "count_in f t \<equiv> t\<lparr>st_stats := f (st_stats t)\<rparr>"

definition shard :: "session_table \<Rightarrow> u32 \<Rightarrow> nat" where
  "shard t conn_id = unat conn_id mod length (st_shards t)"

definition table_get :: "session_table \<Rightarrow> u32 \<Rightarrow> session option" where
  "table_get t conn_id = map_of (st_shards t ! shard t conn_id) conn_id"

definition table_put :: "session_table \<Rightarrow> u32 \<Rightarrow> session \<Rightarrow> session_table" where
  "table_put t conn_id s = t\<lparr>st_shards := (st_shards t)
     [shard t conn_id := AList.update conn_id s (st_shards t ! shard t conn_id)]\<rparr>"

definition active_count :: "session_table \<Rightarrow> nat" where
  "active_count t = sum_list (map length (st_shards t))"

section \<open>Packet authentication\<close>

datatype hmac_result = HmacOk bytes | NoHmac | HmacBad

definition verify_hmac :: "(bytes \<Rightarrow> bytes \<Rightarrow> bytes) \<Rightarrow> session_table \<Rightarrow> bytes \<Rightarrow> hmac_result" where
  "verify_hmac hmac4 t buf =
     (if \<not> cfg_enable_hmac (st_cfg t) \<or> length buf < HEADER_LEN then NoHmac
      else if buf ! 3 AND (FLAG_HANDSHAKE OR FLAG_HMAC) \<noteq> FLAG_HMAC then NoHmac
      else if length buf < HEADER_LEN + HMAC_LEN then HmacBad
      else
        (case table_get t (of_le (subslice buf 4 8)) of
           None \<Rightarrow> HmacBad
         | Some s \<Rightarrow>
             let data = take (length buf - HMAC_LEN) buf;
                 mac = drop (length buf - HMAC_LEN) buf
             in if mac = hmac4 (le64 (se_secret s)) data then HmacOk data else HmacBad))"

section \<open>Handshake\<close>

definition buf_len_hint :: "frame_ref list \<Rightarrow> nat" where
  "buf_len_hint frames = HEADER_LEN + sum_list (map (\<lambda>f. length (fr_body f) + 4) frames)"

definition purge_pending :: "session_table \<Rightarrow> instant \<Rightarrow> session_table" where
  "purge_pending t now = t\<lparr>st_pending := (\<lambda>a. case st_pending t a of
       None \<Rightarrow> None
     | Some p \<Rightarrow> if duration_since now (ph_created p) < cfg_handshake_timeout (st_cfg t)
                then Some p else None)\<rparr>"

definition handshake_reply :: "u32 \<Rightarrow> bytes \<Rightarrow> (bytes \<times> nat) res" where
  "handshake_reply conn_id body =
     encode \<lparr>dh_version = VERSION, dh_flags = FLAG_HANDSHAKE, dh_conn_id = conn_id, dh_seq = 0,
              dh_ack = 0, dh_ack_bits = 0\<rparr> [new_frame_ref 0 0 body] []"

definition handle_handshake :: "session_table \<Rightarrow> socket_addr \<Rightarrow> frame_ref list \<Rightarrow> u64 \<Rightarrow> instant
    \<Rightarrow> session_table \<times> packets \<times> session_event list" where
  "handle_handshake t peer frames rnd now =
     (case frames of
        [] \<Rightarrow> (count_in (pkt_bad_update incr) t, [], [])
      | f # _ \<Rightarrow>
          let body = fr_body f;
              t = purge_pending t now
          in case st_pending t peer of
               Some rec \<Rightarrow>
                 if length body < 8 then (count_in (pkt_bad_update incr) t, [], [])
                 else
                   let chal = take 8 body; token = drop 8 body in
                   if chal \<noteq> ph_challenge rec then (count_in (pkt_bad_update incr) t, [], [])
                   else
                     let conn_id = ucast (st_next_conn_id t);
                         sess_id = st_next_sess_id t;
                         t = t\<lparr>st_pending := (st_pending t)(peer := None),
                               st_next_conn_id := st_next_conn_id t + 1,
                               st_next_sess_id := st_next_sess_id t + 1\<rparr>;
                         t = table_put t conn_id (new_session conn_id sess_id peer rnd token now);
                         t = count_in (sessions_active_update incr) t;
                         sent = (case handshake_reply conn_id (le64 rnd) of
                                   Inr (out, _) \<Rightarrow> [(out, peer)]
                                 | Inl _ \<Rightarrow> [])
                     in (t, sent, [EvOpen sess_id peer token])
             | None \<Rightarrow>
                 let challenge = le64 rnd;
                     t = t\<lparr>st_pending := (st_pending t)(peer \<mapsto>
                             \<lparr>ph_challenge = challenge, ph_created = now\<rparr>)\<rparr>;
                     t = count_in (sessions_handshaking_update incr) t;
                     sent = (case handshake_reply 0 challenge of
                               Inr (out, _) \<Rightarrow> if length out \<le> buf_len_hint frames then [(out, peer)] else []
                             | Inl _ \<Rightarrow> [])
                 in (t, sent, []))"

section \<open>Packets of a session\<close>

text \<open>The acknowledgement part: both queues, the statistics, the packets of the fast retransmission.\<close>

definition ack_queue :: "bool \<Rightarrow> datagram_header \<Rightarrow> instant \<Rightarrow> retransmit_queue \<Rightarrow> stats
    \<Rightarrow> (retransmit_queue \<times> stats \<times> rat option \<times> bytes list) option" where
  "ack_queue chk header now q st = do {
     r \<leftarrow> on_ack chk q (dh_ack header) (dh_ack_bits header) now;
     let st = (if ar_acked r \<noteq> [] then acks_seen_update (incr_by (of_nat (length (ar_acked r)))) st else st);
     let st = retransmits_update (incr_by (of_nat (length (ar_fast r)))) st;
     Some (ar_queue r, st, ar_sample r, ar_fast r)
   }"

definition apply_sample :: "bool \<Rightarrow> session \<Rightarrow> rat option \<Rightarrow> session option" where
  "apply_sample chk s sample =
     (case sample of
        None \<Rightarrow> Some s
      | Some ms \<Rightarrow> map_option (\<lambda>(e, _). s\<lparr>se_rtt := e\<rparr>) (rtt_update chk (se_rtt s) ms))"

definition process_acks :: "bool \<Rightarrow> session \<Rightarrow> stats \<Rightarrow> datagram_header \<Rightarrow> instant
    \<Rightarrow> (session \<times> stats \<times> bytes list) option" where
  "process_acks chk s st header now = do {
     (q0, st, sample0, fast0) \<leftarrow> ack_queue chk header now (se_retrans_ch2 s) st;
     (q1, st, sample1, fast1) \<leftarrow> ack_queue chk header now (se_retrans_ch3 s) st;
     let s = s\<lparr>se_retrans_ch2 := q0, se_retrans_ch3 := q1\<rparr>;
     s \<leftarrow> apply_sample chk s (if sample1 \<noteq> None then sample1 else sample0);
     Some (s, st, fast0 @ fast1)
   }"

text \<open>The body of the frame loop; the flag says that a pure acknowledgement is due.\<close>

definition dispatch_frame :: "bool \<Rightarrow> datagram_header \<Rightarrow> instant \<Rightarrow> session \<times> stats \<times> bool \<Rightarrow> frame_ref
    \<Rightarrow> ((session \<times> stats \<times> bool) \<times> session_event list) option" where
  "dispatch_frame chk header now state f = do {
     let (s, st, need_ack) = state;
     (rs, rb) \<leftarrow> record_seq chk (se_recv_seq s) (se_recv_bits s) (dh_seq header);
     let s = s\<lparr>se_recv_seq := rs, se_recv_bits := rb\<rparr>;
     let st = pkt_bytes_in_update (incr_by (of_nat (length (fr_body f)))) st;
     let data = [EvData (se_sess_id s) (fr_ch f) (fr_msg_id f) (fr_body f)];
     if fr_ch f = CH_UNRELIABLE_UNORDERED then Some ((s, st, need_ack), data)
     else if fr_ch f = CH_UNRELIABLE_SEQUENCED then
       (if (case se_ch1_last s of None \<Rightarrow> True | Some prev \<Rightarrow> seq_newer (dh_seq header) prev)
        then Some ((s\<lparr>se_ch1_last := Some (dh_seq header)\<rparr>, st, need_ack), data)
        else Some ((s, st, need_ack), []))
     else if fr_ch f = CH_RELIABLE_ORDERED then do {
       (s, evs) \<leftarrow> handle_ch2 s header f now;
       Some ((s, st, True), evs)
     }
     else if fr_ch f = CH_RELIABLE_UNORDERED then
       (if dh_seq header \<in> set (se_ch3_seen s) then Some ((s, st, True), [])
        else Some ((s\<lparr>se_ch3_seen := push_capped 256 (se_ch3_seen s) (dh_seq header)\<rparr>, st, True), data))
     else Some ((s, pkt_bad_update incr st, need_ack), [])
   }"

fun dispatch_frames :: "bool \<Rightarrow> datagram_header \<Rightarrow> instant \<Rightarrow> session \<times> stats \<times> bool \<Rightarrow> frame_ref list
    \<Rightarrow> ((session \<times> stats \<times> bool) \<times> session_event list) option" where
  "dispatch_frames chk header now state [] = Some (state, [])"
| "dispatch_frames chk header now state (f # fs) = do {
     (state, evs) \<leftarrow> dispatch_frame chk header now state f;
     (state, evs') \<leftarrow> dispatch_frames chk header now state fs;
     Some (state, evs @ evs')
   }"

definition pure_ack :: "session \<Rightarrow> bytes list" where
  "pure_ack s = (case compute_ack s of (ack, ack_bits) \<Rightarrow>
     (case encode \<lparr>dh_version = VERSION, dh_flags = FLAG_PURE_ACK, dh_conn_id = se_conn_id s,
                   dh_seq = se_send_seq s, dh_ack = ack, dh_ack_bits = ack_bits\<rparr> [] [] of
        Inr (out, _) \<Rightarrow> [out]
      | Inl _ \<Rightarrow> []))"

definition resume_gap :: "instant \<Rightarrow> instant \<Rightarrow> u32" where
  "resume_gap clk since = of_nat (min (as_millis (duration_since clk since)) (2 ^ 32 - 1))"

definition handle_session_packet :: "bool \<Rightarrow> session_table \<Rightarrow> socket_addr \<Rightarrow> datagram_header
    \<Rightarrow> frame_ref list \<Rightarrow> instant \<Rightarrow> instant \<Rightarrow> (session_table \<times> packets \<times> session_event list) option" where
  "handle_session_packet chk t peer header frames clk now =
     (let conn_id = dh_conn_id header in
      case table_get t conn_id of
        None \<Rightarrow> Some (count_in (pkt_bad_update incr) t, [], [])
      | Some s \<Rightarrow>
          let rebind = se_peer s \<noteq> peer;
              s = (if rebind then s\<lparr>se_peer := peer\<rparr> else s);
              st = (if rebind then nat_rebind_update incr (st_stats t) else st_stats t)
          in case se_state s of
               Grace since \<Rightarrow>
                 Some (table_put (t\<lparr>st_stats := st\<rparr>) conn_id
                         (s\<lparr>se_state := Active, se_last_rx := now\<rparr>), [],
                       [EvResume (se_sess_id s) (resume_gap clk since)])
             | Active \<Rightarrow> do {
                 (s, st, fast) \<leftarrow> process_acks chk (s\<lparr>se_last_rx := now\<rparr>) st header now;
                 ((s, st, need_ack), evs) \<leftarrow> dispatch_frames chk header now (s, st, False) frames;
                 let acks = (if need_ack then pure_ack s else []);
                 Some (table_put (t\<lparr>st_stats := st\<rparr>) conn_id s, map (\<lambda>b. (b, peer)) (fast @ acks), evs)
               })"

definition handle_datagram :: "bool \<Rightarrow> (bytes \<Rightarrow> bytes \<Rightarrow> bytes) \<Rightarrow> session_table \<Rightarrow> socket_addr \<Rightarrow> bytes
    \<Rightarrow> u64 \<Rightarrow> instant \<Rightarrow> instant \<Rightarrow> (session_table \<times> packets \<times> session_event list) option" where
  "handle_datagram chk hmac4 t peer raw rnd clk now =
     (case (case verify_hmac hmac4 t raw of HmacOk b \<Rightarrow> Some b | NoHmac \<Rightarrow> Some raw | HmacBad \<Rightarrow> None) of
        None \<Rightarrow> Some (count_in (pkt_bad_update incr) t, [], [])
      | Some buf \<Rightarrow>
          (case decode buf of
             Inl _ \<Rightarrow> Some (count_in (pkt_bad_update incr) t, [], [])
           | Inr (header, frames) \<Rightarrow>
               let t = count_in (pkt_in_update incr) t in
               if dh_flags header AND FLAG_HANDSHAKE \<noteq> 0
               then Some (handle_handshake t peer frames rnd now)
               else if dh_conn_id header = 0 then Some (count_in (pkt_bad_update incr) t, [], [])
               else handle_session_packet chk t peer header frames clk now))"

section \<open>The store interface\<close>

text \<open>
  What the rest of the engine relies on when it keeps sessions by connection id: a map that a put or
  a removal changes at one key only. The lemmas carry properties of all stored values, and the
  uniqueness of an identifier among them, across an operation.
\<close>

locale keyed_store =
  fixes get :: "'t \<Rightarrow> 'k \<Rightarrow> 'v option"
    and put :: "'t \<Rightarrow> 'k \<Rightarrow> 'v \<Rightarrow> 't"
    and remove :: "'t \<Rightarrow> 'k \<Rightarrow> 't"
    and ok :: "'t \<Rightarrow> bool"
  assumes get_put: "ok t \<Longrightarrow> get (put t k v) k' = (if k' = k then Some v else get t k')"
    and ok_put: "ok t \<Longrightarrow> ok (put t k v)"
    and get_remove: "ok t \<Longrightarrow> get (remove t k) k' = (if k' = k then None else get t k')"
    and ok_remove: "ok t \<Longrightarrow> ok (remove t k)"
begin

definition all_values :: "('k \<Rightarrow> 'v \<Rightarrow> bool) \<Rightarrow> 't \<Rightarrow> bool" where
  "all_values P t \<longleftrightarrow> (\<forall>k v. get t k = Some v \<longrightarrow> P k v)"

definition unique_by :: "('v \<Rightarrow> 'i) \<Rightarrow> 't \<Rightarrow> bool" where
  "unique_by f t \<longleftrightarrow> (\<forall>k k' v v'. get t k = Some v \<longrightarrow> get t k' = Some v' \<longrightarrow> f v = f v' \<longrightarrow> k = k')"

lemma all_values_get: "all_values P t \<Longrightarrow> get t k = Some v \<Longrightarrow> P k v"
  by (simp add: all_values_def)

lemma all_values_put: "ok t \<Longrightarrow> all_values P t \<Longrightarrow> P k v \<Longrightarrow> all_values P (put t k v)"
  by (simp add: all_values_def get_put)

lemma all_values_remove: "ok t \<Longrightarrow> all_values P t \<Longrightarrow> all_values P (remove t k)"
  by (simp add: all_values_def get_remove)

lemma unique_by_put_same:
  "ok t \<Longrightarrow> unique_by f t \<Longrightarrow> get t k = Some v0 \<Longrightarrow> f v = f v0 \<Longrightarrow> unique_by f (put t k v)"
  unfolding unique_by_def by (simp add: get_put) metis

lemma unique_by_put_fresh:
  "ok t \<Longrightarrow> unique_by f t \<Longrightarrow> all_values (\<lambda>_ v'. f v' \<noteq> f v) t \<Longrightarrow> unique_by f (put t k v)"
  unfolding unique_by_def all_values_def by (simp add: get_put) metis

lemma unique_by_remove: "ok t \<Longrightarrow> unique_by f t \<Longrightarrow> unique_by f (remove t k)"
  unfolding unique_by_def by (simp add: get_remove)

end

definition table_remove :: "session_table \<Rightarrow> u32 \<Rightarrow> session_table" where
  "table_remove t conn_id = t\<lparr>st_shards := (st_shards t)
     [shard t conn_id := AList.delete conn_id (st_shards t ! shard t conn_id)]\<rparr>"

text \<open>Every shard holds each key once, and only keys that hash to it.\<close>

definition shard_ok :: "nat \<Rightarrow> nat \<Rightarrow> shard_map \<Rightarrow> bool" where
  "shard_ok n i m \<longleftrightarrow> distinct (map fst m) \<and> (\<forall>c \<in> fst ` set m. unat c mod n = i)"

definition shards_ok :: "session_table \<Rightarrow> bool" where
  "shards_ok t \<longleftrightarrow> st_shards t \<noteq> []
     \<and> (\<forall>i < length (st_shards t). shard_ok (length (st_shards t)) i (st_shards t ! i))"

lemma shard_less: "shards_ok t \<Longrightarrow> shard t c < length (st_shards t)"
  by (simp add: shards_ok_def shard_def)

lemma shard_put [simp]: "shard (table_put t c s) c' = shard t c'"
  by (simp add: shard_def table_put_def)

lemma shard_remove [simp]: "shard (table_remove t c) c' = shard t c'"
  by (simp add: shard_def table_remove_def)

lemma table_get_put: "shards_ok t \<Longrightarrow> table_get (table_put t c s) c' = (if c' = c then Some s else table_get t c')"
  using shard_less [of t c]
  by (auto simp: table_get_def table_put_def shard_def nth_list_update update_conv)

lemma table_get_remove: "shards_ok t \<Longrightarrow> table_get (table_remove t c) c' = (if c' = c then None else table_get t c')"
  using shard_less [of t c]
  by (auto simp: table_get_def table_remove_def shard_def nth_list_update delete_conv restrict_map_def)

lemma shard_ok_update: "shard_ok n i m \<Longrightarrow> unat c mod n = i \<Longrightarrow> shard_ok n i (AList.update c s m)"
  by (simp add: shard_ok_def distinct_update dom_update)

lemma shard_ok_delete: "shard_ok n i m \<Longrightarrow> shard_ok n i (AList.delete c m)"
  unfolding shard_ok_def using dom_delete_subset [of c m] distinct_delete [of m c] by blast

lemma shards_ok_put: "shards_ok t \<Longrightarrow> shards_ok (table_put t c s)"
  by (auto simp: shards_ok_def table_put_def shard_def nth_list_update intro!: shard_ok_update)

lemma shards_ok_remove: "shards_ok t \<Longrightarrow> shards_ok (table_remove t c)"
  by (auto simp: shards_ok_def table_remove_def shard_def nth_list_update intro!: shard_ok_delete)

interpretation sessions: keyed_store table_get table_put table_remove shards_ok
  by unfold_locales (simp_all add: table_get_put shards_ok_put table_get_remove shards_ok_remove)

section \<open>Table invariant\<close>

definition table_ok :: "session_table \<Rightarrow> bool" where
  "table_ok t \<longleftrightarrow> shards_ok t \<and> sessions.all_values (\<lambda>c s. se_conn_id s = c \<and> session_inv s) t"

definition ids_fresh :: "session_table \<Rightarrow> bool" where
  "ids_fresh t \<longleftrightarrow> sessions.all_values (\<lambda>_ s. se_sess_id s < st_next_sess_id t) t
     \<and> sessions.unique_by se_sess_id t"

lemma table_get_upd [simp]:
  "table_get (t\<lparr>st_stats := st\<rparr>) c = table_get t c"
  "table_get (t\<lparr>st_pending := p\<rparr>) c = table_get t c"
  "table_get (t\<lparr>st_next_conn_id := a\<rparr>) c = table_get t c"
  "table_get (t\<lparr>st_next_sess_id := b\<rparr>) c = table_get t c"
  by (simp_all add: table_get_def shard_def)

lemma shards_ok_upd [simp]:
  "shards_ok (t\<lparr>st_stats := st\<rparr>) = shards_ok t"
  "shards_ok (t\<lparr>st_pending := p\<rparr>) = shards_ok t"
  "shards_ok (t\<lparr>st_next_conn_id := a\<rparr>) = shards_ok t"
  "shards_ok (t\<lparr>st_next_sess_id := b\<rparr>) = shards_ok t"
  by (simp_all add: shards_ok_def)

lemma table_ok_upd [simp]:
  "table_ok (t\<lparr>st_stats := st\<rparr>) = table_ok t"
  "table_ok (t\<lparr>st_pending := p\<rparr>) = table_ok t"
  "table_ok (t\<lparr>st_next_conn_id := a\<rparr>) = table_ok t"
  "table_ok (t\<lparr>st_next_sess_id := b\<rparr>) = table_ok t"
  by (simp_all add: table_ok_def sessions.all_values_def)

lemma ids_fresh_upd [simp]:
  "ids_fresh (t\<lparr>st_stats := st\<rparr>) = ids_fresh t"
  "ids_fresh (t\<lparr>st_pending := p\<rparr>) = ids_fresh t"
  "ids_fresh (t\<lparr>st_next_conn_id := a\<rparr>) = ids_fresh t"
  by (simp_all add: ids_fresh_def sessions.all_values_def sessions.unique_by_def)

lemma table_put_frame [simp]:
  "st_pending (table_put t c s) = st_pending t"
  "st_next_conn_id (table_put t c s) = st_next_conn_id t"
  "st_next_sess_id (table_put t c s) = st_next_sess_id t"
  "st_cfg (table_put t c s) = st_cfg t"
  "st_stats (table_put t c s) = st_stats t"
  by (simp_all add: table_put_def)

lemma table_ok_new [inv_intros]: "table_ok (table_new cfg)"
proof -
  have "table_get (table_new cfg) c = None" for c
    by (simp add: table_get_def table_new_def shard_def)
  then show ?thesis
    by (simp add: table_ok_def sessions.all_values_def) (simp add: shards_ok_def table_new_def shard_ok_def max_def)
qed

lemma table_ok_put [inv_intros]:
  "table_ok t \<Longrightarrow> se_conn_id s = c \<Longrightarrow> session_inv s \<Longrightarrow> table_ok (table_put t c s)"
  by (simp add: table_ok_def shards_ok_put sessions.all_values_put)

lemma table_ok_getD: "table_ok t \<Longrightarrow> table_get t c = Some s \<Longrightarrow> se_conn_id s = c \<and> session_inv s"
  by (auto simp: table_ok_def sessions.all_values_def)

lemma ids_fresh_put [inv_intros]:
  assumes "table_ok t" "ids_fresh t" "table_get t c = Some s" "se_sess_id s' = se_sess_id s"
  shows "ids_fresh (table_put t c s')"
  using assms unfolding ids_fresh_def table_ok_def
  by (auto intro!: sessions.all_values_put sessions.unique_by_put_same dest: sessions.all_values_get)

lemma ids_fresh_new_session [inv_intros]:
  assumes "table_ok t" "ids_fresh t" "st_next_sess_id t \<noteq> - 1" "se_sess_id s = st_next_sess_id t"
  shows "ids_fresh (table_put (t\<lparr>st_next_sess_id := st_next_sess_id t + 1\<rparr>) c s)"
proof -
  let ?t = "t\<lparr>st_next_sess_id := st_next_sess_id t + 1\<rparr>"
  have ok: "shards_ok ?t" using assms(1) by (simp add: table_ok_def)
  have lt: "st_next_sess_id t < st_next_sess_id t + 1"
    using assms(3) unatSuc [of "st_next_sess_id t"]
    by (auto simp: word_less_nat_alt add.commute eq_neg_iff_add_eq_0)
  have all: "sessions.all_values (\<lambda>_ s'. se_sess_id s' < st_next_sess_id t) ?t"
    using assms(2) by (simp add: ids_fresh_def sessions.all_values_def)
  then have "sessions.all_values (\<lambda>_ s'. se_sess_id s' < st_next_sess_id t + 1) ?t"
    using lt unfolding sessions.all_values_def by (meson less_trans)
  moreover have "sessions.all_values (\<lambda>_ s'. se_sess_id s' \<noteq> se_sess_id s) ?t"
    using all assms(4) unfolding sessions.all_values_def by (metis less_irrefl)
  moreover have "sessions.unique_by se_sess_id ?t"
    using assms(2) by (simp add: ids_fresh_def sessions.unique_by_def)
  ultimately show ?thesis
    using ok lt assms(4)
    by (simp add: ids_fresh_def sessions.all_values_put sessions.unique_by_put_fresh)
qed

section \<open>Packets of a session keep the invariant\<close>

lemma on_ack_length:
  "on_ack chk q ack ack_bits now = Some r \<Longrightarrow> length (rq_entries (ar_queue r)) \<le> length (rq_entries q)"
  by (simp add: on_ack_SomeD length_dropWhile_le)

lemma ack_queue_SomeD:
  "ack_queue chk header now q st = Some (q', st', sample, fast) \<Longrightarrow> length (rq_entries q') \<le> length (rq_entries q)"
  by (auto simp: ack_queue_def Let_def dest: on_ack_length split: bind_splits)

lemma ack_queue_total: "\<not> chk \<Longrightarrow> \<exists>r. ack_queue chk header now q st = Some r"
  using on_ack_total [of chk q "dh_ack header" "dh_ack_bits header" now] by (auto simp: ack_queue_def Let_def)

lemma apply_sample_total: "\<not> chk \<Longrightarrow> \<exists>s'. apply_sample chk s sample = Some s'"
  by (simp add: apply_sample_def rtt_update_def Let_def split: option.split)

definition keeps_ids :: "session \<Rightarrow> session \<Rightarrow> bool" where
  "keeps_ids s s' \<longleftrightarrow> se_conn_id s' = se_conn_id s \<and> se_sess_id s' = se_sess_id s
     \<and> se_secret s' = se_secret s \<and> se_peer s' = se_peer s \<and> se_state s' = se_state s"

lemma apply_sample_SomeD:
  "apply_sample chk s sample = Some s' \<Longrightarrow> \<exists>e. s' = s\<lparr>se_rtt := e\<rparr>"
proof (cases sample)
  case None
  assume "apply_sample chk s sample = Some s'"
  then have "s' = s\<lparr>se_rtt := se_rtt s\<rparr>" by (simp add: apply_sample_def None)
  then show ?thesis by blast
qed (auto simp: apply_sample_def)

lemma process_acks_SomeD:
  assumes "process_acks chk s st header now = Some (s', st', fast)"
  shows "keeps_ids s s'" and "session_inv s \<Longrightarrow> session_inv s'"
  using assms
  by (auto simp: process_acks_def Let_def keeps_ids_def session_inv_def
    dest!: ack_queue_SomeD apply_sample_SomeD split: bind_splits)

lemma process_acks_total: "\<not> chk \<Longrightarrow> \<exists>r. process_acks chk s st header now = Some r"
proof -
  assume c: "\<not> chk"
  obtain q0 st0 p0 f0 where 0: "ack_queue chk header now (se_retrans_ch2 s) st = Some (q0, st0, p0, f0)"
    using ack_queue_total [OF c] by (metis prod_cases4)
  obtain q1 st1 p1 f1 where 1: "ack_queue chk header now (se_retrans_ch3 s) st0 = Some (q1, st1, p1, f1)"
    using ack_queue_total [OF c] by (metis prod_cases4)
  obtain s' where "apply_sample chk (s\<lparr>se_retrans_ch2 := q0, se_retrans_ch3 := q1\<rparr>)
      (if p1 \<noteq> None then p1 else p0) = Some s'"
    using apply_sample_total [OF c] by blast
  then show ?thesis by (simp add: process_acks_def Let_def 0 1)
qed

lemma record_seq_total: "\<not> chk \<Longrightarrow> \<exists>r b. record_seq chk rs rb seq = Some (r, b)"
  by (simp add: record_seq_def Let_def)

lemma dispatch_frame_keeps:
  assumes "dispatch_frame chk header now (s, st, need) f = Some ((s', st', need'), evs)"
  shows "keeps_ids s s'"
proof -
  have "keeps_ids s s'"
    if "handle_ch2 (s\<lparr>se_recv_seq := r, se_recv_bits := b\<rparr>) header f now = Some (s', evs)" for r b
    using ch2_core_fields [OF handle_ch2_core [OF that]] by (simp add: keeps_ids_def)
  then show ?thesis
    using assms by (auto simp: dispatch_frame_def Let_def keeps_ids_def split: bind_splits if_splits)
qed

lemma dispatch_frame_inv:
  assumes "dispatch_frame chk header now (s, st, need) f = Some ((s', st', need'), evs)" "session_inv s"
  shows "session_inv s'"
proof -
  have "session_inv s'"
    if "handle_ch2 (s\<lparr>se_recv_seq := r, se_recv_bits := b\<rparr>) header f now = Some (s', evs)" for r b
  proof -
    have "session_inv (s\<lparr>se_recv_seq := r, se_recv_bits := b\<rparr>)" using assms(2) by (simp add: session_inv_def)
    from handle_ch2_inv [OF this, of header f now] show ?thesis using that by auto
  qed
  then show ?thesis
    using assms by (auto simp: dispatch_frame_def Let_def session_inv_def length_push_capped_le
      split: bind_splits if_splits)
qed

lemma dispatch_frame_total:
  assumes "\<not> chk" "session_inv s"
  shows "\<exists>s' st' need' evs. dispatch_frame chk header now (s, st, need) f = Some ((s', st', need'), evs)"
proof -
  obtain r b where rb: "record_seq chk (se_recv_seq s) (se_recv_bits s) (dh_seq header) = Some (r, b)"
    using record_seq_total [OF assms(1)] by blast
  have "session_inv (s\<lparr>se_recv_seq := r, se_recv_bits := b\<rparr>)" using assms(2) by (simp add: session_inv_def)
  from handle_ch2_inv [OF this, of header f now] show ?thesis
    by (auto simp: dispatch_frame_def Let_def rb)
qed

lemma keeps_ids_trans: "keeps_ids s s' \<Longrightarrow> keeps_ids s' s'' \<Longrightarrow> keeps_ids s s''"
  by (simp add: keeps_ids_def)

lemma keeps_ids_refl [simp]: "keeps_ids s s"
  by (simp add: keeps_ids_def)

lemma dispatch_frames_SomeD:
  "dispatch_frames chk header now (s, st, need) fs = Some ((s', st', need'), evs)
    \<Longrightarrow> keeps_ids s s' \<and> (session_inv s \<longrightarrow> session_inv s')"
proof (induction fs arbitrary: s st need evs)
  case Nil
  then show ?case by simp
next
  case (Cons f fs)
  obtain s1 st1 n1 e1 e2 where
    d: "dispatch_frame chk header now (s, st, need) f = Some ((s1, st1, n1), e1)"
      "dispatch_frames chk header now (s1, st1, n1) fs = Some ((s', st', need'), e2)"
    using Cons.prems(1) by (auto split: bind_splits)
  show ?case
    using Cons.IH [OF d(2)] dispatch_frame_keeps [OF d(1)] dispatch_frame_inv [OF d(1)] keeps_ids_trans
    by blast
qed

lemma dispatch_frames_total:
  "\<not> chk \<Longrightarrow> session_inv s \<Longrightarrow> \<exists>r. dispatch_frames chk header now (s, st, need) fs = Some r"
proof (induction fs arbitrary: s st need)
  case Nil
  then show ?case by simp
next
  case (Cons f fs)
  obtain s1 st1 n1 e1 where d: "dispatch_frame chk header now (s, st, need) f = Some ((s1, st1, n1), e1)"
    using dispatch_frame_total [OF Cons.prems] by blast
  from Cons.IH [OF Cons.prems(1) dispatch_frame_inv [OF d Cons.prems(2)], of st1 n1]
  show ?case by (auto simp: d)
qed

section \<open>The events of a session packet\<close>

lemma deliver_loop_events: "\<forall>e \<in> set (snd (deliver_loop seq s)). \<exists>m p. e = EvData (se_sess_id s) CH_RELIABLE_ORDERED m p"
proof (induction seq s rule: deliver_loop.induct)
  case (1 seq s)
  show ?case
  proof (cases "se_reorder s seq")
    case None
    then show ?thesis by (simp add: deliver_loop_None)
  next
    case (Some v)
    obtain msg_id payload where v: "v = (msg_id, payload)" by force
    from 1 [OF Some v [symmetric] refl refl] show ?thesis
      by (auto simp: deliver_loop_Some [OF Some] case_prod_beta data_event_def delivered_def split: if_splits)
  qed
qed

lemma handle_ch2_events:
  assumes "handle_ch2 s header f now = Some (s', evs)"
  shows "\<forall>e \<in> set evs. \<exists>m p. e = EvData (se_sess_id s) CH_RELIABLE_ORDERED m p"
proof -
  have d: "\<forall>e \<in> set evs. \<exists>m p. e = EvData (se_sess_id s) CH_RELIABLE_ORDERED m p"
    if "deliver_ch2_in_order u = (s', evs)" "ch2_core u = ch2_core s" for u
    using that(1) ch2_core_fields(1) [OF that(2)] deliver_loop_events [of "the (se_ch2_next u)" u]
    by (auto simp: deliver_ch2_in_order_def split: option.splits)
  show ?thesis
    using assms
    by (auto simp: handle_ch2_def Let_def dest!: d split: if_splits sum.splits option.splits prod.splits)
      (auto simp: frame_simps)
qed

lemma dispatch_frame_events:
  assumes "dispatch_frame chk header now (s, st, need) f = Some ((s', st', need'), evs)"
  shows "\<forall>e \<in> set evs. \<exists>ch m p. e = EvData (se_sess_id s) ch m p"
proof -
  have "\<forall>e \<in> set evs. \<exists>ch m p. e = EvData (se_sess_id s) ch m p"
    if "handle_ch2 (s\<lparr>se_recv_seq := r, se_recv_bits := b\<rparr>) header f now = Some (s', evs)" for r b
    using handle_ch2_events [OF that] by fastforce
  then show ?thesis
    using assms by (auto simp: dispatch_frame_def Let_def split: bind_splits if_splits)
qed

lemma dispatch_frames_events:
  "dispatch_frames chk header now (s, st, need) fs = Some ((s', st', need'), evs)
    \<Longrightarrow> \<forall>e \<in> set evs. \<exists>ch m p. e = EvData (se_sess_id s) ch m p"
proof (induction fs arbitrary: s st need evs)
  case Nil
  then show ?case by simp
next
  case (Cons f fs)
  obtain s1 st1 n1 e1 e2 where
    d: "dispatch_frame chk header now (s, st, need) f = Some ((s1, st1, n1), e1)"
      "dispatch_frames chk header now (s1, st1, n1) fs = Some ((s', st', need'), e2)" "evs = e1 @ e2"
    using Cons.prems(1) by (auto split: bind_splits)
  have "se_sess_id s1 = se_sess_id s" using dispatch_frame_keeps [OF d(1)] by (simp add: keeps_ids_def)
  then show ?case
    using Cons.IH [OF d(2)] dispatch_frame_events [OF d(1)] d(3) by auto
qed

section \<open>The whole packet path\<close>

lemma session_inv_upd [simp]:
  "session_inv (s\<lparr>se_peer := p\<rparr>) = session_inv s"
  "session_inv (s\<lparr>se_state := q\<rparr>) = session_inv s"
  "session_inv (s\<lparr>se_last_rx := n\<rparr>) = session_inv s"
  by (simp_all add: session_inv_def)

text \<open>A session packet either finds no session or puts back one session under its own key.\<close>

lemma handle_session_packet_SomeE:
  assumes "handle_session_packet chk t peer header frames clk now = Some (t', ps, evs)"
  obtains (unknown) "table_get t (dh_conn_id header) = None" "t' = count_in (pkt_bad_update incr) t" "ps = []" "evs = []"
  | (known) s s' st where "table_get t (dh_conn_id header) = Some s"
      "t' = table_put (t\<lparr>st_stats := st\<rparr>) (dh_conn_id header) s'"
      "se_conn_id s' = se_conn_id s" "se_sess_id s' = se_sess_id s" "se_secret s' = se_secret s" "se_peer s' = peer"
      "session_inv s \<Longrightarrow> session_inv s'" "se_state s' = Active" "snd ` set ps \<subseteq> {peer}"
      "\<forall>e \<in> set evs. \<exists>g ch m p. e = EvResume (se_sess_id s) g \<or> e = EvData (se_sess_id s) ch m p"
proof (cases "table_get t (dh_conn_id header)")
  case None
  then show ?thesis using assms unknown by (simp add: handle_session_packet_def Let_def)
next
  case (Some s)
  let ?s = "if se_peer s \<noteq> peer then s\<lparr>se_peer := peer\<rparr> else s"
  have s: "se_conn_id ?s = se_conn_id s" "se_sess_id ?s = se_sess_id s" "se_secret ?s = se_secret s"
    "se_peer ?s = peer" "se_state ?s = se_state s" "session_inv ?s = session_inv s"
    by auto
  show ?thesis
  proof (cases "se_state s")
    case (Grace since)
    then show ?thesis using assms Some s
      by (intro known [of s "if se_peer s \<noteq> peer then nat_rebind_update incr (st_stats t) else st_stats t" "?s\<lparr>se_state := Active, se_last_rx := now\<rparr>"])
        (auto simp: handle_session_packet_def Let_def)
  next
    case Active
    obtain s1 st1 fast where 1: "process_acks chk (?s\<lparr>se_last_rx := now\<rparr>)
        (if se_peer s \<noteq> peer then nat_rebind_update incr (st_stats t) else st_stats t) header now = Some (s1, st1, fast)"
      using assms Active s(5) by (auto simp: handle_session_packet_def Let_def Some split: bind_splits)
    obtain s2 st2 need where 2: "dispatch_frames chk header now (s1, st1, False) frames = Some ((s2, st2, need), evs)"
        "t' = table_put (t\<lparr>st_stats := st2\<rparr>) (dh_conn_id header) s2"
        "ps = map (\<lambda>b. (b, peer)) (fast @ (if need then pure_ack s2 else []))"
      using assms Active 1 s(5) by (auto simp: handle_session_packet_def Let_def Some split: bind_splits)
    have k1: "keeps_ids (?s\<lparr>se_last_rx := now\<rparr>) s1" using process_acks_SomeD(1) [OF 1] .
    have i1: "session_inv s \<Longrightarrow> session_inv s1" using process_acks_SomeD(2) [OF 1] s(6) by simp
    note k2 = dispatch_frames_SomeD [OF 2(1)]
    show ?thesis
    proof (rule known [OF Some 2(2)])
      show "se_conn_id s2 = se_conn_id s" "se_sess_id s2 = se_sess_id s" "se_secret s2 = se_secret s"
        "se_peer s2 = peer" "se_state s2 = Active"
        using k1 k2 s Active by (simp_all add: keeps_ids_def)
      show "session_inv s2" if "session_inv s" using i1 [OF that] k2 by blast
      show "snd ` set ps \<subseteq> {peer}" by (auto simp: 2(3))
      have "se_sess_id s1 = se_sess_id s" using k1 s by (simp add: keeps_ids_def)
      then show "\<forall>e \<in> set evs. \<exists>g ch m p. e = EvResume (se_sess_id s) g \<or> e = EvData (se_sess_id s) ch m p"
        using dispatch_frames_events [OF 2(1)] by metis
    qed
  qed
qed

lemma handle_session_packet_total:
  assumes "\<not> chk" "table_ok t"
  shows "\<exists>t' ps evs. handle_session_packet chk t peer header frames clk now = Some (t', ps, evs)"
proof (cases "table_get t (dh_conn_id header)")
  case None
  then show ?thesis by (simp add: handle_session_packet_def Let_def)
next
  case (Some s)
  let ?s = "if se_peer s \<noteq> peer then s\<lparr>se_peer := peer\<rparr> else s"
  have i: "session_inv (?s\<lparr>se_last_rx := now\<rparr>)" using table_ok_getD [OF assms(2) Some] by simp
  obtain s1 st1 fast where 1: "process_acks chk (?s\<lparr>se_last_rx := now\<rparr>)
      (if se_peer s \<noteq> peer then nat_rebind_update incr (st_stats t) else st_stats t) header now = Some (s1, st1, fast)"
    using process_acks_total [OF assms(1)] by (metis prod_cases3)
  obtain s2 st2 need evs where "dispatch_frames chk header now (s1, st1, False) frames = Some ((s2, st2, need), evs)"
    using dispatch_frames_total [OF assms(1) process_acks_SomeD(2) [OF 1 i], of header now st1 False frames]
    by (metis prod.exhaust)
  with 1 show ?thesis
    by (cases "se_state s") (auto simp: handle_session_packet_def Let_def Some)
qed

lemma table_ok_purge [simp]: "table_ok (purge_pending t now) = table_ok t"
  by (simp add: purge_pending_def)

lemma purge_pending_frame [simp]:
  "st_next_sess_id (purge_pending t now) = st_next_sess_id t"
  "st_next_conn_id (purge_pending t now) = st_next_conn_id t"
  "table_get (purge_pending t now) c = table_get t c"
  "st_cfg (purge_pending t now) = st_cfg t"
  by (simp_all add: purge_pending_def)

lemma handle_handshake_ok:
  "handle_handshake t peer frames rnd now = (t', ps, evs) \<Longrightarrow> table_ok t \<Longrightarrow> table_ok t'"
  by (auto simp: handle_handshake_def Let_def new_session_def [THEN arg_cong [of _ _ se_conn_id]]
    intro!: table_ok_put session_inv_new split: list.splits option.splits if_splits)

lemma handle_datagram_ok:
  assumes "handle_datagram chk hmac4 t peer raw rnd clk now = Some (t', ps, evs)" "table_ok t"
  shows "table_ok t'"
proof -
  have sp: "table_ok t'" if "handle_session_packet chk u peer header frames clk now = Some (t', ps, evs)"
    "table_ok u" for u header frames
    using that(1)
  proof (cases rule: handle_session_packet_SomeE)
    case unknown
    then show ?thesis using that(2) by simp
  next
    case (known s s' st)
    then show ?thesis using table_ok_getD [OF that(2) known(1)] that(2) by (auto intro!: table_ok_put)
  qed
  show ?thesis
    using assms sp handle_handshake_ok
    by (auto simp: handle_datagram_def Let_def split: option.splits sum.splits if_splits prod.splits hmac_result.splits)
qed

lemma handle_datagram_total:
  assumes "\<not> chk" "table_ok t"
  shows "\<exists>t' ps evs. handle_datagram chk hmac4 t peer raw rnd clk now = Some (t', ps, evs)"
proof -
  have "table_ok (count_in f t)" for f using assms(2) by simp
  from handle_session_packet_total [OF assms(1) this] show ?thesis
    by (auto simp: handle_datagram_def Let_def split: option.splits sum.splits prod.splits hmac_result.splits)
      (metis prod_cases3)+
qed

text \<open>A run over the datagrams of any peers.\<close>

fun datagrams :: "bool \<Rightarrow> (bytes \<Rightarrow> bytes \<Rightarrow> bytes) \<Rightarrow> session_table
    \<Rightarrow> (socket_addr \<times> bytes \<times> u64 \<times> instant \<times> instant) list
    \<Rightarrow> (session_table \<times> packets \<times> session_event list) option" where
  "datagrams chk hmac4 t [] = Some (t, [], [])"
| "datagrams chk hmac4 t ((peer, raw, rnd, clk, now) # rest) = do {
     (t, ps, evs) \<leftarrow> handle_datagram chk hmac4 t peer raw rnd clk now;
     (t, ps', evs') \<leftarrow> datagrams chk hmac4 t rest;
     Some (t, ps @ ps', evs @ evs')
   }"

lemma datagrams_total:
  "\<not> chk \<Longrightarrow> table_ok t \<Longrightarrow> \<exists>t' ps evs. datagrams chk hmac4 t ds = Some (t', ps, evs) \<and> table_ok t'"
proof (induction ds arbitrary: t)
  case Nil
  then show ?case by simp
next
  case (Cons d ds)
  obtain peer raw rnd clk now where d: "d = (peer, raw, rnd, clk, now)" by (metis prod_cases5)
  obtain t1 ps1 evs1 where 1: "handle_datagram chk hmac4 t peer raw rnd clk now = Some (t1, ps1, evs1)"
    using handle_datagram_total [OF Cons.prems] by blast
  show ?case
    using Cons.IH [OF Cons.prems(1) handle_datagram_ok [OF 1 Cons.prems(2)]] by (auto simp: d 1)
qed


section \<open>Session identifiers\<close>

lemma handle_handshake_ids:
  assumes "handle_handshake t peer frames rnd now = (t', ps, evs)" "table_ok t" "ids_fresh t"
    "st_next_sess_id t \<noteq> - 1"
  shows "ids_fresh t' \<and> (st_next_sess_id t' = st_next_sess_id t \<or> st_next_sess_id t' = st_next_sess_id t + 1)"
proof -
  have p: "ids_fresh (purge_pending t now)" using assms(3) by (simp add: purge_pending_def)
  have n: "ids_fresh (table_put (t\<lparr>st_pending := q, st_next_conn_id := a, st_next_sess_id := st_next_sess_id t + 1\<rparr>) c
      (new_session c (st_next_sess_id t) peer rnd token now))" for q a c token
    using ids_fresh_new_session [of "t\<lparr>st_pending := q, st_next_conn_id := a\<rparr>"
        "new_session c (st_next_sess_id t) peer rnd token now" c] assms(2-4)
    by (simp add: new_session_def)
  then show ?thesis
    using assms p by (auto simp: handle_handshake_def Let_def purge_pending_def
      split: list.splits option.splits if_splits)
qed

lemma handle_datagram_ids:
  assumes "handle_datagram chk hmac4 t peer raw rnd clk now = Some (t', ps, evs)" "table_ok t" "ids_fresh t"
    "st_next_sess_id t \<noteq> - 1"
  shows "ids_fresh t' \<and> (st_next_sess_id t' = st_next_sess_id t \<or> st_next_sess_id t' = st_next_sess_id t + 1)"
proof -
  have sp: "ids_fresh t' \<and> st_next_sess_id t' = st_next_sess_id u"
    if "handle_session_packet chk u peer header frames clk now = Some (t', ps, evs)" "table_ok u" "ids_fresh u"
    for u header frames
    using that(1)
  proof (cases rule: handle_session_packet_SomeE)
    case unknown
    then show ?thesis using that(3) by simp
  next
    case (known s s' st)
    then show ?thesis using that(2,3) by (auto intro!: ids_fresh_put)
  qed
  show ?thesis
    using assms handle_handshake_ids [of "count_in (pkt_in_update incr) t" peer _ rnd now t' ps evs]
    by (auto simp: handle_datagram_def Let_def dest!: sp
      split: option.splits sum.splits if_splits prod.splits hmac_result.splits)
qed

lemma datagrams_ids:
  "datagrams chk hmac4 t ds = Some (t', ps, evs) \<Longrightarrow> table_ok t \<Longrightarrow> ids_fresh t
    \<Longrightarrow> unat (st_next_sess_id t) + length ds < 2 ^ 64 \<Longrightarrow> ids_fresh t'"
proof (induction ds arbitrary: t ps evs)
  case Nil
  then show ?case by simp
next
  case (Cons d ds)
  obtain peer raw rnd clk now where d: "d = (peer, raw, rnd, clk, now)" by (metis prod_cases5)
  obtain t1 ps1 evs1 ps2 evs2 where 1: "handle_datagram chk hmac4 t peer raw rnd clk now = Some (t1, ps1, evs1)"
      "datagrams chk hmac4 t1 ds = Some (t', ps2, evs2)"
    using Cons.prems(1) d by (auto split: bind_splits)
  have s: "unat (st_next_sess_id t + 1) = Suc (unat (st_next_sess_id t))"
    using Cons.prems(4) by (simp add: unat_plus_if')
  have ne: "st_next_sess_id t \<noteq> - 1" using s by auto
  note i = handle_datagram_ids [OF 1(1) Cons.prems(2,3) ne]
  then have "unat (st_next_sess_id t1) + length ds < 2 ^ 64" using s Cons.prems(4) by auto
  then show ?case using Cons.IH [OF 1(2) handle_datagram_ok [OF 1(1) Cons.prems(2)]] i by blast
qed

lemma ids_fresh_new: "ids_fresh (table_new cfg)"
proof -
  have "table_get (table_new cfg) c = None" for c
    by (simp add: table_get_def table_new_def shard_def)
  then show ?thesis by (simp add: ids_fresh_def sessions.all_values_def sessions.unique_by_def)
qed

text \<open>
  Session ids identify sessions: after fewer than \<open>2^64 - 1\<close> datagrams no two stored sessions
  share an id, so the logic server's view (by session id) and the engine's (by connection id) never
  mix two clients.
\<close>

theorem session_ids_unique:
  assumes "datagrams chk hmac4 (table_new cfg) ds = Some (t, ps, evs)" "length ds < 2 ^ 64 - 1"
    and "table_get t c = Some s" "table_get t c' = Some s'" "se_sess_id s = se_sess_id s'"
  shows "c = c'"
proof -
  have "unat (st_next_sess_id (table_new cfg)) + length ds < 2 ^ 64"
    using assms(2) by (simp add: table_new_def)
  from datagrams_ids [OF assms(1) table_ok_new ids_fresh_new this] show ?thesis
    using assms(3-5) by (auto simp: ids_fresh_def sessions.unique_by_def)
qed

section \<open>Packets on the wire\<close>

lemma handshake_flag_no_hmac: "flags AND FLAG_HANDSHAKE \<noteq> 0 \<Longrightarrow> flags AND (FLAG_HANDSHAKE OR FLAG_HMAC) \<noteq> FLAG_HMAC"
proof
  assume a: "flags AND FLAG_HANDSHAKE \<noteq> 0" and e: "flags AND (FLAG_HANDSHAKE OR FLAG_HMAC) = FLAG_HMAC"
  have "bit flags 2" using a and_exp_eq_0_iff_not_bit [of flags 2] by (simp add: FLAG_HANDSHAKE_def)
  moreover have "bit (flags AND (FLAG_HANDSHAKE OR FLAG_HMAC)) 2 = bit FLAG_HMAC 2" by (simp only: e)
  moreover have "bit (FLAG_HANDSHAKE OR FLAG_HMAC) 2" "\<not> bit FLAG_HMAC 2" by (simp_all add: flag_defs)
  ultimately show False by (simp only: bit_and_iff) blast
qed

definition client_packet :: "datagram_header \<Rightarrow> frame_ref list \<Rightarrow> bytes" where
  "client_packet h fs = encode_header h @ concat (map encode_frame fs)"

definition sendable :: "datagram_header \<Rightarrow> frame_ref list \<Rightarrow> bool" where
  "sendable h fs \<longleftrightarrow> dh_version h = VERSION \<and> HEADER_LEN + frames_size fs \<le> MTU \<and> (\<forall>f \<in> set fs. valid_frame f)"

lemma decode_client_packet: "sendable h fs \<Longrightarrow> decode (client_packet h fs) = Inr (h, fs)"
  by (simp add: decode_iff_encode encode_Inr_iff sendable_def client_packet_def)

lemma encode_sendable: "sendable h fs \<Longrightarrow> encode h fs [] = Inr (client_packet h fs, HEADER_LEN + frames_size fs)"
  by (simp add: sendable_def encode_Inr_iff client_packet_def)

lemma client_packet_flags: "sendable h fs \<Longrightarrow> client_packet h fs ! 3 = dh_flags h"
  using decode_InrD(5) [OF decode_client_packet] by blast

lemma decode_no_hmac:
  assumes "decode raw = Inr (header, frames)" "dh_flags header AND FLAG_HANDSHAKE \<noteq> 0"
  shows "verify_hmac hmac4 t raw = NoHmac"
  using assms decode_InrD(5,6) [OF assms(1)] handshake_flag_no_hmac by (simp add: verify_hmac_def)

lemma handle_datagram_handshake:
  assumes "decode raw = Inr (header, frames)" "dh_flags header AND FLAG_HANDSHAKE \<noteq> 0"
  shows "handle_datagram chk hmac4 t peer raw rnd clk now =
    Some (handle_handshake (count_in (pkt_in_update incr) t) peer frames rnd now)"
  using assms by (simp add: handle_datagram_def decode_no_hmac Let_def)

lemma handshake_reply_eq:
  assumes "length body = 8"
  shows "handshake_reply conn_id body = Inr (client_packet \<lparr>dh_version = VERSION, dh_flags = FLAG_HANDSHAKE,
    dh_conn_id = conn_id, dh_seq = 0, dh_ack = 0, dh_ack_bits = 0\<rparr> [new_frame_ref 0 0 body], 28)"
proof -
  have "valid_frame (new_frame_ref 0 0 body)" using assms by (simp add: valid_frame_def new_frame_ref_def)
  then show ?thesis
    using assms unfolding handshake_reply_def
    by (subst encode_Inr_iff) (simp add: client_packet_def MTU_def HEADER_LEN_def new_frame_ref_def)
qed

lemma length_client_packet: "length (client_packet h fs) = HEADER_LEN + frames_size fs"
  by (simp add: client_packet_def)

lemma buf_len_hint_eq: "buf_len_hint frames = HEADER_LEN + frames_size frames"
  unfolding buf_len_hint_def frames_size_def by (simp add: add.commute)

lemma handle_handshake_sent:
  assumes "handle_handshake t peer frames rnd now = (t', ps, evs)"
  shows "sum_list (map (length \<circ> fst) ps) \<le> HEADER_LEN + frames_size frames" "snd ` set ps \<subseteq> {peer}"
proof -
  have l: "length (client_packet h [new_frame_ref 0 0 (le64 rnd)]) = 28" for h
    by (simp add: length_client_packet HEADER_LEN_def new_frame_ref_def)
  show "sum_list (map (length \<circ> fst) ps) \<le> HEADER_LEN + frames_size frames"
    using assms l
    by (auto simp: handle_handshake_def Let_def handshake_reply_eq buf_len_hint_eq HEADER_LEN_def
      split: list.splits option.splits if_splits)
  show "snd ` set ps \<subseteq> {peer}"
    using assms by (auto simp: handle_handshake_def Let_def handshake_reply_eq
      split: list.splits option.splits if_splits)
qed

end
