(* ===== verification/Inbound.thy ===== *)
theory Inbound
  imports Table
begin

text \<open>
  The properties of the inbound path of \<open>src/session/table.rs\<close> over whole datagrams: what an address
  without a session can obtain, the three-way handshake, the authentication of session packets and
  its gap, reconnection, and aggregated frames. The operations are those of theory Table.
\<close>

section \<open>What a peer without a session can obtain\<close>

lemma decode_conn_id: "decode raw = Inr (header, frames) \<Longrightarrow> dh_conn_id header = of_le (subslice raw 4 8)"
  by (auto simp: decode_def Let_def decode_header_def split: if_splits elim!: try_res_InrE)

text \<open>A packet that carries the HMAC of its session passes the check.\<close>

lemma verify_signed:
  assumes "sendable h fs" "dh_flags h AND (FLAG_HANDSHAKE OR FLAG_HMAC) = FLAG_HMAC"
    and "table_get t (dh_conn_id h) = Some s" "cfg_enable_hmac (st_cfg t)"
    and "length (hmac4 (le64 (se_secret s)) (client_packet h fs)) = 4"
  shows "verify_hmac hmac4 t (client_packet h fs @ hmac4 (le64 (se_secret s)) (client_packet h fs)) = HmacOk (client_packet h fs)"
proof -
  let ?b = "client_packet h fs"
  note dec = decode_client_packet [OF assms(1)]
  have len: "16 \<le> length ?b" by (simp add: length_client_packet HEADER_LEN_def)
  then have f: "(?b @ m) ! 3 = dh_flags h" for m using decode_InrD(5) [OF dec] by (simp add: nth_append)
  have "subslice (?b @ m) 4 8 = subslice ?b 4 8" for m using len by (simp add: subslice_def)
  then have "of_le (subslice (?b @ m) 4 8) = dh_conn_id h" for m using decode_conn_id [OF dec] by simp
  then show ?thesis using assms(2-5) len f by (simp add: verify_hmac_def HEADER_LEN_def HMAC_LEN_def)
qed

lemma no_amplification_lemma:
  assumes "handle_datagram chk hmac4 t peer raw rnd clk now = Some (t', ps, evs)"
    and "table_get t (of_le (subslice raw 4 8)) = None \<or> raw ! 3 AND FLAG_HANDSHAKE \<noteq> 0"
  shows "sum_list (map (length \<circ> fst) ps) \<le> length raw \<and> snd ` set ps \<subseteq> {peer}"
proof (cases "verify_hmac hmac4 t raw")
  case (HmacOk b)
  then show ?thesis using assms(2) handshake_flag_no_hmac [of "raw ! 3"]
    by (auto simp: verify_hmac_def split: if_splits)
next
  case HmacBad
  then show ?thesis using assms(1) by (simp add: handle_datagram_def)
next
  case NoHmac
  show ?thesis
  proof (cases "decode raw")
    case (Inl e)
    then show ?thesis using assms(1) NoHmac by (simp add: handle_datagram_def)
  next
    case (Inr hf)
    obtain header frames where d: "decode raw = Inr (header, frames)" using Inr by force
    show ?thesis
    proof (cases "dh_flags header AND FLAG_HANDSHAKE \<noteq> 0")
      case True
      then show ?thesis
        using assms(1) handle_handshake_sent [of "count_in (pkt_in_update incr) t" peer frames rnd now]
          decode_InrD(1) [OF d]
        by (simp add: handle_datagram_handshake [OF d])
    next
      case False
      then have "table_get t (dh_conn_id header) = None"
        using assms(2) decode_InrD(5) [OF d] decode_conn_id [OF d] by simp
      then show ?thesis
        using assms(1) False NoHmac by (auto simp: handle_datagram_def d handle_session_packet_def Let_def split: if_splits)
    qed
  qed
qed

text \<open>
  C14. The engine is no amplifier: to a datagram that is a handshake, or whose connection id names no
  session, it answers with at most as many bytes as it received, and only to the sender.
\<close>

theorem no_amplification:
  assumes "handle_datagram chk hmac4 t peer raw rnd clk now = Some (t', ps, evs)"
    and "table_get t (of_le (subslice raw 4 8)) = None \<or> raw ! 3 AND FLAG_HANDSHAKE \<noteq> 0"
  shows "sum_list (map (length \<circ> fst) ps) \<le> length raw \<and> snd ` set ps \<subseteq> {peer}"
  using assms by (rule no_amplification_lemma)

lemma handle_session_packet_no_open:
  assumes "handle_session_packet chk t peer header frames clk now = Some (t', ps, evs)"
  shows "EvOpen sess_id p token \<notin> set evs"
  using assms by (cases rule: handle_session_packet_SomeE) auto

lemma handle_handshake_open:
  assumes "handle_handshake t peer frames rnd now = (t', ps, evs)" "EvOpen sess_id p token \<in> set evs"
  shows "p = peer \<and> (\<exists>rec f fs. frames = f # fs \<and> st_pending t peer = Some rec
    \<and> duration_since now (ph_created rec) < cfg_handshake_timeout (st_cfg t)
    \<and> take 8 (fr_body f) = ph_challenge rec \<and> drop 8 (fr_body f) = token)"
  using assms
  by (auto simp: handle_handshake_def Let_def purge_pending_def split: list.splits option.splits if_splits)

lemma handle_datagram_open:
  assumes "handle_datagram chk hmac4 t peer raw rnd clk now = Some (t', ps, evs)" "EvOpen sess_id p token \<in> set evs"
  shows "\<exists>header f fs rec. decode raw = Inr (header, f # fs) \<and> dh_flags header AND FLAG_HANDSHAKE \<noteq> 0
    \<and> p = peer \<and> st_pending t peer = Some rec
    \<and> duration_since now (ph_created rec) < cfg_handshake_timeout (st_cfg t)
    \<and> take 8 (fr_body f) = ph_challenge rec \<and> drop 8 (fr_body f) = token"
proof -
  obtain buf header frames where b: "decode buf = Inr (header, frames)"
      "verify_hmac hmac4 t raw = HmacOk buf \<or> buf = raw \<and> verify_hmac hmac4 t raw = NoHmac"
      "dh_flags header AND FLAG_HANDSHAKE \<noteq> 0"
      "handle_handshake (count_in (pkt_in_update incr) t) peer frames rnd now = (t', ps, evs)"
    using assms handle_session_packet_no_open
    by (auto simp: handle_datagram_def Let_def split: hmac_result.splits option.splits sum.splits if_splits)
  have "verify_hmac hmac4 t raw \<noteq> HmacOk buf"
  proof
    assume v: "verify_hmac hmac4 t raw = HmacOk buf"
    then have 1: "raw ! 3 AND (FLAG_HANDSHAKE OR FLAG_HMAC) = FLAG_HMAC"
      and 2: "buf = take (length raw - HMAC_LEN) raw" "HEADER_LEN + HMAC_LEN \<le> length raw"
      by (auto simp: verify_hmac_def Let_def split: if_splits option.splits)
    then have "buf ! 3 = raw ! 3" by (simp add: HEADER_LEN_def HMAC_LEN_def)
    then show False using b(3) decode_InrD(5) [OF b(1)] handshake_flag_no_hmac [of "raw ! 3"] 1 by simp
  qed
  then have "buf = raw" using b(2) by simp
  moreover obtain rec f fs where "frames = f # fs" "p = peer" "st_pending t peer = Some rec"
    "duration_since now (ph_created rec) < cfg_handshake_timeout (st_cfg t)"
    "take 8 (fr_body f) = ph_challenge rec" "drop 8 (fr_body f) = token"
    using handle_handshake_open [OF b(4) assms(2)] by auto
  ultimately show ?thesis using b(1,3) by blast
qed


section \<open>A handshake that completes\<close>

lemma handle_datagram_handshake_packet:
  assumes "sendable h fs" "dh_flags h AND FLAG_HANDSHAKE \<noteq> 0"
  shows "handle_datagram chk hmac4 t peer (client_packet h fs) rnd clk now =
    Some (handle_handshake (count_in (pkt_in_update incr) t) peer fs rnd now)"
  using handle_datagram_handshake [OF decode_client_packet [OF assms(1)] assms(2)] .

lemma handshake_completes_lemma:
  assumes "shards_ok t" "st_pending t peer = None"
    and "sendable h1 (f1 # fs1)" "dh_flags h1 AND FLAG_HANDSHAKE \<noteq> 0" "28 \<le> HEADER_LEN + frames_size (f1 # fs1)"
    and "sendable h2 (f2 # fs2)" "dh_flags h2 AND FLAG_HANDSHAKE \<noteq> 0" "fr_body f2 = le64 rnd1 @ token"
    and "duration_since now2 now1 < cfg_handshake_timeout (st_cfg t)"
  shows "\<exists>t' chal secret.
    datagrams chk hmac4 t [(peer, client_packet h1 (f1 # fs1), rnd1, clk1, now1), (peer, client_packet h2 (f2 # fs2), rnd2, clk2, now2)]
      = Some (t', [(chal, peer), (secret, peer)], [EvOpen (st_next_sess_id t) peer token])
    \<and> decode chal = Inr (\<lparr>dh_version = VERSION, dh_flags = FLAG_HANDSHAKE, dh_conn_id = 0, dh_seq = 0,
        dh_ack = 0, dh_ack_bits = 0\<rparr>, [new_frame_ref 0 0 (le64 rnd1)])
    \<and> decode secret = Inr (\<lparr>dh_version = VERSION, dh_flags = FLAG_HANDSHAKE,
        dh_conn_id = ucast (st_next_conn_id t), dh_seq = 0, dh_ack = 0, dh_ack_bits = 0\<rparr>, [new_frame_ref 0 0 (le64 rnd2)])
    \<and> table_get t' (ucast (st_next_conn_id t)) =
        Some (new_session (ucast (st_next_conn_id t)) (st_next_sess_id t) peer rnd2 token now2)"
proof -
  let ?r = "\<lambda>c body. client_packet \<lparr>dh_version = VERSION, dh_flags = FLAG_HANDSHAKE, dh_conn_id = c, dh_seq = 0,
        dh_ack = 0, dh_ack_bits = 0\<rparr> [new_frame_ref 0 0 body]"
  have len: "length (?r c body) = 28" if "length body = 8" for c body
    using that by (simp add: length_client_packet HEADER_LEN_def new_frame_ref_def)
  have dec: "decode (?r c body) = Inr (\<lparr>dh_version = VERSION, dh_flags = FLAG_HANDSHAKE, dh_conn_id = c, dh_seq = 0,
        dh_ack = 0, dh_ack_bits = 0\<rparr>, [new_frame_ref 0 0 body])" if "length body = 8" for c body
    using that by (intro decode_client_packet)
      (simp add: sendable_def valid_frame_def new_frame_ref_def MTU_def HEADER_LEN_def)
  let ?t1 = "count_in (sessions_handshaking_update incr) ((purge_pending (count_in (pkt_in_update incr) t) now1)
    \<lparr>st_pending := (st_pending (purge_pending (count_in (pkt_in_update incr) t) now1))(peer \<mapsto> \<lparr>ph_challenge = le64 rnd1, ph_created = now1\<rparr>)\<rparr>)"
  have 1: "handle_datagram chk hmac4 t peer (client_packet h1 (f1 # fs1)) rnd1 clk1 now1 =
      Some (?t1, [(?r 0 (le64 rnd1), peer)], [])"
    using assms(2,5) len
    by (simp add: handle_datagram_handshake_packet [OF assms(3,4)] handle_handshake_def Let_def
      purge_pending_def handshake_reply_eq buf_len_hint_eq)
  have cfg: "st_cfg ?t1 = st_cfg t" "st_next_conn_id ?t1 = st_next_conn_id t" "st_next_sess_id ?t1 = st_next_sess_id t"
    by simp_all
  have pend: "st_pending (purge_pending (count_in (pkt_in_update incr) ?t1) now2) peer =
      Some \<lparr>ph_challenge = le64 rnd1, ph_created = now1\<rparr>"
    using assms(9) by (simp add: purge_pending_def)
  have ok: "shards_ok (count_in f (purge_pending u n)\<lparr>st_pending := q, st_next_conn_id := a, st_next_sess_id := b\<rparr>) = shards_ok u" for f u n q a b
    by (simp add: purge_pending_def)
  obtain t2 where 2: "handle_datagram chk hmac4 ?t1 peer (client_packet h2 (f2 # fs2)) rnd2 clk2 now2 =
      Some (t2, [(?r (ucast (st_next_conn_id t)) (le64 rnd2), peer)], [EvOpen (st_next_sess_id t) peer token])"
      "table_get t2 (ucast (st_next_conn_id t)) =
        Some (new_session (ucast (st_next_conn_id t)) (st_next_sess_id t) peer rnd2 token now2)"
    using pend assms(1)
    by (simp add: handle_datagram_handshake_packet [OF assms(6,7)] handle_handshake_def Let_def assms(8)
      handshake_reply_eq table_get_put purge_pending_def)
  show ?thesis
    using 1 2 dec by (intro exI [of _ t2] exI [of _ "?r 0 (le64 rnd1)"]
      exI [of _ "?r (ucast (st_next_conn_id t)) (le64 rnd2)"]) simp
qed

text \<open>
  The three-way handshake works: a request of at least 28 bytes from an address without a pending
  handshake is answered by a challenge, and the packet that repeats the challenge within the timeout
  opens a session: the logic server gets \<open>Open\<close> with the next session id and the token, the client
  gets the next connection id and the session secret, and exactly that fresh session is stored.
\<close>

theorem handshake_completes:
  assumes "table_ok t" "st_pending t peer = None"
    and "sendable h1 (f1 # fs1)" "dh_flags h1 AND FLAG_HANDSHAKE \<noteq> 0" "28 \<le> HEADER_LEN + frames_size (f1 # fs1)"
    and "sendable h2 (f2 # fs2)" "dh_flags h2 AND FLAG_HANDSHAKE \<noteq> 0" "fr_body f2 = le64 rnd1 @ token"
    and "duration_since now2 now1 < cfg_handshake_timeout (st_cfg t)"
  shows "\<exists>t' chal secret.
    datagrams chk hmac4 t [(peer, client_packet h1 (f1 # fs1), rnd1, clk1, now1), (peer, client_packet h2 (f2 # fs2), rnd2, clk2, now2)]
      = Some (t', [(chal, peer), (secret, peer)], [EvOpen (st_next_sess_id t) peer token])
    \<and> decode chal = Inr (\<lparr>dh_version = VERSION, dh_flags = FLAG_HANDSHAKE, dh_conn_id = 0, dh_seq = 0,
        dh_ack = 0, dh_ack_bits = 0\<rparr>, [new_frame_ref 0 0 (le64 rnd1)])
    \<and> decode secret = Inr (\<lparr>dh_version = VERSION, dh_flags = FLAG_HANDSHAKE,
        dh_conn_id = ucast (st_next_conn_id t), dh_seq = 0, dh_ack = 0, dh_ack_bits = 0\<rparr>, [new_frame_ref 0 0 (le64 rnd2)])
    \<and> table_get t' (ucast (st_next_conn_id t)) =
        Some (new_session (ucast (st_next_conn_id t)) (st_next_sess_id t) peer rnd2 token now2)"
  using assms by (intro handshake_completes_lemma) (simp_all add: table_ok_def)

text \<open>A concrete client, for the witnesses.\<close>

definition sample_request :: bytes where
  "sample_request = client_packet handshake_header [new_frame_ref 0 0 [1, 2, 3, 4, 5, 6, 7, 8]]"

definition sample_response :: "u64 \<Rightarrow> bytes" where
  "sample_response rnd = client_packet handshake_header [new_frame_ref 0 0 (le64 rnd @ [9])]"

lemma sample_sendable:
  "length body \<le> 100 \<Longrightarrow> sendable handshake_header [new_frame_ref 0 0 body]"
  by (simp add: sendable_def handshake_header_def valid_frame_def new_frame_ref_def MTU_def HEADER_LEN_def)

lemma sample_flags: "dh_flags handshake_header AND FLAG_HANDSHAKE \<noteq> 0"
  by (simp add: handshake_header_def FLAG_HANDSHAKE_def)

theorem handshake_completes_witness:
  "\<exists>t' chal secret. datagrams True (\<lambda>_ _. []) (table_new default_config)
       [(V4 1 2, sample_request, 77, 0, 0), (V4 1 2, sample_response 77, 88, 5, 5)]
     = Some (t', [(chal, V4 1 2), (secret, V4 1 2)], [EvOpen 1 (V4 1 2) [9]])
     \<and> table_get t' 1 = Some (new_session 1 1 (V4 1 2) 88 [9] 5)"
proof -
  let ?t = "table_new default_config"
  have f: "st_pending ?t (V4 1 2) = None" "st_next_sess_id ?t = 1" "st_next_conn_id ?t = 1"
    "cfg_handshake_timeout (st_cfg ?t) = HANDSHAKE_TIMEOUT"
    by (simp_all add: table_new_def default_config_def)
  have b: "fr_body (new_frame_ref 0 0 (le64 77 @ [9])) = le64 77 @ [9]" by (simp add: new_frame_ref_def)
  have l: "28 \<le> HEADER_LEN + frames_size [new_frame_ref 0 0 [1, 2, 3, 4, 5, 6, 7, 8]]"
    by (simp add: new_frame_ref_def HEADER_LEN_def)
  have d: "duration_since 5 0 < cfg_handshake_timeout (st_cfg ?t)"
    by (simp add: duration_since_def f HANDSHAKE_TIMEOUT_def)
  show ?thesis
    using handshake_completes [OF table_ok_new f(1) sample_sendable sample_flags l sample_sendable sample_flags b d,
        of True "\<lambda>_ _. []" 0 88 5]
    unfolding sample_request_def sample_response_def f by (simp del: datagrams.simps) blast
qed

text \<open>The same run, for the witnesses of other properties.\<close>

lemma sample_handshake:
  "\<exists>t ps. datagrams True (\<lambda>_ _. []) (table_new default_config)
       [(V4 1 2, sample_request, 77, 0, 0), (V4 1 2, sample_response 77, 88, 5, 5)] = Some (t, ps, [EvOpen 1 (V4 1 2) [9]])
     \<and> table_get t 1 = Some (new_session 1 1 (V4 1 2) 88 [9] 5)"
proof -
  let ?t = "table_new default_config"
  have f: "st_pending ?t (V4 1 2) = None" "st_next_sess_id ?t = 1" "st_next_conn_id ?t = 1"
    "cfg_handshake_timeout (st_cfg ?t) = HANDSHAKE_TIMEOUT"
    by (simp_all add: table_new_def default_config_def)
  have b: "fr_body (new_frame_ref 0 0 (le64 77 @ [9])) = le64 77 @ [9]" by (simp add: new_frame_ref_def)
  have l: "28 \<le> HEADER_LEN + frames_size [new_frame_ref 0 0 [1, 2, 3, 4, 5, 6, 7, 8]]"
    by (simp add: new_frame_ref_def HEADER_LEN_def)
  have d: "duration_since 5 0 < cfg_handshake_timeout (st_cfg ?t)"
    by (simp add: duration_since_def f HANDSHAKE_TIMEOUT_def)
  have ok: "shards_ok ?t" using table_ok_new by (simp add: table_ok_def)
  show ?thesis
    using handshake_completes_lemma [OF ok f(1) sample_sendable sample_flags l sample_sendable sample_flags b d,
        of True "\<lambda>_ _. []" 0 88 5]
    unfolding sample_request_def sample_response_def f by (simp del: datagrams.simps) blast
qed

theorem session_ids_unique_witness:
  "\<exists>t ps evs s. datagrams True (\<lambda>_ _. []) (table_new default_config)
       [(V4 1 2, sample_request, 77, 0, 0), (V4 1 2, sample_response 77, 88, 5, 5)] = Some (t, ps, evs)
     \<and> table_get t 1 = Some s \<and> {c. \<exists>s'. table_get t c = Some s' \<and> se_sess_id s' = se_sess_id s} = {1}"
proof -
  obtain t ps where t: "datagrams True (\<lambda>_ _. []) (table_new default_config)
       [(V4 1 2, sample_request, 77, 0, 0), (V4 1 2, sample_response 77, 88, 5, 5)] = Some (t, ps, [EvOpen 1 (V4 1 2) [9]])"
      "table_get t 1 = Some (new_session 1 1 (V4 1 2) 88 [9] 5)"
    using sample_handshake by blast
  have "c = 1" if "table_get t c = Some s'" "se_sess_id s' = se_sess_id (new_session 1 1 (V4 1 2) 88 [9] 5)" for c s'
    using session_ids_unique [OF t(1) _ that(1) t(2) that(2)] by simp
  then show ?thesis using t
    by (intro exI [of _ t] exI [of _ ps] exI [of _ "[EvOpen 1 (V4 1 2) [9]]"]
        exI [of _ "new_session 1 1 (V4 1 2) 88 [9] 5"]) blast
qed

text \<open>
  A lost challenge locks the address out: while a handshake is pending, any packet that does not
  repeat its challenge (the client's own retry of the request, or the request of another client
  behind a spoofed address) gets no answer at all and only counts as bad, and the pending entry stays.
\<close>

theorem handshake_retry_ignored:
  assumes "st_pending t peer = Some rec" "duration_since now (ph_created rec) < cfg_handshake_timeout (st_cfg t)"
    and "sendable h (f # fs)" "dh_flags h AND FLAG_HANDSHAKE \<noteq> 0" "take 8 (fr_body f) \<noteq> ph_challenge rec"
  shows "\<exists>t'. handle_datagram chk hmac4 t peer (client_packet h (f # fs)) rnd clk now = Some (t', [], [])
    \<and> st_pending t' peer = Some rec \<and> st_shards t' = st_shards t
    \<and> pkt_bad (st_stats t') = pkt_bad (st_stats t) + 1"
  using assms
  by (simp add: handle_datagram_handshake_packet handle_handshake_def purge_pending_def Let_def incr_def incr_by_def)

theorem handshake_retry_ignored_witness:
  "\<exists>t'. handle_datagram True (\<lambda>_ _. []) ((table_new default_config)\<lparr>st_pending :=
       [V4 1 2 \<mapsto> \<lparr>ph_challenge = replicate 8 0, ph_created = 0\<rparr>]\<rparr>) (V4 1 2) sample_request 77 1 1 = Some (t', [], [])
     \<and> st_pending t' (V4 1 2) = Some \<lparr>ph_challenge = replicate 8 0, ph_created = 0\<rparr>"
proof -
  let ?rec = "\<lparr>ph_challenge = replicate 8 0, ph_created = 0\<rparr>"
  let ?t = "(table_new default_config)\<lparr>st_pending := [V4 1 2 \<mapsto> ?rec]\<rparr>"
  have p: "st_pending ?t (V4 1 2) = Some ?rec" by simp
  have d: "duration_since 1 (ph_created ?rec) < cfg_handshake_timeout (st_cfg ?t)"
    by (simp add: duration_since_def table_new_def default_config_def HANDSHAKE_TIMEOUT_def)
  have n: "take 8 (fr_body (new_frame_ref 0 0 [1, 2, 3, 4, 5, 6, 7, 8])) \<noteq> ph_challenge ?rec"
    by (simp add: new_frame_ref_def numeral_eq_Suc)
  show ?thesis
    using handshake_retry_ignored [OF p d sample_sendable sample_flags n, of True "\<lambda>_ _. []" 77 1]
    unfolding sample_request_def by auto
qed


theorem no_amplification_witness:
  "sum_list (map (length \<circ> fst) (fst (snd (handle_handshake (count_in (pkt_in_update incr) (table_new default_config))
      (V4 1 2) [new_frame_ref 0 0 [1, 2, 3, 4, 5, 6, 7, 8]] 88 1)))) \<le> length sample_request"
proof -
  let ?t = "table_new default_config"
  let ?r = "handle_handshake (count_in (pkt_in_update incr) ?t) (V4 1 2) [new_frame_ref 0 0 [1, 2, 3, 4, 5, 6, 7, 8]] 88 1"
  have h: "handle_datagram True (\<lambda>_ _. []) ?t (V4 1 2) sample_request 88 1 1 = Some (fst ?r, fst (snd ?r), snd (snd ?r))"
    unfolding sample_request_def
    by (simp add: handle_datagram_handshake_packet [OF sample_sendable sample_flags])
  have "table_get ?t (of_le (subslice sample_request 4 8)) = None"
    by (simp add: table_get_def table_new_def shard_def)
  then show ?thesis using no_amplification [OF h] by blast
qed

section \<open>Authentication of session packets\<close>

text \<open>
  C20. A packet that carries an HMAC is processed only if the HMAC is right: when its connection id
  names no session, or the last four bytes are not the HMAC of the rest under that session's secret,
  the packet counts as bad and nothing else happens, in the table or outside.
\<close>

theorem forged_hmac_rejected:
  assumes "cfg_enable_hmac (st_cfg t)" "HEADER_LEN + HMAC_LEN \<le> length raw"
    and "raw ! 3 AND (FLAG_HANDSHAKE OR FLAG_HMAC) = FLAG_HMAC"
    and "\<forall>s. table_get t (of_le (subslice raw 4 8)) = Some s \<longrightarrow>
      drop (length raw - 4) raw \<noteq> hmac4 (le64 (se_secret s)) (take (length raw - 4) raw)"
  shows "handle_datagram chk hmac4 t peer raw rnd clk now = Some (count_in (pkt_bad_update incr) t, [], [])"
proof -
  have "verify_hmac hmac4 t raw = HmacBad"
    using assms by (auto simp: verify_hmac_def HMAC_LEN_def Let_def split: option.split)
  then show ?thesis by (simp add: handle_datagram_def)
qed

theorem forged_hmac_rejected_witness:
  "handle_datagram True (\<lambda>_ _. []) (table_new default_config) (V4 1 2)
     (client_packet \<lparr>dh_version = VERSION, dh_flags = FLAG_HMAC, dh_conn_id = 1, dh_seq = 0, dh_ack = 0, dh_ack_bits = 0\<rparr> []
        @ [1, 2, 3, 4]) 0 0 0
   = Some (count_in (pkt_bad_update incr) (table_new default_config), [], [])"
proof -
  let ?h = "\<lparr>dh_version = VERSION, dh_flags = FLAG_HMAC, dh_conn_id = 1, dh_seq = 0, dh_ack = 0, dh_ack_bits = 0\<rparr>"
  have s: "sendable ?h []" by (simp add: sendable_def HEADER_LEN_def MTU_def)
  have "client_packet ?h [] ! 3 = FLAG_HMAC" using client_packet_flags [OF s] by simp
  then have "(client_packet ?h [] @ [1, 2, 3, 4]) ! 3 = FLAG_HMAC"
    by (simp add: nth_append length_client_packet HEADER_LEN_def)
  then show ?thesis
    by (intro forged_hmac_rejected)
      (simp_all add: table_new_def default_config_def table_get_def shard_def length_client_packet HEADER_LEN_def
        HMAC_LEN_def flag_defs)
qed

text \<open>
  C34. But the HMAC can simply be left out. With authentication enabled, anyone who knows or guesses a
  connection id can send, from any address, a packet without the HMAC flag: the engine delivers its
  payload to the logic server as that client's data, and redirects the session to the sender.
\<close>

theorem plaintext_packet_hijacks_session:
  assumes "table_ok t" "table_get t c = Some s" "se_state s = Active" "c \<noteq> 0"
    and "sendable \<lparr>dh_version = VERSION, dh_flags = 0, dh_conn_id = c, dh_seq = q, dh_ack = a, dh_ack_bits = b\<rparr>
           [new_frame_ref CH_UNRELIABLE_UNORDERED m payload]"
  shows "\<exists>t' ps s'. handle_datagram False hmac4 t attacker
      (client_packet \<lparr>dh_version = VERSION, dh_flags = 0, dh_conn_id = c, dh_seq = q, dh_ack = a, dh_ack_bits = b\<rparr>
         [new_frame_ref CH_UNRELIABLE_UNORDERED m payload]) rnd clk now
      = Some (t', ps, [EvData (se_sess_id s) CH_UNRELIABLE_UNORDERED m payload])
    \<and> table_get t' c = Some s' \<and> se_peer s' = attacker \<and> se_sess_id s' = se_sess_id s"
proof -
  let ?h = "\<lparr>dh_version = VERSION, dh_flags = 0, dh_conn_id = c, dh_seq = q, dh_ack = a, dh_ack_bits = b\<rparr>"
  let ?f = "new_frame_ref CH_UNRELIABLE_UNORDERED m payload"
  note dec = decode_client_packet [OF assms(5)]
  have v: "verify_hmac hmac4 t (client_packet ?h [?f]) = NoHmac"
    using client_packet_flags [OF assms(5)] by (simp add: verify_hmac_def FLAG_HMAC_def)
  let ?t = "count_in (pkt_in_update incr) t"
  have ok: "table_ok ?t" using assms(1) by simp
  obtain t' ps evs where p: "handle_session_packet False ?t attacker ?h [?f] clk now = Some (t', ps, evs)"
    using handle_session_packet_total [OF _ ok] by blast
  have g: "table_get ?t (dh_conn_id ?h) = Some s" using assms(2) by simp
  have "handle_datagram False hmac4 t attacker (client_packet ?h [?f]) rnd clk now = Some (t', ps, evs)"
    using v p assms(4) by (simp add: handle_datagram_def dec Let_def)
  moreover have "\<exists>s'. table_get t' c = Some s' \<and> se_peer s' = attacker \<and> se_sess_id s' = se_sess_id s"
    using p
  proof (cases rule: handle_session_packet_SomeE)
    case unknown
    then show ?thesis using g by simp
  next
    case (known u s' st)
    then have "u = s" using g by simp
    then show ?thesis using known assms(1) by (simp add: table_get_put table_ok_def)
  qed
  moreover have "evs = [EvData (se_sess_id s) CH_UNRELIABLE_UNORDERED m payload]"
  proof -
    let ?s = "if se_peer s \<noteq> attacker then s\<lparr>se_peer := attacker\<rparr> else s"
    obtain s1 st1 fast where 1: "process_acks False (?s\<lparr>se_last_rx := now\<rparr>)
      (if se_peer s \<noteq> attacker then nat_rebind_update incr (st_stats ?t) else st_stats ?t) ?h now = Some (s1, st1, fast)"
      using process_acks_total [of False] by (metis prod_cases3)
    have "se_sess_id s1 = se_sess_id s" using process_acks_SomeD(1) [OF 1] by (auto simp: keeps_ids_def split: if_splits)
    moreover have "se_state ?s = Active" using assms(3) by simp
    ultimately show ?thesis
      using p 1 g
      by (auto simp: handle_session_packet_def Let_def dispatch_frame_def new_frame_ref_def split: bind_splits)
  qed
  ultimately show ?thesis by blast
qed

theorem plaintext_packet_hijacks_session_witness:
  "\<exists>t' ps s'. handle_datagram False (\<lambda>_ _. [1, 2, 3, 4])
      (table_put (table_new default_config) 1 (new_session 1 1 (V4 1 2) 99 [] 0)) (V4 6 6)
      (client_packet \<lparr>dh_version = VERSION, dh_flags = 0, dh_conn_id = 1, dh_seq = 0, dh_ack = 0, dh_ack_bits = 0\<rparr>
         [new_frame_ref CH_UNRELIABLE_UNORDERED 7 [42]]) 0 0 0
      = Some (t', ps, [EvData 1 CH_UNRELIABLE_UNORDERED 7 [42]])
    \<and> table_get t' 1 = Some s' \<and> se_peer s' = V4 6 6"
proof -
  let ?s = "new_session 1 1 (V4 1 2) 99 [] 0"
  let ?t = "table_put (table_new default_config) 1 ?s"
  have ok: "table_ok ?t"
    by (intro table_ok_put table_ok_new session_inv_new) (simp add: new_session_def)
  have g: "table_get ?t 1 = Some ?s"
    using table_ok_new by (simp add: table_get_put table_ok_def)
  have a: "se_state ?s = Active" "se_sess_id ?s = 1" by (simp_all add: new_session_def)
  have q: "sendable \<lparr>dh_version = VERSION, dh_flags = 0, dh_conn_id = 1, dh_seq = 0, dh_ack = 0, dh_ack_bits = 0\<rparr>
      [new_frame_ref CH_UNRELIABLE_UNORDERED 7 [42]]"
    by (simp add: sendable_def valid_frame_def new_frame_ref_def MTU_def HEADER_LEN_def ch_defs)
  show ?thesis
    using plaintext_packet_hijacks_session [OF ok g a(1) _ q, of "\<lambda>_ _. [1, 2, 3, 4]" "V4 6 6" 0 0 0] a(2) by auto
qed

section \<open>Reconnecting and aggregated frames\<close>

text \<open>
  A packet that reaches a session in its grace period resumes it and does nothing else: the logic
  server gets one \<open>Resume\<close> event with the length of the gap, and whatever frames and acknowledgements
  the packet carried are dropped, reliable ones included, without an acknowledgement.
\<close>

theorem grace_packet_resumes:
  assumes "shards_ok t" "table_get t (dh_conn_id header) = Some s" "se_state s = Grace since"
  shows "\<exists>t'. handle_session_packet chk t peer header frames clk now =
      Some (t', [], [EvResume (se_sess_id s) (resume_gap clk since)])
    \<and> table_get t' (dh_conn_id header) = Some (s\<lparr>se_peer := peer, se_state := Active, se_last_rx := now\<rparr>)"
proof -
  have "(if se_peer s \<noteq> peer then s\<lparr>se_peer := peer\<rparr> else s) = s\<lparr>se_peer := peer\<rparr>" by auto
  then show ?thesis
    using assms by (simp add: handle_session_packet_def Let_def table_get_put)
qed

theorem grace_packet_resumes_witness:
  "\<exists>t'. handle_session_packet True (table_put (table_new default_config) 1
        ((new_session 1 1 (V4 1 2) 99 [] 0)\<lparr>se_state := Grace 0\<rparr>)) (V4 1 2)
      \<lparr>dh_version = VERSION, dh_flags = 0, dh_conn_id = 1, dh_seq = 0, dh_ack = 0, dh_ack_bits = 0\<rparr>
      [new_frame_ref CH_RELIABLE_ORDERED 7 [42]] (secs 2) (secs 2) = Some (t', [], [EvResume 1 2000])"
proof -
  let ?s = "(new_session 1 1 (V4 1 2) 99 [] 0)\<lparr>se_state := Grace 0\<rparr>"
  let ?t = "table_put (table_new default_config) 1 ?s"
  let ?h = "\<lparr>dh_version = VERSION, dh_flags = 0, dh_conn_id = 1, dh_seq = 0, dh_ack = 0, dh_ack_bits = 0\<rparr>"
  have ok: "shards_ok ?t" "table_get ?t (dh_conn_id ?h) = Some ?s"
    using table_ok_new by (simp_all add: table_get_put table_ok_def shards_ok_put)
  have "resume_gap (secs 2) 0 = 2000" "se_sess_id ?s = 1" "se_state ?s = Grace 0"
    by (simp_all add: resume_gap_def as_millis_def duration_since_def new_session_def)
  then show ?thesis
    using grace_packet_resumes [OF ok, of 0 True "V4 1 2" "[new_frame_ref CH_RELIABLE_ORDERED 7 [42]]" "secs 2" "secs 2"]
    by auto
qed

lemma dispatch_ch3_seen:
  assumes "fr_ch f = CH_RELIABLE_UNORDERED" "dh_seq header \<in> set (se_ch3_seen s)"
  shows "\<exists>s' st'. dispatch_frame False header now (s, st, need) f = Some ((s', st', True), [])
    \<and> se_ch3_seen s' = se_ch3_seen s"
proof -
  obtain r b where "record_seq False (se_recv_seq s) (se_recv_bits s) (dh_seq header) = Some (r, b)"
    using record_seq_total [of False] by blast
  then show ?thesis using assms by (simp add: dispatch_frame_def Let_def ch_defs)
qed

lemma dispatch_ch3_all_seen:
  assumes "\<forall>f \<in> set fs. fr_ch f = CH_RELIABLE_UNORDERED" "dh_seq header \<in> set (se_ch3_seen s)"
  shows "\<exists>s' st' need'. dispatch_frames False header now (s, st, need) fs = Some ((s', st', need'), [])"
  using assms
proof (induction fs arbitrary: s st need)
  case Nil
  then show ?case by simp
next
  case (Cons f fs)
  obtain s1 st1 where 1: "dispatch_frame False header now (s, st, need) f = Some ((s1, st1, True), [])"
      "se_ch3_seen s1 = se_ch3_seen s"
    using dispatch_ch3_seen [of f header s now st need] Cons.prems by auto
  from Cons.IH [of s1 st1 True] Cons.prems 1 show ?case by auto
qed

text \<open>
  Frames aggregated in one datagram share its sequence number, so of several reliable-unordered
  frames in a datagram only the first is delivered: the others are taken for duplicates, and the
  acknowledgement that goes out makes the sender forget them.
\<close>

theorem aggregated_reliable_frames_lost:
  assumes "\<forall>f \<in> set (f # fs). fr_ch f = CH_RELIABLE_UNORDERED" "dh_seq header \<notin> set (se_ch3_seen s)"
  shows "\<exists>s' st' need'. dispatch_frames False header now (s, st, need) (f # fs) =
    Some ((s', st', need'), [EvData (se_sess_id s) CH_RELIABLE_UNORDERED (fr_msg_id f) (fr_body f)])"
proof -
  obtain r b where rb: "record_seq False (se_recv_seq s) (se_recv_bits s) (dh_seq header) = Some (r, b)"
    using record_seq_total [of False] by blast
  let ?s = "s\<lparr>se_recv_seq := r, se_recv_bits := b, se_ch3_seen := push_capped 256 (se_ch3_seen s) (dh_seq header)\<rparr>"
  let ?st = "pkt_bytes_in_update (incr_by (of_nat (length (fr_body f)))) st"
  have 1: "dispatch_frame False header now (s, st, need) f =
      Some ((?s, ?st, True), [EvData (se_sess_id s) CH_RELIABLE_UNORDERED (fr_msg_id f) (fr_body f)])"
    using assms rb by (simp add: dispatch_frame_def Let_def ch_defs)
  have "dh_seq header \<in> set (se_ch3_seen ?s)" by (simp add: push_capped_mem)
  with dispatch_ch3_all_seen [of fs header ?s now ?st True] assms(1) show ?thesis by (auto simp: 1)
qed

theorem aggregated_reliable_frames_lost_witness:
  "\<exists>s' st' need'. dispatch_frames False \<lparr>dh_version = VERSION, dh_flags = 0, dh_conn_id = 1, dh_seq = 5,
        dh_ack = 0, dh_ack_bits = 0\<rparr> 0 (new_session 1 9 (V4 1 2) 99 [] 0, stats_new, False)
      [new_frame_ref CH_RELIABLE_UNORDERED 7 [1], new_frame_ref CH_RELIABLE_UNORDERED 8 [2]] =
    Some ((s', st', need'), [EvData 9 CH_RELIABLE_UNORDERED 7 [1]])"
  using aggregated_reliable_frames_lost [of "new_frame_ref CH_RELIABLE_UNORDERED 7 [1]"
      "[new_frame_ref CH_RELIABLE_UNORDERED 8 [2]]"
      "\<lparr>dh_version = VERSION, dh_flags = 0, dh_conn_id = 1, dh_seq = 5, dh_ack = 0, dh_ack_bits = 0\<rparr>"
      "new_session 1 9 (V4 1 2) 99 [] 0" 0 stats_new False]
  by (simp del: dispatch_frames.simps add: new_frame_ref_def new_session_def)

end
