(* ===== verification/Lifecycle.thy ===== *)
theory Lifecycle
  imports Table
begin

text \<open>
  The maintenance half of \<open>src/session/table.rs\<close>: adaptive timeouts, the periodic \<open>maintain\<close> and
  \<open>maintain_reliable\<close>, shutdown, and the operations of the logic server on one session (look up,
  kick, budget). Lookups by session id walk the shards in order and take the first match, as the code
  does. \<open>None\<close> is a panic (\<open>Ord::clamp\<close> with its bounds the wrong way round; an overflow under
  \<open>chk\<close>).
\<close>

section \<open>Adaptive timeouts\<close>

definition clamp_duration :: "duration \<Rightarrow> duration \<Rightarrow> duration \<Rightarrow> duration option" where
  "clamp_duration d lo hi = (if hi < lo then None else Some (max lo (min d hi)))"

definition idle_grace_for :: "table_config \<Rightarrow> session \<Rightarrow> duration option" where
  "idle_grace_for cfg s =
     (if \<not> cfg_dynamic_timeouts cfg then Some (cfg_idle_grace cfg)
      else
        let srtt = millis (srtt_ms (se_rtt s)) in
        if srtt = 0 then Some (cfg_timeout_max cfg)
        else clamp_duration (srtt * 30) (cfg_timeout_min cfg) (cfg_timeout_max cfg))"

definition reconnect_grace_for :: "table_config \<Rightarrow> session \<Rightarrow> duration option" where
  "reconnect_grace_for cfg s =
     (if \<not> cfg_dynamic_timeouts cfg then Some (cfg_reconnect_grace cfg)
      else
        let srtt = millis (srtt_ms (se_rtt s)) in
        if srtt = 0 then Some (cfg_reconnect_max cfg)
        else clamp_duration (srtt * 120) (cfg_reconnect_min cfg) (cfg_reconnect_max cfg))"

section \<open>Maintenance\<close>

text \<open>One session: its new state, whether it enters the grace period, whether it is to be closed.\<close>

definition maintain_session :: "table_config \<Rightarrow> instant \<Rightarrow> session \<Rightarrow> (session \<times> bool \<times> bool) option" where
  "maintain_session cfg now s =
     (case se_state s of
        Active \<Rightarrow> do {
          d \<leftarrow> idle_grace_for cfg s;
          if d \<le> duration_since now (se_last_rx s)
          then Some (s\<lparr>se_state := Grace now\<rparr>, True, False) else Some (s, False, False)
        }
      | Grace since \<Rightarrow> do {
          d \<leftarrow> reconnect_grace_for cfg s;
          Some (s, False, d \<le> duration_since now since)
        })"

text \<open>One shard: the scan, then the removal of the sessions it collected, with an event for each.\<close>

definition maintain_shard :: "table_config \<Rightarrow> instant \<Rightarrow> shard_map
    \<Rightarrow> (shard_map \<times> nat \<times> session_event list) option" where
  "maintain_shard cfg now m = do {
     rs \<leftarrow> those (map (\<lambda>(c, s). map_option (Pair c) (maintain_session cfg now s)) m);
     Some (map (\<lambda>(c, s, _). (c, s)) (filter (\<lambda>(c, s, g, close). \<not> close) rs),
           length (filter (\<lambda>(c, s, g, close). g) rs),
           map (\<lambda>(c, s, _). EvClose (se_sess_id s) CLOSE_GRACE_TIMEOUT)
             (filter (\<lambda>(c, s, g, close). close) rs))
   }"

definition sub_by :: "nat \<Rightarrow> counter \<Rightarrow> counter" where
  "sub_by n c = (decr ^^ n) c"

definition maintain :: "session_table \<Rightarrow> instant \<Rightarrow> (session_table \<times> session_event list) option" where
  "maintain t now = do {
     rs \<leftarrow> those (map (maintain_shard (st_cfg t) now) (st_shards t));
     let evs = concat (map (\<lambda>(_, _, evs). evs) rs);
     let graced = sum_list (map (\<lambda>(_, g, _). g) rs);
     Some (t\<lparr>st_shards := map fst rs,
             st_stats := sessions_active_update (sub_by (length evs))
               (sessions_grace_update ((incr ^^ graced)) (st_stats t))\<rparr>, evs)
   }"

definition reliable_session :: "instant \<Rightarrow> session \<Rightarrow> session \<times> bytes list" where
  "reliable_session now s =
     (let rto_d = rto (se_rtt s);
          (q0, due0) = retransmit_due (se_retrans_ch2 s) now rto_d;
          (q1, due1) = retransmit_due (se_retrans_ch3 s) now rto_d
      in (s\<lparr>se_retrans_ch2 := q0, se_retrans_ch3 := q1,
            se_assembler := fa_cleanup (se_assembler s) now\<rparr>,
          map snd due0 @ map snd due1))"

definition maintain_reliable :: "session_table \<Rightarrow> instant \<Rightarrow> session_table \<times> packets" where
  "maintain_reliable t now =
     (let sent = concat (map (\<lambda>(c, s). map (\<lambda>b. (b, se_peer s)) (snd (reliable_session now s)))
                          (concat (st_shards t)))
      in (t\<lparr>st_shards := map (map (\<lambda>(c, s). (c, fst (reliable_session now s)))) (st_shards t),
            st_stats := retransmits_update ((incr ^^ length sent)) (st_stats t)\<rparr>, sent))"

definition shutdown_all :: "session_table \<Rightarrow> session_table \<times> session_event list" where
  "shutdown_all t =
     (let all = concat (st_shards t) in
      (t\<lparr>st_shards := map (\<lambda>_. []) (st_shards t),
         st_stats := sessions_active_update (sub_by (length all)) (st_stats t)\<rparr>,
       map (\<lambda>(c, s). EvClose (se_sess_id s) CLOSE_GRACE_TIMEOUT) all))"

section \<open>Operations by session id\<close>

text \<open>The first match: the index of its shard, its key, the session.\<close>

fun find_in :: "u64 \<Rightarrow> nat \<Rightarrow> shard_map list \<Rightarrow> (nat \<times> u32 \<times> session) option" where
  "find_in sess_id i [] = None"
| "find_in sess_id i (m # ms) =
     (case List.find (\<lambda>(c, s). se_sess_id s = sess_id) m of
        Some (c, s) \<Rightarrow> Some (i, c, s)
      | None \<Rightarrow> find_in sess_id (Suc i) ms)"

definition find_session :: "session_table \<Rightarrow> u64 \<Rightarrow> (nat \<times> u32 \<times> session) option" where
  "find_session t sess_id = find_in sess_id 0 (st_shards t)"

definition lookup :: "session_table \<Rightarrow> u64 \<Rightarrow> session option" where
  "lookup t sess_id = map_option (\<lambda>(_, _, s). s) (find_session t sess_id)"

definition store_at :: "session_table \<Rightarrow> nat \<Rightarrow> u32 \<Rightarrow> session \<Rightarrow> session_table" where
  "store_at t i c s = t\<lparr>st_shards := (st_shards t)[i := AList.update c s (st_shards t ! i)]\<rparr>"

definition kick_session :: "session_table \<Rightarrow> u64 \<Rightarrow> u8 \<Rightarrow> session_table \<times> session option" where
  "kick_session t sess_id reason =
     (case find_session t sess_id of
        None \<Rightarrow> (t, None)
      | Some (i, c, s) \<Rightarrow>
          (t\<lparr>st_shards := (st_shards t)[i := AList.delete c (st_shards t ! i)],
             st_stats := sessions_active_update decr (st_stats t)\<rparr>, Some s))"

definition set_budget :: "session_table \<Rightarrow> u64 \<Rightarrow> u16 \<Rightarrow> session_table" where
  "set_budget t sess_id kbps =
     (case find_session t sess_id of
        None \<Rightarrow> t
      | Some (i, c, s) \<Rightarrow> store_at t i c (s\<lparr>se_budget_kbps := Some kbps\<rparr>))"

text \<open>The sliding window of one session; the sum and the comparison are in 64 bits.\<close>

definition budget_step :: "bool \<Rightarrow> session \<Rightarrow> u64 \<Rightarrow> instant \<Rightarrow> (session \<times> bool) option" where
  "budget_step chk s bytes now =
     (case se_budget_kbps s of
        None \<Rightarrow> Some (s, True)
      | Some kbps \<Rightarrow>
          let w = dropWhile (\<lambda>(t, _). secs 1 \<le> duration_since now t) (se_bytes_window s);
              s = s\<lparr>se_bytes_window := w\<rparr>;
              used = sum_list (map snd w);
              budget_bytes = ucast kbps * 125
          in if chk \<and> 2 ^ 64 \<le> sum_list (map (unat \<circ> snd) w) + unat bytes then None
             else if budget_bytes < used + bytes then Some (s, False)
             else Some (s\<lparr>se_bytes_window := w @ [(now, bytes)]\<rparr>, True))"

definition check_budget :: "bool \<Rightarrow> session_table \<Rightarrow> u64 \<Rightarrow> u64 \<Rightarrow> instant \<Rightarrow> (session_table \<times> bool) option" where
  "check_budget chk t sess_id bytes now =
     (case find_session t sess_id of
        None \<Rightarrow> Some (t, True)
      | Some (i, c, s) \<Rightarrow> do {
          (s, ok) \<leftarrow> budget_step chk s bytes now;
          Some (store_at t i c s, ok)
        })"

definition table_is_active :: "session_table \<Rightarrow> u64 \<Rightarrow> bool" where
  "table_is_active t sess_id = (case lookup t sess_id of None \<Rightarrow> False | Some s \<Rightarrow> is_active s)"

definition for_each_session :: "session_table \<Rightarrow> session list" where
  "for_each_session t = map snd (concat (st_shards t))"

section \<open>The sessions of a table\<close>

definition live :: "session_table \<Rightarrow> u64 set" where
  "live t = {se_sess_id s |c s. table_get t c = Some s}"

lemma liveI: "table_get t c = Some s \<Longrightarrow> se_sess_id s \<in> live t"
  by (auto simp: live_def)

lemma shard_get: "shards_ok t \<Longrightarrow> i < length (st_shards t) \<Longrightarrow> (c, s) \<in> set (st_shards t ! i)
    \<Longrightarrow> shard t c = i \<and> table_get t c = Some s"
  by (force simp: shards_ok_def shard_ok_def table_get_def shard_def)

lemma get_in_shard: "shards_ok t \<Longrightarrow> table_get t c = Some s \<Longrightarrow> (c, s) \<in> set (concat (st_shards t))"
  using shard_less [of t c] by (auto simp: table_get_def dest!: map_of_SomeD)

lemma entries_iff: "shards_ok t \<Longrightarrow> (c, s) \<in> set (concat (st_shards t)) \<longleftrightarrow> table_get t c = Some s"
  using get_in_shard shard_get by (auto simp: in_set_conv_nth) fastforce

lemma distinct_concat_home:
  "(\<forall>i < length xs. distinct (xs ! i) \<and> (\<forall>x \<in> set (xs ! i). h x = k + i)) \<Longrightarrow> distinct (concat xs)"
proof (induction xs arbitrary: k)
  case Nil
  then show ?case by simp
next
  case (Cons x xs)
  have hd: "distinct x" "\<forall>y \<in> set x. h y = k" using Cons.prems by force+
  have tl: "\<forall>i < length xs. distinct (xs ! i) \<and> (\<forall>y \<in> set (xs ! i). h y = Suc k + i)"
    using Cons.prems by force
  have "h y \<noteq> k" if y: "y \<in> set (concat xs)" for y
  proof -
    obtain i where "i < length xs" "y \<in> set (xs ! i)" using y by (metis UN_iff in_set_conv_nth set_concat)
    then show ?thesis using tl by auto
  qed
  then show ?case using Cons.IH [OF tl] hd by auto
qed

lemma entries_distinct: "shards_ok t \<Longrightarrow> distinct (map fst (concat (st_shards t)))"
  unfolding map_concat
  by (rule distinct_concat_home [where h = "shard t" and k = 0])
    (auto simp: shards_ok_def shard_ok_def shard_def)

text \<open>Every sweep over the table keeps some sessions, each changed in place.\<close>

definition sweep :: "(session \<Rightarrow> bool) \<Rightarrow> (session \<Rightarrow> session) \<Rightarrow> session_table \<Rightarrow> session_table" where
  "sweep P f t = t\<lparr>st_shards := map (\<lambda>m. map (\<lambda>(c, s). (c, f s)) (filter (\<lambda>(c, s). P s) m)) (st_shards t)\<rparr>"

lemma fst_sweep: "map fst (map (\<lambda>(c, s). (c, f s)) (filter (\<lambda>(c, s). P s) m)) = map fst (filter (\<lambda>(c, s). P s) m)"
  by (induction m) auto

lemma map_of_sweep:
  "distinct (map fst m) \<Longrightarrow> map_of (map (\<lambda>(c, s). (c, f s)) (filter (\<lambda>(c, s). P s) m)) c =
     (case map_of m c of None \<Rightarrow> None | Some s \<Rightarrow> if P s then Some (f s) else None)"
proof (induction m)
  case Nil
  then show ?case by simp
next
  case (Cons e m)
  obtain c' s where e: "e = (c', s)" by force
  have "map_of m c' = None" using Cons.prems e by (simp add: map_of_eq_None_iff)
  then show ?case using Cons e by auto
qed

lemma shard_ok_sweep: "shard_ok n i m \<Longrightarrow> shard_ok n i (map (\<lambda>(c, s). (c, f s)) (filter (\<lambda>(c, s). P s) m))"
  unfolding shard_ok_def fst_sweep by (auto simp: distinct_map intro: inj_on_subset)

lemma shards_ok_sweep: "shards_ok t \<Longrightarrow> shards_ok (sweep P f t)"
  by (auto simp: shards_ok_def sweep_def intro!: shard_ok_sweep)

lemma table_get_sweep:
  "shards_ok t \<Longrightarrow> table_get (sweep P f t) c =
     (case table_get t c of None \<Rightarrow> None | Some s \<Rightarrow> if P s then Some (f s) else None)"
proof -
  assume ok: "shards_ok t"
  have "distinct (map fst (st_shards t ! shard t c))"
    using ok shard_less [OF ok, of c] by (auto simp: shards_ok_def shard_ok_def)
  from map_of_sweep [OF this, of f P c] show ?thesis
    using shard_less [OF ok, of c] by (simp add: table_get_def sweep_def shard_def)
qed

lemma sweep_ok:
  assumes "table_ok t" "\<And>s. se_conn_id (f s) = se_conn_id s" "\<And>s. session_inv s \<Longrightarrow> session_inv (f s)"
  shows "table_ok (sweep P f t)"
  using assms by (auto simp: table_ok_def sessions.all_values_def shards_ok_sweep table_get_sweep split: option.splits if_splits)

lemma sweep_ids:
  assumes "table_ok t" "ids_fresh t" "\<And>s. se_sess_id (f s) = se_sess_id s"
  shows "ids_fresh (sweep P f t)" and "live (sweep P f t) = {se_sess_id s |c s. table_get t c = Some s \<and> P s}"
proof -
  have ok: "shards_ok t" using assms(1) by (simp add: table_ok_def)
  have n: "st_next_sess_id (sweep P f t) = st_next_sess_id t" by (simp add: sweep_def)
  show "ids_fresh (sweep P f t)"
    using assms(2,3) unfolding ids_fresh_def sessions.all_values_def sessions.unique_by_def n
    by (auto simp: table_get_sweep [OF ok] split: option.splits if_splits)
  show "live (sweep P f t) = {se_sess_id s |c s. table_get t c = Some s \<and> P s}"
    using assms(3) by (force simp: live_def table_get_sweep [OF ok] split: option.splits if_splits)
qed

section \<open>Maintenance with a sound configuration\<close>

definition cfg_ok :: "table_config \<Rightarrow> bool" where
  "cfg_ok cfg \<longleftrightarrow> cfg_timeout_min cfg \<le> cfg_timeout_max cfg \<and> cfg_reconnect_min cfg \<le> cfg_reconnect_max cfg"

definition closing :: "table_config \<Rightarrow> instant \<Rightarrow> session \<Rightarrow> bool" where
  "closing cfg now s = (case se_state s of Active \<Rightarrow> False
     | Grace since \<Rightarrow> the (reconnect_grace_for cfg s) \<le> duration_since now since)"

definition aging :: "table_config \<Rightarrow> instant \<Rightarrow> session \<Rightarrow> bool" where
  "aging cfg now s \<longleftrightarrow> se_state s = Active \<and> the (idle_grace_for cfg s) \<le> duration_since now (se_last_rx s)"

definition aged :: "table_config \<Rightarrow> instant \<Rightarrow> session \<Rightarrow> session" where
  "aged cfg now s = (if aging cfg now s then s\<lparr>se_state := Grace now\<rparr> else s)"

lemma idle_grace_total: "cfg_ok cfg \<Longrightarrow> idle_grace_for cfg s = Some (the (idle_grace_for cfg s))"
  by (auto simp: idle_grace_for_def clamp_duration_def Let_def cfg_ok_def not_less)

lemma reconnect_grace_total: "cfg_ok cfg \<Longrightarrow> reconnect_grace_for cfg s = Some (the (reconnect_grace_for cfg s))"
  by (auto simp: reconnect_grace_for_def clamp_duration_def Let_def cfg_ok_def not_less)

lemma maintain_session_eq:
  "cfg_ok cfg \<Longrightarrow> maintain_session cfg now s = Some (aged cfg now s, aging cfg now s, closing cfg now s)"
proof -
  assume "cfg_ok cfg"
  then obtain d1 d2 where "idle_grace_for cfg s = Some d1" "reconnect_grace_for cfg s = Some d2"
    using idle_grace_total reconnect_grace_total by blast
  then show ?thesis
    by (cases "se_state s") (auto simp: maintain_session_def aged_def aging_def closing_def)
qed

lemma those_map_Some: "those (map (\<lambda>x. Some (f x)) xs) = Some (map f xs)"
  by (induction xs) auto

lemma maintain_shard_eq:
  assumes "cfg_ok cfg"
  shows "maintain_shard cfg now m = Some
    (map (\<lambda>(c, s). (c, aged cfg now s)) (filter (\<lambda>(c, s). \<not> closing cfg now s) m),
     length (filter (\<lambda>(c, s). aging cfg now s) m),
     map (\<lambda>(c, s). EvClose (se_sess_id s) CLOSE_GRACE_TIMEOUT) (filter (\<lambda>(c, s). closing cfg now s) m))"
proof -
  have "those (map (\<lambda>(c, s). map_option (Pair c) (maintain_session cfg now s)) m)
      = those (map (\<lambda>e. Some (case e of (c, s) \<Rightarrow> (c, aged cfg now s, aging cfg now s, closing cfg now s))) m)"
    by (intro arg_cong [of _ _ those] map_cong) (auto simp: maintain_session_eq [OF assms])
  then have r: "those (map (\<lambda>(c, s). map_option (Pair c) (maintain_session cfg now s)) m)
      = Some (map (\<lambda>(c, s). (c, aged cfg now s, aging cfg now s, closing cfg now s)) m)"
    by (simp only: those_map_Some)
  have c: "aged cfg now s = s" if "closing cfg now s" for s
    using that by (auto simp: closing_def aged_def aging_def split: session_state.splits)
  show ?thesis
    unfolding maintain_shard_def r
    by (induction m) (auto simp: c)
qed

definition closed_sessions :: "session_table \<Rightarrow> instant \<Rightarrow> session list" where
  "closed_sessions t now = filter (closing (st_cfg t) now) (for_each_session t)"

lemma maintain_eq:
  assumes "cfg_ok (st_cfg t)"
  shows "\<exists>st. maintain t now = Some ((sweep (\<lambda>s. \<not> closing (st_cfg t) now s) (aged (st_cfg t) now) t)\<lparr>st_stats := st\<rparr>,
    map (\<lambda>s. EvClose (se_sess_id s) CLOSE_GRACE_TIMEOUT) (closed_sessions t now))"
proof -
  let ?f = "\<lambda>m. (map (\<lambda>(c, s). (c, aged (st_cfg t) now s)) (filter (\<lambda>(c, s). \<not> closing (st_cfg t) now s) m),
     length (filter (\<lambda>(c, s). aging (st_cfg t) now s) m),
     map (\<lambda>(c, s). EvClose (se_sess_id s) CLOSE_GRACE_TIMEOUT) (filter (\<lambda>(c, s). closing (st_cfg t) now s) m))"
  have r: "those (map (maintain_shard (st_cfg t) now) (st_shards t)) = Some (map ?f (st_shards t))"
    unfolding those_map_Some [symmetric]
    by (intro arg_cong [of _ _ those] map_cong refl) (rule maintain_shard_eq [OF assms])
  have ev: "map (\<lambda>(c, s). EvClose (se_sess_id s) CLOSE_GRACE_TIMEOUT) (filter (\<lambda>(c, s). closing (st_cfg t) now s) m)
      = map (\<lambda>s. EvClose (se_sess_id s) CLOSE_GRACE_TIMEOUT) (filter (closing (st_cfg t) now) (map snd m))" for m
    by (induction m) auto
  have evs: "concat (map (\<lambda>(_, _, evs). evs) (map ?f ms))
      = map (\<lambda>s. EvClose (se_sess_id s) CLOSE_GRACE_TIMEOUT) (filter (closing (st_cfg t) now) (map snd (concat ms)))" for ms
    by (induction ms) (simp_all add: ev)
  have fsts: "map fst (map ?f ms) = map (\<lambda>m. map (\<lambda>(c, s). (c, aged (st_cfg t) now s))
      (filter (\<lambda>(c, s). \<not> closing (st_cfg t) now s) m)) ms" for ms
    by simp
  show ?thesis
    unfolding maintain_def r Let_def Option.bind.simps evs fsts closed_sessions_def for_each_session_def sweep_def
    by (rule exI, rule arg_cong [where f = Some], rule prod_eqI)
      (simp only: fst_conv session_table.update_convs, simp)
qed

lemma closed_sessions_iff:
  "shards_ok t \<Longrightarrow> s \<in> set (closed_sessions t now) \<longleftrightarrow> (\<exists>c. table_get t c = Some s \<and> closing (st_cfg t) now s)"
  by (simp add: closed_sessions_def for_each_session_def image_iff Bex_def split_paired_Ex entries_iff del: set_concat)

lemma distinct_session_ids:
  assumes "table_ok t" "ids_fresh t"
  shows "distinct (map se_sess_id (for_each_session t))"
proof -
  have ok: "shards_ok t" using assms(1) by (simp add: table_ok_def)
  have e: "table_get t (fst x) = Some (snd x)" if "x \<in> set (concat (st_shards t))" for x
    using that entries_iff [OF ok, of "fst x" "snd x"] by simp
  have "inj_on (se_sess_id \<circ> snd) (set (concat (st_shards t)))"
  proof (rule inj_onI)
    fix x y
    assume "x \<in> set (concat (st_shards t))" "y \<in> set (concat (st_shards t))" "(se_sess_id \<circ> snd) x = (se_sess_id \<circ> snd) y"
    then have "table_get t (fst x) = Some (snd x)" "table_get t (fst y) = Some (snd y)"
      "se_sess_id (snd x) = se_sess_id (snd y)" using e by auto
    moreover from this have "fst x = fst y" using assms(2) by (auto simp: ids_fresh_def sessions.unique_by_def)
    ultimately show "x = y" by (simp add: prod_eq_iff)
  qed
  moreover have "distinct (concat (st_shards t))"
    using entries_distinct [OF ok] by (simp add: distinct_map)
  ultimately show ?thesis by (simp add: for_each_session_def distinct_map)
qed

section \<open>Looking up by session id\<close>

lemma find_SomeD:
  assumes "List.find P xs = Some x"
  shows "x \<in> set xs" "P x"
  using assms by (induction xs) (auto split: if_splits)

lemma find_in_SomeD:
  "find_in sess_id k ms = Some (i, c, s) \<Longrightarrow>
     k \<le> i \<and> i - k < length ms \<and> (c, s) \<in> set (ms ! (i - k)) \<and> se_sess_id s = sess_id"
proof (induction sess_id k ms rule: find_in.induct)
  case (1 sess_id i)
  then show ?case by simp
next
  case (2 sess_id k m ms)
  show ?case
  proof (cases "List.find (\<lambda>(c, s). se_sess_id s = sess_id) m")
    case None
    then have "find_in sess_id (Suc k) ms = Some (i, c, s)" using 2(2) by simp
    from 2(1) [OF None this] show ?thesis by (auto simp: nth_Cons split: nat.splits)
      (metis Suc_diff_Suc Suc_le_lessD diff_Suc_Suc nat.inject)+
  next
    case (Some e)
    obtain c0 s0 where e: "e = (c0, s0)" by force
    then have "i = k" "c = c0" "s = s0" using 2(2) Some by simp_all
    moreover have "(c0, s0) \<in> set m" "se_sess_id s0 = sess_id"
      using Some [unfolded find_Some_iff] e by (auto simp: in_set_conv_nth)
    ultimately show ?thesis by simp
  qed
qed

lemma find_in_None: "find_in sess_id k ms = None \<longleftrightarrow> (\<forall>e \<in> set (concat ms). se_sess_id (snd e) \<noteq> sess_id)"
proof (induction sess_id k ms rule: find_in.induct)
  case (1 sess_id i)
  then show ?case by simp
next
  case (2 sess_id k m ms)
  show ?case
  proof (cases "List.find (\<lambda>(c, s). se_sess_id s = sess_id) m")
    case None
    then have "\<forall>e \<in> set m. se_sess_id (snd e) \<noteq> sess_id"
      unfolding find_None_iff by force
    with 2(1) [OF None] None show ?thesis by auto
  next
    case (Some e)
    obtain c s where e: "e = (c, s)" by force
    have "e \<in> set m" "case e of (c, s) \<Rightarrow> se_sess_id s = sess_id" using find_SomeD [OF Some] .
    moreover have "find_in sess_id k (m # ms) \<noteq> None" using Some e by simp
    ultimately show ?thesis using e by (auto simp: ball_Un simp del: find_in.simps)
  qed
qed

lemma find_session_SomeD:
  assumes "shards_ok t" "find_session t sess_id = Some (i, c, s)"
  shows "table_get t c = Some s" "se_sess_id s = sess_id" "i = shard t c"
  using find_in_SomeD [OF assms(2) [unfolded find_session_def]] shard_get [OF assms(1), of i c s] by auto

lemma find_session_None:
  "shards_ok t \<Longrightarrow> find_session t sess_id = None \<longleftrightarrow> sess_id \<notin> live t"
  using entries_iff [of t] by (fastforce simp: find_session_def find_in_None live_def)

lemma store_at_eq: "shards_ok t \<Longrightarrow> find_session t sess_id = Some (i, c, s) \<Longrightarrow> store_at t i c s' = table_put t c s'"
  using find_session_SomeD(3) by (simp add: store_at_def table_put_def)

lemma find_session_unique:
  assumes "table_ok t" "ids_fresh t" "table_get t c = Some s"
  shows "find_session t (se_sess_id s) = Some (shard t c, c, s)"
proof -
  have ok: "shards_ok t" using assms(1) by (simp add: table_ok_def)
  obtain i c' s' where f: "find_session t (se_sess_id s) = Some (i, c', s')"
    using find_session_None [OF ok, of "se_sess_id s"] liveI [OF assms(3)] by (cases "find_session t (se_sess_id s)") auto
  note d = find_session_SomeD [OF ok f]
  then have "c' = c" using assms(2,3) by (auto simp: ids_fresh_def sessions.unique_by_def)
  then show ?thesis using d f assms(3) by simp
qed

end
