(* ===== verification/Maintenance.thy ===== *)
theory Maintenance
  imports Lifecycle
begin

text \<open>
  What the maintenance half of the session table promises: adaptive windows that stay in range and
  grow with the round-trip time, a silent session that is put in its grace period and then closed
  (and only such a session), and a sliding-window budget that no schedule of requests exceeds.
\<close>

section \<open>Adaptive windows\<close>

lemma clamp_duration_mono:
  "clamp_duration a lo hi = Some x \<Longrightarrow> clamp_duration b lo hi = Some y \<Longrightarrow> a \<le> b \<Longrightarrow> x \<le> y"
  by (auto simp: clamp_duration_def split: if_splits)

lemma clamp_duration_bounds: "clamp_duration d lo hi = Some x \<Longrightarrow> lo \<le> x \<and> x \<le> hi"
  by (auto simp: clamp_duration_def split: if_splits)

lemma idle_grace_range:
  assumes "cfg_ok cfg" "cfg_dynamic_timeouts cfg"
  shows "\<exists>d. idle_grace_for cfg s = Some d \<and> cfg_timeout_min cfg \<le> d \<and> d \<le> cfg_timeout_max cfg"
  using idle_grace_total [OF assms(1), of s] assms
  by (auto simp: idle_grace_for_def cfg_ok_def Let_def dest: clamp_duration_bounds split: if_splits)

lemma reconnect_grace_range:
  assumes "cfg_ok cfg" "cfg_dynamic_timeouts cfg"
  shows "\<exists>d. reconnect_grace_for cfg s = Some d \<and> cfg_reconnect_min cfg \<le> d \<and> d \<le> cfg_reconnect_max cfg"
  using reconnect_grace_total [OF assms(1), of s] assms
  by (auto simp: reconnect_grace_for_def cfg_ok_def Let_def dest: clamp_duration_bounds split: if_splits)

lemma cfg_ok_default [simp]: "cfg_ok default_config" "cfg_dynamic_timeouts default_config"
  by (simp_all add: cfg_ok_def default_config_def TIMEOUT_MIN_def TIMEOUT_MAX_def RECONNECT_MIN_def RECONNECT_MAX_def)

lemma default_windows [simp]:
  "cfg_timeout_min default_config = millis 1500" "cfg_timeout_max default_config = secs 5"
  "cfg_reconnect_min default_config = secs 5" "cfg_reconnect_max default_config = secs 20"
  by (simp_all add: default_config_def TIMEOUT_MIN_def TIMEOUT_MAX_def RECONNECT_MIN_def RECONNECT_MAX_def)

text \<open>
  With the default configuration both adaptive windows are always defined (the bounds of
  \<open>clamp\<close> are the right way round, so maintenance cannot panic) and lie between 1.5 and 5 seconds,
  respectively between 5 and 20; and a session whose smoothed RTT is sampled and no larger never
  gets a longer window than one whose RTT is larger.
\<close>

theorem adaptive_windows:
  assumes "0 < srtt_ms (se_rtt s)" and "srtt_ms (se_rtt s) \<le> srtt_ms (se_rtt s')"
  shows "\<exists>i i' r r'. idle_grace_for default_config s = Some i \<and> idle_grace_for default_config s' = Some i'
     \<and> reconnect_grace_for default_config s = Some r \<and> reconnect_grace_for default_config s' = Some r'
     \<and> millis 1500 \<le> i \<and> i \<le> i' \<and> i' \<le> secs 5 \<and> secs 5 \<le> r \<and> r \<le> r' \<and> r' \<le> secs 20"
proof -
  obtain i i' where i: "idle_grace_for default_config s = Some i" "idle_grace_for default_config s' = Some i'"
    "millis 1500 \<le> i" "i' \<le> secs 5"
    using idle_grace_range [of default_config s] idle_grace_range [of default_config s'] by auto
  obtain r r' where r: "reconnect_grace_for default_config s = Some r"
    "reconnect_grace_for default_config s' = Some r'" "secs 5 \<le> r" "r' \<le> secs 20"
    using reconnect_grace_range [of default_config s] reconnect_grace_range [of default_config s'] by auto
  have "i \<le> i'"
    using i(1,2) assms by (auto simp: idle_grace_for_def Let_def intro: clamp_duration_mono)
  moreover have "r \<le> r'"
    using r(1,2) assms by (auto simp: reconnect_grace_for_def Let_def intro: clamp_duration_mono)
  ultimately show ?thesis using i r by blast
qed

definition sampled :: "rat \<Rightarrow> session" where
  "sampled ms = (new_session 1 9 (V4 1 2) 7 [] 0)\<lparr>se_rtt := \<lparr>re_srtt_ms = ms, re_rttvar_ms = 0, re_sample_count = 1\<rparr>\<rparr>"

theorem adaptive_windows_witness:
  "\<exists>i i' r r'. idle_grace_for default_config (sampled 20) = Some i
     \<and> idle_grace_for default_config (sampled 100) = Some i'
     \<and> reconnect_grace_for default_config (sampled 20) = Some r
     \<and> reconnect_grace_for default_config (sampled 100) = Some r'
     \<and> millis 1500 \<le> i \<and> i \<le> i' \<and> i' \<le> secs 5 \<and> secs 5 \<le> r \<and> r \<le> r' \<and> r' \<le> secs 20"
  by (rule adaptive_windows) (simp_all add: sampled_def srtt_ms_def f64_as_uint_def)

section \<open>One pass of maintenance\<close>

lemma maintain_pass:
  assumes "table_ok t" "cfg_ok (st_cfg t)"
  shows "\<exists>t' evs. maintain t now = Some (t', evs) \<and> table_ok t' \<and> st_cfg t' = st_cfg t
     \<and> (\<forall>c. table_get t' c = (case table_get t c of None \<Rightarrow> None
          | Some s \<Rightarrow> if closing (st_cfg t) now s then None else Some (aged (st_cfg t) now s)))
     \<and> evs = map (\<lambda>s. EvClose (se_sess_id s) CLOSE_GRACE_TIMEOUT) (closed_sessions t now)"
proof -
  let ?t' = "sweep (\<lambda>s. \<not> closing (st_cfg t) now s) (aged (st_cfg t) now) t"
  obtain st where m: "maintain t now = Some (?t'\<lparr>st_stats := st\<rparr>,
      map (\<lambda>s. EvClose (se_sess_id s) CLOSE_GRACE_TIMEOUT) (closed_sessions t now))"
    using maintain_eq [OF assms(2)] by blast
  have "table_ok ?t'"
    by (rule sweep_ok [OF assms(1)]) (simp_all add: aged_def session_inv_def)
  moreover have "table_get ?t' c = (case table_get t c of None \<Rightarrow> None
      | Some s \<Rightarrow> if closing (st_cfg t) now s then None else Some (aged (st_cfg t) now s))" for c
    using assms(1) by (simp add: table_get_sweep table_ok_def split: option.split)
  moreover have "st_cfg ?t' = st_cfg t" by (simp add: sweep_def)
  ultimately show ?thesis using m by simp
qed

lemma ids_fresh_unique:
  "ids_fresh t \<Longrightarrow> table_get t c = Some s \<Longrightarrow> table_get t c' = Some s' \<Longrightarrow> se_sess_id s' = se_sess_id s \<Longrightarrow> c' = c"
  unfolding ids_fresh_def sessions.unique_by_def by metis

lemma distinct_close_events:
  assumes "table_ok t" "ids_fresh t"
  shows "distinct (map (\<lambda>s. EvClose (se_sess_id s) CLOSE_GRACE_TIMEOUT) (closed_sessions t now))"
proof -
  have "distinct (map se_sess_id (closed_sessions t now))"
    using distinct_session_ids [OF assms] by (simp add: closed_sessions_def distinct_map_filter)
  then have "distinct (map (\<lambda>i. EvClose i CLOSE_GRACE_TIMEOUT) (map se_sess_id (closed_sessions t now)))"
    by (subst distinct_map) (simp add: inj_on_def)
  then show ?thesis by (simp add: comp_def)
qed

text \<open>
  One pass of maintenance does exactly this to every session: an active one that has been silent
  for its idle window enters the grace period at the current moment; one whose grace period has
  lasted for its reconnection window is removed and closed with the timeout reason; every other
  session is left as it is. A close is emitted for the removed sessions and for no other, once each.
\<close>

theorem maintain_outcome:
  assumes "table_ok t" "ids_fresh t" "cfg_ok (st_cfg t)"
  shows "\<exists>t' evs. maintain t now = Some (t', evs) \<and> table_ok t' \<and> distinct evs
     \<and> (\<forall>c. table_get t' c = (case table_get t c of None \<Rightarrow> None
          | Some s \<Rightarrow> (case se_state s of
                Active \<Rightarrow> Some (if the (idle_grace_for (st_cfg t) s) \<le> now - se_last_rx s
                                then s\<lparr>se_state := Grace now\<rparr> else s)
              | Grace since \<Rightarrow> if the (reconnect_grace_for (st_cfg t) s) \<le> now - since then None else Some s)))
     \<and> set evs = {EvClose (se_sess_id s) CLOSE_GRACE_TIMEOUT |c s. table_get t c = Some s \<and> table_get t' c = None}"
proof -
  obtain t' evs where m: "maintain t now = Some (t', evs)" "table_ok t'"
    "\<And>c. table_get t' c = (case table_get t c of None \<Rightarrow> None
          | Some s \<Rightarrow> if closing (st_cfg t) now s then None else Some (aged (st_cfg t) now s))"
    "evs = map (\<lambda>s. EvClose (se_sess_id s) CLOSE_GRACE_TIMEOUT) (closed_sessions t now)"
    using maintain_pass [OF assms(1,3)] by blast
  have ok: "shards_ok t" using assms(1) by (simp add: table_ok_def)
  have d: "distinct evs" unfolding m(4) by (rule distinct_close_events [OF assms(1,2)])
  have s: "set evs = {EvClose (se_sess_id s) CLOSE_GRACE_TIMEOUT |c s. table_get t c = Some s \<and> table_get t' c = None}"
    using closed_sessions_iff [OF ok, of _ now] by (fastforce simp: m(3,4) split: option.splits if_splits)
  have g: "table_get t' c = (case table_get t c of None \<Rightarrow> None
          | Some s \<Rightarrow> (case se_state s of
                Active \<Rightarrow> Some (if the (idle_grace_for (st_cfg t) s) \<le> now - se_last_rx s
                                then s\<lparr>se_state := Grace now\<rparr> else s)
              | Grace since \<Rightarrow> if the (reconnect_grace_for (st_cfg t) s) \<le> now - since then None else Some s))" for c
    by (auto simp: m(3) closing_def aged_def aging_def duration_since_def split: option.split session_state.split)
  from m(1,2) d s g show ?thesis by blast
qed

section \<open>A silent session\<close>

lemma count_list_distinct: "distinct xs \<Longrightarrow> x \<in> set xs \<Longrightarrow> count_list xs x = 1"
  by (induction xs) (auto simp: count_list_0_iff)

lemma maintain_ids_fresh:
  assumes "table_ok t" "ids_fresh t" "cfg_ok (st_cfg t)" "maintain t now = Some (t', evs)"
  shows "ids_fresh t'"
proof -
  obtain st where "t' = (sweep (\<lambda>s. \<not> closing (st_cfg t) now s) (aged (st_cfg t) now) t)\<lparr>st_stats := st\<rparr>"
    using maintain_eq [OF assms(3), of now] assms(4) by auto
  then show ?thesis using sweep_ids(1) [OF assms(1,2)] by (simp add: aged_def)
qed

text \<open>
  C31. A session whose client has gone silent is always reaped: a pass of maintenance after its idle
  window puts it in the grace period without telling the logic server anything, and a pass after its
  reconnection window removes it and reports exactly one close for its id.
\<close>

theorem silent_session_reaped:
  assumes "table_ok t" "ids_fresh t" "cfg_ok (st_cfg t)"
    and "table_get t c = Some s" "se_state s = Active"
    and "se_last_rx s + the (idle_grace_for (st_cfg t) s) \<le> now1"
    and "now1 + the (reconnect_grace_for (st_cfg t) s) \<le> now2"
  shows "\<exists>t1 evs1 t2 evs2. maintain t now1 = Some (t1, evs1) \<and> maintain t1 now2 = Some (t2, evs2)
     \<and> (\<forall>r. EvClose (se_sess_id s) r \<notin> set evs1) \<and> table_get t1 c = Some (s\<lparr>se_state := Grace now1\<rparr>)
     \<and> count_list evs2 (EvClose (se_sess_id s) CLOSE_GRACE_TIMEOUT) = 1
     \<and> table_get t2 c = None \<and> se_sess_id s \<notin> live t2"
proof -
  let ?cfg = "st_cfg t" and ?s1 = "s\<lparr>se_state := Grace now1\<rparr>" and ?ev = "EvClose (se_sess_id s) CLOSE_GRACE_TIMEOUT"
  obtain t1 evs1 where 1: "maintain t now1 = Some (t1, evs1)" "table_ok t1" "st_cfg t1 = ?cfg"
    "\<And>c. table_get t1 c = (case table_get t c of None \<Rightarrow> None
          | Some s \<Rightarrow> if closing ?cfg now1 s then None else Some (aged ?cfg now1 s))"
    "evs1 = map (\<lambda>s. EvClose (se_sess_id s) CLOSE_GRACE_TIMEOUT) (closed_sessions t now1)"
    using maintain_pass [OF assms(1,3), of now1] by blast
  have f1: "ids_fresh t1" using maintain_ids_fresh [OF assms(1-3) 1(1)] .
  have ok: "shards_ok t" "shards_ok t1" using assms(1) 1(2) by (simp_all add: table_ok_def)
  have g1: "table_get t1 c = Some ?s1"
    using assms(4-6) by (simp add: 1(4) closing_def aged_def aging_def duration_since_def)
  have u: "c' = c \<and> s' = s" if "table_get t c' = Some s'" "se_sess_id s' = se_sess_id s" for c' s'
    using ids_fresh_unique [OF assms(2,4) that] assms(4) that(1) by simp
  have n1: "EvClose (se_sess_id s) r \<notin> set evs1" for r
    using u closed_sessions_iff [OF ok(1), of _ now1] assms(5) by (auto simp: 1(5) closing_def)
  obtain t2 evs2 where 2: "maintain t1 now2 = Some (t2, evs2)" "table_ok t2"
    "\<And>c. table_get t2 c = (case table_get t1 c of None \<Rightarrow> None
          | Some s \<Rightarrow> if closing ?cfg now2 s then None else Some (aged ?cfg now2 s))"
    "evs2 = map (\<lambda>s. EvClose (se_sess_id s) CLOSE_GRACE_TIMEOUT) (closed_sessions t1 now2)"
    using maintain_pass [OF 1(2), of now2, unfolded 1(3), OF assms(3)] by blast
  have w: "reconnect_grace_for ?cfg ?s1 = reconnect_grace_for ?cfg s" by (simp add: reconnect_grace_for_def)
  have cl: "closing ?cfg now2 ?s1" using assms(7) by (simp add: closing_def w duration_since_def)
  have g2: "table_get t2 c = None" by (simp add: 2(3) g1 cl)
  have u1: "c' = c" if "table_get t1 c' = Some s'" "se_sess_id s' = se_sess_id s" for c' s'
    using ids_fresh_unique [OF f1 g1 that(1)] that(2) by simp
  have l2: "se_sess_id s \<notin> live t2"
  proof
    assume "se_sess_id s \<in> live t2"
    then obtain c' s2 where s2: "table_get t2 c' = Some s2" "se_sess_id s2 = se_sess_id s" by (auto simp: live_def)
    then obtain s' where "table_get t1 c' = Some s'" "se_sess_id s' = se_sess_id s"
      by (auto simp: 2(3) aged_def split: option.splits if_splits)
    then have "c' = c" by (rule u1)
    with s2 g2 show False by simp
  qed
  have "?s1 \<in> set (closed_sessions t1 now2)"
    using closed_sessions_iff [OF ok(2)] g1 cl 1(3) by auto
  then have m: "?ev \<in> set evs2" by (auto simp: 2(4) image_iff intro!: bexI [of _ ?s1])
  have "distinct evs2" unfolding 2(4) by (rule distinct_close_events [OF 1(2) f1])
  with m have "count_list evs2 ?ev = 1" by (simp add: count_list_distinct)
  with 1(1) 2(1) n1 g1 g2 l2 show ?thesis by blast
qed

text \<open>A table with one session, for concrete runs.\<close>

definition one_session :: session_table where
  "one_session = table_put ((table_new default_config)\<lparr>st_next_sess_id := 2\<rparr>) 1 (new_session 1 1 (V4 1 2) 7 [] 0)"

lemma one_session_simps [simp]:
  "table_ok one_session" "ids_fresh one_session" "st_cfg one_session = default_config"
  "table_get one_session c = (if c = 1 then Some (new_session 1 1 (V4 1 2) 7 [] 0) else None)"
proof -
  let ?s = "new_session 1 1 (V4 1 2) 7 [] 0" and ?t = "table_new default_config"
  have n: "table_ok ?t" by (rule table_ok_new)
  have g: "table_get ?t c = None" for c by (simp add: table_get_def table_new_def shard_def)
  have ok: "shards_ok ?t" using n by (simp add: table_ok_def)
  have f: "ids_fresh ?t" by (simp add: ids_fresh_def sessions.all_values_def sessions.unique_by_def g)
  show "table_ok one_session"
    unfolding one_session_def by (rule table_ok_put) (simp_all add: n session_inv_new, simp add: new_session_def)
  show "ids_fresh one_session"
    using ids_fresh_new_session [OF n f, of ?s 1] by (simp add: one_session_def table_new_def new_session_def)
  show "st_cfg one_session = default_config" by (simp add: one_session_def table_new_def)
  show "table_get one_session c = (if c = 1 then Some ?s else None)"
    using ok by (simp add: one_session_def table_get_put g)
qed

lemma new_session_windows:
  "idle_grace_for default_config (new_session i n p k tk t0) = Some (secs 5)"
  "reconnect_grace_for default_config (new_session i n p k tk t0) = Some (secs 20)"
  by (simp_all add: idle_grace_for_def reconnect_grace_for_def new_session_def rtt_new_def srtt_ms_def f64_as_uint_def)

theorem silent_session_reaped_witness:
  "\<exists>t1 evs1 t2 evs2. maintain one_session (secs 5) = Some (t1, evs1) \<and> maintain t1 (secs 25) = Some (t2, evs2)
     \<and> count_list evs2 (EvClose 1 CLOSE_GRACE_TIMEOUT) = 1 \<and> 1 \<notin> live t2"
proof -
  let ?s = "new_session 1 1 (V4 1 2) 7 [] 0"
  have s: "table_get one_session 1 = Some ?s" "se_state ?s = Active" "se_sess_id ?s = 1" "se_last_rx ?s = 0"
    by (simp_all, simp_all add: new_session_def)
  show ?thesis
    using silent_session_reaped [OF one_session_simps(1,2) _ s(1,2), of "secs 5" "secs 25"] s(3,4)
    by (auto simp: new_session_windows)
qed

theorem maintain_outcome_witness:
  "\<exists>t' evs. maintain one_session (secs 5) = Some (t', evs) \<and> evs = []
     \<and> table_get t' 1 = Some ((new_session 1 1 (V4 1 2) 7 [] 0)\<lparr>se_state := Grace (secs 5)\<rparr>)"
proof -
  let ?s = "new_session 1 1 (V4 1 2) 7 [] 0"
  have s: "se_state ?s = Active" "se_last_rx ?s = 0" by (simp_all add: new_session_def)
  obtain t' evs where m: "maintain one_session (secs 5) = Some (t', evs)"
    "\<forall>c. table_get t' c = (case table_get one_session c of None \<Rightarrow> None
          | Some s \<Rightarrow> (case se_state s of
                Active \<Rightarrow> Some (if the (idle_grace_for (st_cfg one_session) s) \<le> secs 5 - se_last_rx s
                                then s\<lparr>se_state := Grace (secs 5)\<rparr> else s)
              | Grace since \<Rightarrow> if the (reconnect_grace_for (st_cfg one_session) s) \<le> secs 5 - since then None else Some s))"
    "set evs = {EvClose (se_sess_id s) CLOSE_GRACE_TIMEOUT |c s. table_get one_session c = Some s \<and> table_get t' c = None}"
    using maintain_outcome [of one_session "secs 5"] by auto
  have g: "table_get t' 1 = Some (?s\<lparr>se_state := Grace (secs 5)\<rparr>)"
    using m(2) [THEN spec, of 1] by (simp add: s new_session_windows)
  have "set evs = {}" using m(3) g by auto
  with m(1) g show ?thesis by auto
qed

section \<open>Bandwidth budget\<close>

text \<open>The requests of one session in order, and those that were let through.\<close>

fun budget_run :: "bool \<Rightarrow> session \<Rightarrow> (u64 \<times> instant) list \<Rightarrow> (session \<times> (instant \<times> u64) list) option" where
  "budget_run chk s [] = Some (s, [])"
| "budget_run chk s ((bytes, now) # reqs) = do {
     (s, ok) \<leftarrow> budget_step chk s bytes now;
     (s, acc) \<leftarrow> budget_run chk s reqs;
     Some (s, if ok then (now, bytes) # acc else acc)
   }"

definition total_bytes :: "(instant \<times> u64) list \<Rightarrow> nat" where
  "total_bytes xs = sum_list (map (unat \<circ> snd) xs)"

lemma total_bytes_simps [simp]:
  "total_bytes [] = 0" "total_bytes (x # xs) = unat (snd x) + total_bytes xs"
  "total_bytes (xs @ ys) = total_bytes xs + total_bytes ys"
  by (simp_all add: total_bytes_def)

lemma total_bytes_filter_mono:
  "(\<And>x. x \<in> set xs \<Longrightarrow> P x \<Longrightarrow> Q x) \<Longrightarrow> total_bytes (filter P xs) \<le> total_bytes (filter Q xs)"
  by (induction xs) (auto simp: trans_le_add2)

lemma sum_words_unat: "total_bytes xs < 2 ^ 64 \<Longrightarrow> unat (sum_list (map snd xs)) = total_bytes xs"
proof (induction xs)
  case Nil
  then show ?case by simp
next
  case (Cons x xs)
  then have "unat (snd x) + unat (sum_list (map snd xs)) < 2 ^ LENGTH(64)" by simp
  then show ?case using Cons by (simp add: unat_add_lem [THEN iffD1])
qed

text \<open>The window of a session at time \<open>T\<close>: what was sent less than a second before.\<close>

definition recent :: "instant \<Rightarrow> (instant \<times> u64) list \<Rightarrow> (instant \<times> u64) list" where
  "recent T xs = filter (\<lambda>(t, _). T < t + secs 1) xs"

lemma recent_simps [simp]: "recent T [] = []" "recent T (xs @ ys) = recent T xs @ recent T ys"
  by (simp_all add: recent_def)

lemma drop_expired:
  assumes "sorted (map fst xs)" "T \<le> T'"
  shows "dropWhile (\<lambda>(t, _). secs 1 \<le> duration_since T' t) (recent T xs) = recent T' xs"
  using assms
proof (induction xs)
  case Nil
  then show ?case by simp
next
  case (Cons x xs)
  obtain t b where x: "x = (t, b)" by force
  show ?case
  proof (cases "T' < t + secs 1")
    case True
    have later: "T' < fst y + secs 1" if "y \<in> set xs" for y
      using Cons.prems(1) True that x by (fastforce simp: sorted_wrt_map)
    then have "recent T' xs = xs" "recent T xs = xs"
      using Cons.prems(2) by (force simp: recent_def intro!: filter_True)+
    with True Cons.prems(2) show ?thesis by (simp add: recent_def x duration_since_def)
  next
    case False
    with Cons show ?thesis by (auto simp: recent_def x duration_since_def)
  qed
qed

lemma budget_step_eq:
  assumes "se_budget_kbps s = Some kbps" "sorted (map fst acc)" "se_bytes_window s = recent T acc" "T \<le> now"
    and "unat bytes < 2 ^ 63" "total_bytes (recent now acc) \<le> unat kbps * 125"
  shows "budget_step chk s bytes now =
    (if unat kbps * 125 < total_bytes (recent now acc) + unat bytes
     then Some (s\<lparr>se_bytes_window := recent now acc\<rparr>, False)
     else Some (s\<lparr>se_bytes_window := recent now (acc @ [(now, bytes)])\<rparr>, True))"
proof -
  have k16: "unat kbps < 65536" using unsigned_less [of kbps] by simp
  then have k: "unat kbps * 125 < 2 ^ 63" by simp
  then have "total_bytes (recent now acc) + unat bytes < 2 ^ 64" using assms(5,6) by simp
  then have u: "unat (sum_list (map snd (recent now acc)) + bytes) = total_bytes (recent now acc) + unat bytes"
    using sum_words_unat [of "recent now acc"] by (simp add: unat_add_lem [THEN iffD1])
  have b: "unat (ucast kbps * 125 :: u64) = unat kbps * 125"
    using k16 by (subst unat_mult_lem [THEN iffD1]) (simp_all add: unsigned_ucast_eq take_bit_nat_eq_self)
  have n: "recent now [(now, bytes)] = [(now, bytes)]" by (simp add: recent_def)
  show ?thesis
    using assms(1) \<open>total_bytes (recent now acc) + unat bytes < 2 ^ 64\<close>
    unfolding budget_step_def assms(3) drop_expired [OF assms(2,4)]
    by (simp add: word_less_nat_alt u b Let_def total_bytes_def n)
qed

lemma budget_run_bound:
  assumes "budget_run chk s reqs = Some (s', acc')" "se_budget_kbps s = Some kbps"
    and "sorted (T # map snd reqs)" "\<forall>(b, _) \<in> set reqs. unat b < 2 ^ 63"
    and "sorted (map fst acc)" "\<forall>x \<in> set acc. fst x \<le> T" "se_bytes_window s = recent T acc"
    and "\<forall>T'. total_bytes (filter (\<lambda>(t, _). T' < t + secs 1 \<and> t \<le> T') acc) \<le> unat kbps * 125"
  shows "total_bytes (filter (\<lambda>(t, _). T' < t + secs 1 \<and> t \<le> T') (acc @ acc')) \<le> unat kbps * 125"
  using assms
proof (induction chk s reqs arbitrary: T acc acc' rule: budget_run.induct)
  case (1 chk s)
  then show ?case by simp
next
  case (2 chk s b now reqs)
  let ?in = "\<lambda>T' (t :: nat, _ :: u64). T' < t + secs 1 \<and> t \<le> T'"
  have le: "T \<le> now" "sorted (now # map snd reqs)" "unat b < 2 ^ 63" "\<forall>(b, _) \<in> set reqs. unat b < 2 ^ 63"
    using "2.prems"(3,4) by auto
  have old: "\<forall>x \<in> set acc. fst x \<le> now" using "2.prems"(6) le(1) by fastforce
  have "total_bytes (recent now acc) \<le> total_bytes (filter (?in now) acc)"
    unfolding recent_def using old by (intro total_bytes_filter_mono) force
  then have r: "total_bytes (recent now acc) \<le> unat kbps * 125"
    using "2.prems"(8) [THEN spec, of now] by simp
  note step = budget_step_eq [OF "2.prems"(2,5,7) le(1,3) r, of chk]
  show ?case
  proof (cases "unat kbps * 125 < total_bytes (recent now acc) + unat b")
    case True
    let ?s = "s\<lparr>se_bytes_window := recent now acc\<rparr>"
    have "budget_step chk s b now = Some (?s, False)" using step True by simp
    moreover from this have "budget_run chk ?s reqs = Some (s', acc')"
      using "2.prems"(1) by (auto split: bind_splits)
    ultimately show ?thesis
      using "2.IH" [of "(?s, False)" ?s False acc' now acc] "2.prems"(2,5,8) le(2,4) old by simp
  next
    case False
    let ?s = "s\<lparr>se_bytes_window := recent now (acc @ [(now, b)])\<rparr>" and ?acc = "acc @ [(now, b)]"
    have st: "budget_step chk s b now = Some (?s, True)" using step False by simp
    obtain acc2 where a: "acc' = (now, b) # acc2" "budget_run chk ?s reqs = Some (s', acc2)"
      using "2.prems"(1) st by (auto split: bind_splits)
    have bound: "total_bytes (filter (?in T') ?acc) \<le> unat kbps * 125" for T'
    proof (cases "now \<le> T'")
      case True
      have "total_bytes (filter (?in T') ?acc) \<le> total_bytes (recent now ?acc)"
        unfolding recent_def using True by (intro total_bytes_filter_mono) force
      with False show ?thesis by (simp add: recent_def)
    next
      case n: False
      then show ?thesis using "2.prems"(8) by simp
    qed
    have "sorted (map fst ?acc)" "\<forall>x \<in> set ?acc. fst x \<le> now"
      using "2.prems"(5) old by (auto simp: sorted_append)
    then show ?thesis
      using "2.IH" [of "(?s, True)" ?s True acc2 now ?acc] st a "2.prems"(2) le(2,4) bound by simp
  qed
qed

text \<open>
  C13. The budget set by the logic server is a true sliding-window limit: whatever the requests and
  their times, the bytes let through in any one-second interval never exceed the budget, 125 bytes
  per kilobit. (A single request of \<open>2^63\<close> bytes or more, which no datagram batch reaches, could wrap
  the 64-bit sum.)
\<close>

theorem budget_never_exceeded:
  assumes "budget_run chk s reqs = Some (s', acc)" "se_budget_kbps s = Some kbps" "se_bytes_window s = []"
    and "sorted (map snd reqs)" "\<forall>(b, _) \<in> set reqs. unat b < 2 ^ 63"
  shows "total_bytes (filter (\<lambda>(t, _). T < t + secs 1 \<and> t \<le> T) acc) \<le> unat kbps * 125"
  using budget_run_bound [OF assms(1,2), of 0 "[]" T] assms(3-5) by simp

theorem budget_never_exceeded_witness:
  "\<exists>s'. budget_run True ((new_session 1 1 (V4 1 2) 7 [] 0)\<lparr>se_budget_kbps := Some 8\<rparr>)
      [(600, 0), (600, 5), (600, secs 1)] = Some (s', [(0, 600), (secs 1, 600)])
    \<and> total_bytes (filter (\<lambda>(t, _). secs 1 < t + secs 1 \<and> t \<le> secs 1) [(0, 600), (secs 1, 600)]) \<le> 1000"
proof -
  let ?s = "(new_session 1 1 (V4 1 2) 7 [] 0)\<lparr>se_budget_kbps := Some 8\<rparr>"
  obtain s' where r: "budget_run True ?s [(600, 0), (600, 5), (600, secs 1)] = Some (s', [(0, 600), (secs 1, 600)])"
    by (simp add: budget_step_def new_session_def Let_def duration_since_def)
  have "se_budget_kbps ?s = Some 8" "se_bytes_window ?s = []" by (simp_all add: new_session_def)
  from budget_never_exceeded [OF r this, of "secs 1"] r show ?thesis by simp
qed

end
