(* ===== verification/Outbound.thy ===== *)
theory Outbound
  imports Maintenance Inbound
begin

text \<open>
  The outbound path of \<open>src/session/table.rs\<close>: \<open>pack_outbound\<close> turns a message of the logic server
  into one datagram, or into the fragments of a long reliable ordered message, each authenticated
  and, on a reliable channel, kept for retransmission. An early return leaves the changes made so
  far in the session, so every step gives back the session beside its result.
\<close>

section \<open>Packing\<close>

definition attach_hmac :: "(bytes \<Rightarrow> bytes \<Rightarrow> bytes) \<Rightarrow> table_config \<Rightarrow> session \<Rightarrow> bytes \<Rightarrow> bytes" where
  "attach_hmac hmac4 cfg s bytes =
     (if cfg_enable_hmac cfg then bytes @ hmac4 (le64 (se_secret s)) bytes else bytes)"

definition out_header :: "table_config \<Rightarrow> session \<Rightarrow> u8 \<Rightarrow> u16 \<times> u32 \<Rightarrow> u16 \<Rightarrow> datagram_header" where
  "out_header cfg s flags ack seq =
     \<lparr>dh_version = VERSION, dh_flags = flags OR (if cfg_enable_hmac cfg then FLAG_HMAC else 0),
      dh_conn_id = se_conn_id s, dh_seq = seq, dh_ack = fst ack, dh_ack_bits = snd ack\<rparr>"

text \<open>One datagram: the sequence number is taken, then the datagram is encoded, authenticated and queued.\<close>

definition queue_for :: "u8 \<Rightarrow> session \<Rightarrow> retransmit_queue option" where
  "queue_for ch s = (if ch = CH_RELIABLE_ORDERED then Some (se_retrans_ch2 s)
     else if ch = CH_RELIABLE_UNORDERED then Some (se_retrans_ch3 s) else None)"

definition set_queue_for :: "u8 \<Rightarrow> retransmit_queue \<Rightarrow> session \<Rightarrow> session" where
  "set_queue_for ch q s = (if ch = CH_RELIABLE_ORDERED then s\<lparr>se_retrans_ch2 := q\<rparr> else s\<lparr>se_retrans_ch3 := q\<rparr>)"

definition send_one :: "(bytes \<Rightarrow> bytes \<Rightarrow> bytes) \<Rightarrow> table_config \<Rightarrow> u16 \<times> u32 \<Rightarrow> instant \<Rightarrow> u8 \<Rightarrow> u8 \<Rightarrow> u16
    \<Rightarrow> session \<Rightarrow> bytes \<Rightarrow> session \<times> (bytes \<times> socket_addr) res" where
  "send_one hmac4 cfg ack now flags ch msg_id s body =
     (let seq = se_send_seq s;
          s = s\<lparr>se_send_seq := seq + 1\<rparr>;
          header = out_header cfg s flags ack seq
      in case encode header [new_frame_ref ch msg_id body] [] of
           Inl e \<Rightarrow> (s, Inl e)
         | Inr (bytes, _) \<Rightarrow>
             let bytes = attach_hmac hmac4 cfg s bytes in
             case queue_for ch s of
               None \<Rightarrow> (s, Inr (bytes, se_peer s))
             | Some q \<Rightarrow>
                 (case rq_push q seq bytes now of
                    Inl e \<Rightarrow> (s, Inl e)
                  | Inr q \<Rightarrow> (set_queue_for ch q s, Inr (bytes, se_peer s))))"

fun send_all :: "(bytes \<Rightarrow> bytes \<Rightarrow> bytes) \<Rightarrow> table_config \<Rightarrow> u16 \<times> u32 \<Rightarrow> instant \<Rightarrow> u8 \<Rightarrow> u8 \<Rightarrow> u16
    \<Rightarrow> session \<Rightarrow> bytes list \<Rightarrow> session \<times> packets res" where
  "send_all hmac4 cfg ack now flags ch msg_id s [] = (s, Inr [])"
| "send_all hmac4 cfg ack now flags ch msg_id s (part # parts) =
     (case send_one hmac4 cfg ack now flags ch msg_id s part of
        (s, Inl e) \<Rightarrow> (s, Inl e)
      | (s, Inr p) \<Rightarrow>
          (case send_all hmac4 cfg ack now flags ch msg_id s parts of
             (s, Inl e) \<Rightarrow> (s, Inl e)
           | (s, Inr ps) \<Rightarrow> (s, Inr (p # ps))))"

text \<open>A message of one session; the outer \<open>None\<close> is the panic \<open>split\<close> has for a chunk size of zero.\<close>

definition pack_session :: "(bytes \<Rightarrow> bytes \<Rightarrow> bytes) \<Rightarrow> table_config \<Rightarrow> instant \<Rightarrow> u8 \<Rightarrow> u16 \<Rightarrow> bytes
    \<Rightarrow> session \<Rightarrow> (session \<times> packets res) option" where
  "pack_session hmac4 cfg now ch msg_id payload s =
     (let ack = compute_ack s in
      if ch = CH_RELIABLE_ORDERED \<and> FRAGMENT_THRESHOLD < length payload then do {
        let group_id = se_frag_group_id s;
        let s = s\<lparr>se_frag_group_id := group_id + 1\<rparr>;
        let first_seq = se_send_seq s;
        parts \<leftarrow> split_payload payload group_id first_seq FRAGMENT_THRESHOLD;
        Some (send_all hmac4 cfg ack now FLAG_FRAGMENT ch msg_id s parts)
      }
      else Some (send_all hmac4 cfg ack now 0 ch msg_id s [payload]))"

definition pack_outbound :: "(bytes \<Rightarrow> bytes \<Rightarrow> bytes) \<Rightarrow> session_table \<Rightarrow> instant \<Rightarrow> u64 \<Rightarrow> u8 \<Rightarrow> u16 \<Rightarrow> bytes
    \<Rightarrow> (session_table \<times> packets res) option" where
  "pack_outbound hmac4 t now sess_id ch msg_id payload =
     (if 3 < ch then Some (t, proto_err (BadChannel ch))
      else
        (case find_session t sess_id of
           None \<Rightarrow> Some (t, Inl (ErrSessionNotFound sess_id))
         | Some (i, c, s) \<Rightarrow>
             if \<not> is_active s then Some (t, Inl (ErrSessionNotFound sess_id))
             else do {
               (s, r) \<leftarrow> pack_session hmac4 (st_cfg t) now ch msg_id payload s;
               let t = store_at t i c s;
               case r of
                 Inl e \<Rightarrow> Some (t, Inl e)
               | Inr out \<Rightarrow>
                   Some (count_in (pkt_bytes_out_update (incr_by (of_nat (sum_list (map (length \<circ> fst) out))))
                          \<circ> pkt_out_update (incr_by (of_nat (length out)))) t, Inr out)
             }))"

section \<open>What a send changes\<close>

lemma send_one_frame:
  assumes "send_one hmac4 cfg ack now flags ch msg_id s body = (s', r)"
  shows "keeps_ids s s'" and "se_send_seq s' = se_send_seq s + 1" and "session_inv s \<Longrightarrow> session_inv s'"
    and "compute_ack s' = compute_ack s"
  using assms
  by (auto simp: send_one_def keeps_ids_def session_inv_def rq_push_def set_queue_for_def queue_for_def
      compute_ack_def seq_known_def RETRANSMIT_QUEUE_CAP_def Let_def split: sum.splits if_splits option.splits)

lemma send_all_frame:
  assumes "send_all hmac4 cfg ack now flags ch msg_id s parts = (s', r)"
  shows "keeps_ids s s' \<and> (session_inv s \<longrightarrow> session_inv s') \<and> compute_ack s' = compute_ack s"
  using assms
proof (induction parts arbitrary: s s' r)
  case Nil
  then show ?case by simp
next
  case (Cons part parts)
  obtain s1 r1 where 1: "send_one hmac4 cfg ack now flags ch msg_id s part = (s1, r1)" by force
  obtain s2 r2 where 2: "send_all hmac4 cfg ack now flags ch msg_id s1 parts = (s2, r2)" by force
  from Cons.IH [OF 2] send_one_frame [OF 1] Cons.prems 1 2 show ?case
    by (auto split: sum.splits dest: keeps_ids_trans)
qed

lemma split_threshold: "\<exists>parts. split_payload payload g f FRAGMENT_THRESHOLD = Some parts"
  by (simp add: split_payload_def FRAGMENT_THRESHOLD_def)

lemma pack_session_SomeD:
  assumes "pack_session hmac4 cfg now ch msg_id payload s = Some (s', r)"
  shows "keeps_ids s s' \<and> (session_inv s \<longrightarrow> session_inv s')"
proof (cases "ch = CH_RELIABLE_ORDERED \<and> FRAGMENT_THRESHOLD < length payload")
  case True
  let ?s = "s\<lparr>se_frag_group_id := se_frag_group_id s + 1\<rparr>"
  obtain parts where "send_all hmac4 cfg (compute_ack s) now FLAG_FRAGMENT ch msg_id ?s parts = (s', r)"
    using assms True by (auto simp: pack_session_def Let_def split: bind_splits)
  from send_all_frame [OF this] show ?thesis by (simp add: keeps_ids_def session_inv_def)
next
  case False
  then have "send_all hmac4 cfg (compute_ack s) now 0 ch msg_id s [payload] = (s', r)"
    using assms by (auto simp: pack_session_def Let_def simp del: send_all.simps)
  from send_all_frame [OF this] show ?thesis by simp
qed

lemma pack_session_total: "\<exists>s' r. pack_session hmac4 cfg now ch msg_id payload s = Some (s', r)"
proof -
  obtain parts where "split_payload payload (se_frag_group_id s) (se_send_seq s) FRAGMENT_THRESHOLD = Some parts"
    using split_threshold by blast
  then show ?thesis by (simp add: pack_session_def Let_def del: send_all.simps)
qed

section \<open>One datagram\<close>

definition out_packet :: "(bytes \<Rightarrow> bytes \<Rightarrow> bytes) \<Rightarrow> table_config \<Rightarrow> session \<Rightarrow> u16 \<times> u32 \<Rightarrow> u8 \<Rightarrow> u8 \<Rightarrow> u16 \<Rightarrow> bytes \<Rightarrow> bytes" where
  "out_packet hmac4 cfg s ack flags ch msg_id body =
     attach_hmac hmac4 cfg s (client_packet (out_header cfg s flags ack (se_send_seq s)) [new_frame_ref ch msg_id body])"

lemma encode_out:
  assumes "ch \<le> 3" "msg_id \<le> 0x0FFF" "length body \<le> 1180"
  shows "sendable (out_header cfg s flags ack seq) [new_frame_ref ch msg_id body]"
    and "encode (out_header cfg s flags ack seq) [new_frame_ref ch msg_id body] [] =
      Inr (client_packet (out_header cfg s flags ack seq) [new_frame_ref ch msg_id body], 20 + length body)"
proof -
  show "sendable (out_header cfg s flags ack seq) [new_frame_ref ch msg_id body]"
    using assms by (simp add: sendable_def out_header_def valid_frame_def new_frame_ref_def HEADER_LEN_def MTU_def)
  then show "encode (out_header cfg s flags ack seq) [new_frame_ref ch msg_id body] [] =
      Inr (client_packet (out_header cfg s flags ack seq) [new_frame_ref ch msg_id body], 20 + length body)"
    by (subst encode_Inr_iff) (simp add: sendable_def client_packet_def HEADER_LEN_def new_frame_ref_def)
qed

lemma out_packet_send_seq [simp]:
  "attach_hmac hmac4 cfg (s\<lparr>se_send_seq := q\<rparr>) b = attach_hmac hmac4 cfg s b"
  "out_header cfg (s\<lparr>se_send_seq := q\<rparr>) = out_header cfg s"
  "queue_for ch (s\<lparr>se_send_seq := q\<rparr>) = queue_for ch s"
  by (simp_all add: attach_hmac_def out_header_def queue_for_def fun_eq_iff)

lemma send_one_eq:
  assumes "ch \<le> 3" "msg_id \<le> 0x0FFF" "length body \<le> 1180"
  shows "send_one hmac4 cfg ack now flags ch msg_id s body =
    (let pkt = out_packet hmac4 cfg s ack flags ch msg_id body;
         s' = s\<lparr>se_send_seq := se_send_seq s + 1\<rparr>
     in case queue_for ch s of
          None \<Rightarrow> (s', Inr (pkt, se_peer s))
        | Some q \<Rightarrow> if RETRANSMIT_QUEUE_CAP \<le> length (rq_entries q) then (s', proto_err RetransmitOverflow)
            else (set_queue_for ch (q\<lparr>rq_entries := rq_entries q @
                    [\<lparr>pp_seq = se_send_seq s, pp_sent_at = now, pp_datagram = pkt\<rparr>]\<rparr>) s', Inr (pkt, se_peer s)))"
  by (simp add: send_one_def encode_out(2) [OF assms] out_packet_def rq_push_def Let_def split: option.split)

text \<open>What the wire carries: the packet passes the table's own HMAC check and decodes to its parts.\<close>

lemma decode_out_packet:
  assumes "ch \<le> 3" "msg_id \<le> 0x0FFF" "length body \<le> 1180"
  shows "decode (client_packet (out_header cfg s flags ack seq) [new_frame_ref ch msg_id body]) =
    Inr (out_header cfg s flags ack seq, [new_frame_ref ch msg_id body])"
  by (rule decode_client_packet [OF encode_out(1) [OF assms]])

lemma length_out_packet:
  assumes "length (hmac4 (le64 (se_secret s)) (client_packet (out_header cfg s flags ack (se_send_seq s)) [new_frame_ref ch msg_id body])) = 4"
  shows "length (out_packet hmac4 cfg s ack flags ch msg_id body) = 20 + length body + (if cfg_enable_hmac cfg then 4 else 0)"
  using assms by (simp add: out_packet_def attach_hmac_def length_client_packet HEADER_LEN_def new_frame_ref_def)

lemma out_flags: "flags AND FLAG_HANDSHAKE = 0 \<Longrightarrow> cfg_enable_hmac cfg \<Longrightarrow>
    dh_flags (out_header cfg s flags ack seq) AND (FLAG_HANDSHAKE OR FLAG_HMAC) = FLAG_HMAC"
proof -
  assume f: "flags AND FLAG_HANDSHAKE = 0" and e: "cfg_enable_hmac cfg"
  have "(flags OR FLAG_HMAC) AND (FLAG_HANDSHAKE OR FLAG_HMAC) = (flags AND FLAG_HANDSHAKE) OR FLAG_HMAC"
    by (rule bit_word_eqI) (auto simp: bit_or_iff bit_and_iff)
  then show ?thesis using e by (simp add: out_header_def f)
qed

lemma verify_out_packet:
  assumes "ch \<le> 3" "msg_id \<le> 0x0FFF" "length body \<le> 1180" "flags AND FLAG_HANDSHAKE = 0"
    and "\<And>k d. length (hmac4 k d) = 4" "table_get t (se_conn_id s) = Some s'" "se_secret s' = se_secret s"
    and "cfg_enable_hmac (st_cfg t)"
  shows "verify_hmac hmac4 t (out_packet hmac4 (st_cfg t) s ack flags ch msg_id body) =
    HmacOk (client_packet (out_header (st_cfg t) s flags ack (se_send_seq s)) [new_frame_ref ch msg_id body])"
proof -
  let ?h = "out_header (st_cfg t) s flags ack (se_send_seq s)"
  have "table_get t (dh_conn_id ?h) = Some s'" using assms(6) by (simp add: out_header_def)
  from verify_signed [OF encode_out(1) [OF assms(1-3)] out_flags [OF assms(4,8)] this assms(8,5)] show ?thesis
    using assms(7,8) by (simp add: out_packet_def attach_hmac_def)
qed

section \<open>A message of the logic server\<close>

lemma pack_outbound_one:
  assumes "shards_ok t" "find_session t sess_id = Some (i, c, s)" "se_state s = Active" "ch \<le> 3"
    and "ch = CH_RELIABLE_ORDERED \<Longrightarrow> length payload \<le> FRAGMENT_THRESHOLD"
  shows "\<exists>st. pack_outbound hmac4 t now sess_id ch msg_id payload =
    (case send_one hmac4 (st_cfg t) (compute_ack s) now 0 ch msg_id s payload of
       (s', Inl e) \<Rightarrow> Some (table_put t c s', Inl e)
     | (s', Inr p) \<Rightarrow> Some ((table_put t c s')\<lparr>st_stats := st\<rparr>, Inr [p]))"
proof -
  note put = store_at_eq [OF assms(1,2)]
  have p: "pack_session hmac4 (st_cfg t) now ch msg_id payload s =
      Some (send_all hmac4 (st_cfg t) (compute_ack s) now 0 ch msg_id s [payload])"
    using assms(5) by (auto simp: pack_session_def Let_def simp del: send_all.simps)
  show ?thesis
    using assms(2-4) put
    by (auto simp: pack_outbound_def p is_active_def Let_def split: prod.split sum.split)
qed

lemma queue_for_other [simp]: "ch = CH_RELIABLE_ORDERED \<or> ch = CH_RELIABLE_UNORDERED \<Longrightarrow>
    queue_for ch (set_queue_for ch q s) = Some q"
  by (auto simp: queue_for_def set_queue_for_def CH_RELIABLE_ORDERED_def CH_RELIABLE_UNORDERED_def)

lemma queue_for_Some: "queue_for ch s = Some q \<Longrightarrow> ch = CH_RELIABLE_ORDERED \<or> ch = CH_RELIABLE_UNORDERED"
  by (auto simp: queue_for_def split: if_splits)

lemma set_queue_fields [simp]:
  "se_secret (set_queue_for ch q s) = se_secret s" "se_send_seq (set_queue_for ch q s) = se_send_seq s"
  "se_state (set_queue_for ch q s) = se_state s"
  by (simp_all add: set_queue_for_def)

lemma send_one_room:
  assumes "ch \<le> 3" "msg_id \<le> 0x0FFF" "length body \<le> 1180"
    and "\<And>q. queue_for ch s = Some q \<Longrightarrow> length (rq_entries q) < 64"
  obtains s' where "send_one hmac4 cfg ack now flags ch msg_id s body =
      (s', Inr (out_packet hmac4 cfg s ack flags ch msg_id body, se_peer s))"
    "se_secret s' = se_secret s" "se_send_seq s' = se_send_seq s + 1"
    "queue_for ch s' = map_option (\<lambda>q. q\<lparr>rq_entries := rq_entries q @
        [\<lparr>pp_seq = se_send_seq s, pp_sent_at = now,
          pp_datagram = out_packet hmac4 cfg s ack flags ch msg_id body\<rparr>]\<rparr>) (queue_for ch s)"
proof (cases "queue_for ch s")
  case None
  then show thesis
    by (intro that [of "s\<lparr>se_send_seq := se_send_seq s + 1\<rparr>"]) (simp_all add: send_one_eq [OF assms(1-3)] Let_def)
next
  case (Some q)
  have "\<not> RETRANSMIT_QUEUE_CAP \<le> length (rq_entries q)" using assms(4) [OF Some] by (simp add: RETRANSMIT_QUEUE_CAP_def)
  then show thesis
    using Some queue_for_Some [OF Some]
    by (intro that [of "set_queue_for ch (q\<lparr>rq_entries := rq_entries q @ [\<lparr>pp_seq = se_send_seq s, pp_sent_at = now,
          pp_datagram = out_packet hmac4 cfg s ack flags ch msg_id body\<rparr>]\<rparr>) (s\<lparr>se_send_seq := se_send_seq s + 1\<rparr>)"])
      (simp_all add: send_one_eq [OF assms(1-3)] Let_def)
qed

text \<open>
  C16. A message of the logic server to an active session, small enough for one datagram and with room
  in its channel's queue, goes out as exactly one datagram to the session's current address: it
  passes the HMAC check under the session secret, decodes to the next sequence number, the current
  acknowledgement and the message itself, the sequence number is consumed, and on a reliable channel
  exactly this datagram is kept for retransmission.
\<close>

theorem outbound_message_delivered:
  assumes "table_ok t" "find_session t sess_id = Some (i, c, s)" "se_state s = Active"
    and "ch \<le> 3" "msg_id \<le> 0x0FFF" "length payload \<le> 1180" "ch = CH_RELIABLE_ORDERED \<Longrightarrow> length payload \<le> 1100"
    and "\<And>q. queue_for ch s = Some q \<Longrightarrow> length (rq_entries q) < 64"
    and "cfg_enable_hmac (st_cfg t)" "\<And>k d. length (hmac4 k d) = 4"
  shows "\<exists>t' pkt body s'. pack_outbound hmac4 t now sess_id ch msg_id payload = Some (t', Inr [(pkt, se_peer s)])
    \<and> verify_hmac hmac4 t' pkt = HmacOk body
    \<and> decode body = Inr (\<lparr>dh_version = VERSION, dh_flags = FLAG_HMAC, dh_conn_id = c, dh_seq = se_send_seq s,
          dh_ack = fst (compute_ack s), dh_ack_bits = snd (compute_ack s)\<rparr>, [new_frame_ref ch msg_id payload])
    \<and> table_get t' c = Some s' \<and> se_send_seq s' = se_send_seq s + 1
    \<and> queue_for ch s' = map_option (\<lambda>q. q\<lparr>rq_entries := rq_entries q @
          [\<lparr>pp_seq = se_send_seq s, pp_sent_at = now, pp_datagram = pkt\<rparr>]\<rparr>) (queue_for ch s)"
proof -
  let ?cfg = "st_cfg t" and ?ack = "compute_ack s"
  let ?h = "out_header ?cfg s 0 ?ack (se_send_seq s)" and ?pkt = "out_packet hmac4 ?cfg s ?ack 0 ch msg_id payload"
  have sh: "shards_ok t" using assms(1) by (simp add: table_ok_def)
  have get: "table_get t c = Some s" using find_session_SomeD(1) [OF sh assms(2)] .
  have c: "se_conn_id s = c" using table_ok_getD [OF assms(1) get] by simp
  have h: "?h = \<lparr>dh_version = VERSION, dh_flags = FLAG_HMAC, dh_conn_id = c, dh_seq = se_send_seq s,
      dh_ack = fst ?ack, dh_ack_bits = snd ?ack\<rparr>" using assms(9) c by (simp add: out_header_def)
  obtain s' where s': "send_one hmac4 ?cfg ?ack now 0 ch msg_id s payload = (s', Inr (?pkt, se_peer s))"
      "se_secret s' = se_secret s" "se_send_seq s' = se_send_seq s + 1"
      "queue_for ch s' = map_option (\<lambda>q. q\<lparr>rq_entries := rq_entries q @
          [\<lparr>pp_seq = se_send_seq s, pp_sent_at = now, pp_datagram = ?pkt\<rparr>]\<rparr>) (queue_for ch s)"
    using send_one_room [OF assms(4-6,8)] by blast
  obtain st where t': "pack_outbound hmac4 t now sess_id ch msg_id payload =
      Some ((table_put t c s')\<lparr>st_stats := st\<rparr>, Inr [(?pkt, se_peer s)])"
    using pack_outbound_one [OF sh assms(2-4), of payload hmac4 now msg_id] assms(7) s'(1) by (auto simp: FRAGMENT_THRESHOLD_def)
  let ?t = "(table_put t c s')\<lparr>st_stats := st\<rparr>"
  have g: "table_get ?t c = Some s'" "st_cfg ?t = ?cfg" by (simp_all add: table_get_put [OF sh])
  have "verify_hmac hmac4 ?t ?pkt = HmacOk (client_packet ?h [new_frame_ref ch msg_id payload])"
    using verify_out_packet [where flags = 0 and t = ?t and s = s and s' = s' and ack = ?ack, OF assms(4-6) _ assms(10)] g s'(2) assms(9) c by simp
  moreover have "decode (client_packet ?h [new_frame_ref ch msg_id payload]) = Inr (?h, [new_frame_ref ch msg_id payload])"
    by (rule decode_out_packet [OF assms(4-6)])
  ultimately show ?thesis
    using t' g(1) s'(3,4) h
    by (intro exI [of _ ?t] exI [of _ ?pkt] exI [of _ "client_packet ?h [new_frame_ref ch msg_id payload]"] exI [of _ s']) auto
qed

theorem outbound_message_delivered_witness:
  "\<exists>t' pkt body. pack_outbound (\<lambda>_ _. [1, 2, 3, 4]) one_session 9 1 CH_RELIABLE_ORDERED 5 [7, 7] = Some (t', Inr [(pkt, V4 1 2)])
    \<and> verify_hmac (\<lambda>_ _. [1, 2, 3, 4]) t' pkt = HmacOk body
    \<and> decode body = Inr (\<lparr>dh_version = VERSION, dh_flags = FLAG_HMAC, dh_conn_id = 1, dh_seq = 0,
          dh_ack = fst (compute_ack (new_session 1 1 (V4 1 2) 7 [] 0)),
          dh_ack_bits = snd (compute_ack (new_session 1 1 (V4 1 2) 7 [] 0))\<rparr>, [new_frame_ref CH_RELIABLE_ORDERED 5 [7, 7]])"
proof -
  let ?s = "new_session 1 1 (V4 1 2) 7 [] 0"
  have g: "table_get one_session 1 = Some ?s" "se_sess_id ?s = 1" "se_peer ?s = V4 1 2" "se_state ?s = Active" "se_send_seq ?s = 0"
    by (simp_all, simp_all add: new_session_def)
  have f: "find_session one_session 1 = Some (shard one_session 1, 1, ?s)"
    using find_session_unique [OF one_session_simps(1,2) g(1)] g(2) by simp
  have q: "length (rq_entries q) < 64" if "queue_for CH_RELIABLE_ORDERED ?s = Some q" for q
    using that by (auto simp: queue_for_def new_session_def rq_new_def)
  have e: "cfg_enable_hmac (st_cfg one_session)" by (simp add: default_config_def)
  have c: "CH_RELIABLE_ORDERED \<le> 3" "(5 :: u16) \<le> 0x0FFF" "length [7, 7 :: u8] \<le> 1180" "length [7, 7 :: u8] \<le> 1100"
    by (simp_all add: CH_RELIABLE_ORDERED_def)
  show ?thesis
    using outbound_message_delivered [OF one_session_simps(1) f g(4) c(1-3) c(4) q e, of "\<lambda>_ _. [1, 2, 3, 4]" 9] g(3,5) by auto
qed

section \<open>Limits\<close>

lemma decode_too_long: "MTU < length buf \<Longrightarrow> \<exists>e. decode buf = Inl e"
  using decode_InrD(2) [of buf] by (cases "decode buf") fastforce+

text \<open>
  The MTU is checked before the HMAC is attached: with authentication enabled an unreliable
  message of 1177 to 1180 bytes is accepted and leaves the engine as a datagram of 1201 to 1204
  bytes, which \<open>decode\<close> itself rejects as too long if it sees the packet as sent.
\<close>

theorem hmac_exceeds_mtu:
  assumes "table_ok t" "find_session t sess_id = Some (i, c, s)" "se_state s = Active"
    and "ch \<le> 1" "msg_id \<le> 0x0FFF" "1176 < length payload" "length payload \<le> 1180"
    and "cfg_enable_hmac (st_cfg t)" "\<And>k d. length (hmac4 k d) = 4"
  shows "\<exists>t' pkt e. pack_outbound hmac4 t now sess_id ch msg_id payload = Some (t', Inr [(pkt, se_peer s)])
    \<and> length pkt = length payload + 24 \<and> MTU < length pkt \<and> decode pkt = Inl e"
proof -
  let ?pkt = "out_packet hmac4 (st_cfg t) s (compute_ack s) 0 ch msg_id payload"
  have sh: "shards_ok t" using assms(1) by (simp add: table_ok_def)
  have ch: "ch \<noteq> CH_RELIABLE_ORDERED" "ch \<noteq> CH_RELIABLE_UNORDERED" "ch \<le> 3"
    using assms(4) by (auto simp: CH_RELIABLE_ORDERED_def CH_RELIABLE_UNORDERED_def word_le_nat_alt)
  then have "queue_for ch s = None" by (simp add: queue_for_def)
  then have "send_one hmac4 (st_cfg t) (compute_ack s) now 0 ch msg_id s payload =
      (s\<lparr>se_send_seq := se_send_seq s + 1\<rparr>, Inr (?pkt, se_peer s))"
    by (simp add: send_one_eq [OF ch(3) assms(5,7)] Let_def)
  then obtain t' where t': "pack_outbound hmac4 t now sess_id ch msg_id payload = Some (t', Inr [(?pkt, se_peer s)])"
    using pack_outbound_one [OF sh assms(2,3) ch(3), of payload hmac4 now msg_id] ch(1) by auto
  have l: "length ?pkt = length payload + 24" using length_out_packet [of hmac4] assms(8,9) by simp
  then have m: "MTU < length ?pkt" using assms(6) by (simp add: MTU_def)
  then show ?thesis using t' l decode_too_long by blast
qed

text \<open>
  C35. When the retransmission queue of a reliable channel is full, a send fails with the overflow
  error, but the session is not closed, and its sequence number is consumed: the receiver of the
  ordered channel is left with a hole that nothing will ever fill.
\<close>

theorem queue_overflow_leaves_hole:
  assumes "table_ok t" "find_session t sess_id = Some (i, c, s)" "se_state s = Active"
    and "queue_for ch s = Some q" "64 \<le> length (rq_entries q)"
    and "msg_id \<le> 0x0FFF" "length payload \<le> 1100"
  shows "\<exists>t'. pack_outbound hmac4 t now sess_id ch msg_id payload = Some (t', proto_err RetransmitOverflow)
    \<and> table_get t' c = Some (s\<lparr>se_send_seq := se_send_seq s + 1\<rparr>)"
proof -
  have sh: "shards_ok t" using assms(1) by (simp add: table_ok_def)
  have ch: "ch \<le> 3" using queue_for_Some [OF assms(4)]
    by (auto simp: CH_RELIABLE_ORDERED_def CH_RELIABLE_UNORDERED_def)
  have l: "length payload \<le> 1180" using assms(7) by simp
  have "send_one hmac4 (st_cfg t) (compute_ack s) now 0 ch msg_id s payload =
      (s\<lparr>se_send_seq := se_send_seq s + 1\<rparr>, proto_err RetransmitOverflow)"
    using assms(4,5) by (simp add: send_one_eq [OF ch assms(6) l] Let_def RETRANSMIT_QUEUE_CAP_def)
  then show ?thesis
    using pack_outbound_one [OF sh assms(2,3) ch, of payload hmac4 now msg_id] assms(7)
    by (simp add: FRAGMENT_THRESHOLD_def table_get_put [OF sh])
qed

text \<open>A session whose ordered queue is full, for the witness.\<close>

definition full_session :: session where
  "full_session = (new_session 1 1 (V4 1 2) 7 [] 0)\<lparr>se_send_seq := 64, se_retrans_ch2 := \<lparr>rq_entries =
     map (\<lambda>i. \<lparr>pp_seq = of_nat i, pp_sent_at = 0, pp_datagram = []\<rparr>) [0..<64], rq_skip_count = Map.empty\<rparr>\<rparr>"

lemma one_session_found:
  assumes "se_sess_id s = 1" "se_conn_id s = 1" "session_inv s"
  shows "table_ok (table_put one_session 1 s)"
    "find_session (table_put one_session 1 s) 1 = Some (shard one_session 1, 1, s)"
    "st_cfg (table_put one_session 1 s) = default_config"
proof -
  have g: "table_get one_session 1 = Some (new_session 1 1 (V4 1 2) 7 [] 0)" by simp
  have i: "se_sess_id (new_session 1 1 (V4 1 2) 7 [] 0) = 1" by (simp add: new_session_def)
  show ok: "table_ok (table_put one_session 1 s)" using assms by (auto intro: table_ok_put)
  have "shards_ok one_session" using one_session_simps(1) by (simp only: table_ok_def)
  then have "table_get (table_put one_session 1 s) 1 = Some s" by (simp add: table_get_put)
  moreover have "ids_fresh (table_put one_session 1 s)"
    using ids_fresh_put [OF one_session_simps(1,2) g, of s] assms(1) i by simp
  ultimately show "find_session (table_put one_session 1 s) 1 = Some (shard one_session 1, 1, s)"
    using find_session_unique [OF ok _ , of 1 s] assms(1) by simp
  show "st_cfg (table_put one_session 1 s) = default_config" by simp
qed

theorem queue_overflow_leaves_hole_witness:
  "\<exists>t'. pack_outbound (\<lambda>_ _. [1, 2, 3, 4]) (table_put one_session 1 full_session) 9 1 CH_RELIABLE_ORDERED 5 [7] =
      Some (t', proto_err RetransmitOverflow) \<and> table_get t' 1 = Some (full_session\<lparr>se_send_seq := 65\<rparr>)"
proof -
  have s: "se_sess_id full_session = 1" "se_conn_id full_session = 1" "se_state full_session = Active"
    "se_send_seq full_session = 64"
    by (simp_all add: full_session_def new_session_def)
  have i: "session_inv full_session"
    using session_inv_new [of 1 1 "V4 1 2" 7 "[]" 0] by (simp add: full_session_def session_inv_def RETRANSMIT_QUEUE_CAP_def)
  have "queue_for CH_RELIABLE_ORDERED full_session = Some (se_retrans_ch2 full_session)" by (simp add: queue_for_def)
  moreover have "64 \<le> length (rq_entries (se_retrans_ch2 full_session))" by (simp add: full_session_def)
  ultimately show ?thesis
    using queue_overflow_leaves_hole [OF one_session_found(1,2) [OF s(1,2) i] s(3), of CH_RELIABLE_ORDERED _ 5 "[7]"] s(4)
    by simp
qed

theorem hmac_exceeds_mtu_witness:
  "\<exists>t' pkt e. pack_outbound (\<lambda>_ _. [1, 2, 3, 4]) one_session 9 1 0 5 (replicate 1180 0) = Some (t', Inr [(pkt, V4 1 2)])
    \<and> length pkt = 1204 \<and> decode pkt = Inl e"
proof -
  let ?s = "new_session 1 1 (V4 1 2) 7 [] 0"
  have g: "table_get one_session 1 = Some ?s" "se_sess_id ?s = 1" "se_peer ?s = V4 1 2" "se_state ?s = Active"
    by (simp_all, simp_all add: new_session_def)
  have f: "find_session one_session 1 = Some (shard one_session 1, 1, ?s)"
    using find_session_unique [OF one_session_simps(1,2) g(1)] g(2) by simp
  have e: "cfg_enable_hmac (st_cfg one_session)" by (simp add: default_config_def)
  show ?thesis
    using hmac_exceeds_mtu [OF one_session_simps(1) f g(4), of 0 5 "replicate 1180 0" "\<lambda>_ _. [1, 2, 3, 4]" 9] e g(3) by auto
qed

section \<open>Retransmission\<close>

text \<open>What a session has sent reliably and not yet seen acknowledged.\<close>

definition in_flight :: "session \<Rightarrow> pending_packet list" where
  "in_flight s = rq_entries (se_retrans_ch2 s) @ rq_entries (se_retrans_ch3 s)"

lemma set_reliable_session:
  "set (snd (reliable_session now s)) =
     pp_datagram ` {p \<in> set (in_flight s). rto (se_rtt s) \<le> duration_since now (pp_sent_at p)}"
  by (auto simp: reliable_session_def in_flight_def retransmit_due_def Let_def)

lemma set_concat_tagged:
  "set (concat (map (\<lambda>(c, s). map (\<lambda>b. (b, g s)) (h s)) xs)) = {(b, g s) | c s b. (c, s) \<in> set xs \<and> b \<in> set (h s)}"
  by (induction xs) auto

lemma set_maintain_reliable:
  assumes "table_ok t"
  shows "set (snd (maintain_reliable t now)) = {(pp_datagram p, se_peer s) | c s p. table_get t c = Some s
    \<and> p \<in> set (in_flight s) \<and> rto (se_rtt s) \<le> duration_since now (pp_sent_at p)}"
proof -
  have sh: "shards_ok t" using assms by (simp add: table_ok_def)
  have "set (snd (maintain_reliable t now)) =
      {(d, se_peer s) | c s d. table_get t c = Some s \<and> d \<in> set (snd (reliable_session now s))}"
    unfolding maintain_reliable_def Let_def snd_conv set_concat_tagged entries_iff [OF sh] ..
  then show ?thesis unfolding set_reliable_session by blast
qed

text \<open>
  C21. No reliable datagram is forgotten: a retransmission pass sends, to each session's current address,
  exactly the datagrams that have waited for the session's retransmission timeout since they were last
  sent, so every one that is unacknowledged for one second, the largest timeout there is, goes out
  again; and the pass removes nothing from the queues.
\<close>

theorem lost_datagram_resent:
  assumes "table_ok t" "maintain_reliable t now = (t', sent)"
  shows "set sent = {(pp_datagram p, se_peer s) | c s p. table_get t c = Some s
      \<and> p \<in> set (in_flight s) \<and> rto (se_rtt s) \<le> duration_since now (pp_sent_at p)}
    \<and> (table_get t c = Some s \<and> p \<in> set (in_flight s) \<and> pp_sent_at p + RTO_MAX \<le> now
        \<longrightarrow> (pp_datagram p, se_peer s) \<in> set sent)
    \<and> map_option (map pp_datagram \<circ> in_flight) (table_get t' c) = map_option (map pp_datagram \<circ> in_flight) (table_get t c)"
proof -
  note sent = set_maintain_reliable [OF assms(1), of now]
  have "rto (se_rtt s) \<le> duration_since now (pp_sent_at p)" if "pp_sent_at p + RTO_MAX \<le> now"
    using rto_in_range [of "se_rtt s"] that unfolding duration_since_def by linarith
  then have late: "(pp_datagram p, se_peer s) \<in> set sent"
    if "table_get t c = Some s" "p \<in> set (in_flight s)" "pp_sent_at p + RTO_MAX \<le> now"
    using that sent assms(2) by auto
  have "t' = (sweep (\<lambda>s. True) (\<lambda>s. fst (reliable_session now s)) t)\<lparr>st_stats := st_stats t'\<rparr>"
    using assms(2) by (auto simp: maintain_reliable_def Let_def sweep_def case_prod_beta)
  then have "table_get t' c = table_get (sweep (\<lambda>s. True) (\<lambda>s. fst (reliable_session now s)) t) c"
    using table_get_upd(1) by metis
  moreover have "map pp_datagram (in_flight (fst (reliable_session now s))) = map pp_datagram (in_flight s)" for s
    by (simp add: in_flight_def reliable_session_def Let_def case_prod_beta frame_simps)
  ultimately have "map_option (map pp_datagram \<circ> in_flight) (table_get t' c) = map_option (map pp_datagram \<circ> in_flight) (table_get t c)"
    using assms(1) by (simp add: table_get_sweep table_ok_def split: option.split)
  then show ?thesis using sent assms(2) late by simp
qed

theorem lost_datagram_resent_witness:
  "([], V4 1 2) \<in> set (snd (maintain_reliable (table_put one_session 1 full_session) (secs 2)))"
proof -
  have s: "se_sess_id full_session = 1" "se_conn_id full_session = 1" "se_peer full_session = V4 1 2"
    by (simp_all add: full_session_def new_session_def)
  have i: "session_inv full_session"
    using session_inv_new [of 1 1 "V4 1 2" 7 "[]" 0] by (simp add: full_session_def session_inv_def RETRANSMIT_QUEUE_CAP_def)
  have "shards_ok one_session" using one_session_simps(1) by (simp only: table_ok_def)
  then have g: "table_get (table_put one_session 1 full_session) 1 = Some full_session" by (simp add: table_get_put)
  let ?p = "\<lparr>pp_seq = 0, pp_sent_at = 0, pp_datagram = []\<rparr>"
  have "?p \<in> (\<lambda>i. \<lparr>pp_seq = of_nat i, pp_sent_at = 0, pp_datagram = []\<rparr>) ` {0..<64}"
    by (rule image_eqI [of _ _ 0]) simp_all
  then have p: "?p \<in> set (in_flight full_session)" "pp_sent_at ?p + RTO_MAX \<le> secs 2"
    by (simp_all add: in_flight_def full_session_def RTO_MAX_def)
  obtain t' sent where m: "maintain_reliable (table_put one_session 1 full_session) (secs 2) = (t', sent)" by force
  have "(pp_datagram ?p, se_peer full_session) \<in> set sent"
    using lost_datagram_resent [OF one_session_found(1) [OF s(1,2) i] m, of 1 full_session ?p] g p by blast
  then show ?thesis using s(3) m by simp
qed

end
