(* ===== verification/Long_Message.thy ===== *)
theory Long_Message
  imports Outbound
begin

text \<open>
  A long reliable ordered message from end to end: \<open>pack_outbound\<close> (\<open>src/session/table.rs\<close>) cuts it with
  \<open>fragment::split\<close>, sends every fragment as a datagram of its own, and a receiver that takes the
  datagrams apart and pushes the fragments into an assembler (\<open>src/reliable/fragment.rs\<close>) gets the
  message back.
\<close>

section \<open>The fragments as datagrams\<close>

definition nth_packet :: "(bytes \<Rightarrow> bytes \<Rightarrow> bytes) \<Rightarrow> table_config \<Rightarrow> session \<Rightarrow> u16 \<times> u32 \<Rightarrow> u8 \<Rightarrow> u8 \<Rightarrow> u16
    \<Rightarrow> bytes list \<Rightarrow> nat \<Rightarrow> bytes" where
  "nth_packet hmac4 cfg s ack flags ch msg_id parts j =
     out_packet hmac4 cfg (s\<lparr>se_send_seq := se_send_seq s + of_nat j\<rparr>) ack flags ch msg_id (parts ! j)"

lemma out_packet_cong:
  "se_conn_id s' = se_conn_id s \<Longrightarrow> se_secret s' = se_secret s \<Longrightarrow> se_send_seq s' = se_send_seq s \<Longrightarrow>
     out_packet hmac4 cfg s' ack flags ch msg_id body = out_packet hmac4 cfg s ack flags ch msg_id body"
  by (simp add: out_packet_def attach_hmac_def out_header_def)

lemma send_all_room:
  "ch \<le> 3 \<Longrightarrow> msg_id \<le> 0x0FFF \<Longrightarrow> \<forall>b \<in> set parts. length b \<le> 1180
    \<Longrightarrow> \<forall>q. queue_for ch s = Some q \<longrightarrow> length (rq_entries q) + length parts \<le> 64
    \<Longrightarrow> \<exists>s'. send_all hmac4 cfg ack now flags ch msg_id s parts =
        (s', Inr (map (\<lambda>j. (nth_packet hmac4 cfg s ack flags ch msg_id parts j, se_peer s)) [0..<length parts]))
      \<and> keeps_ids s s' \<and> se_send_seq s' = se_send_seq s + of_nat (length parts)"
proof (induction parts arbitrary: s)
  case Nil
  then show ?case by simp
next
  case (Cons b parts)
  have b: "length b \<le> 1180" using Cons.prems(3) by simp
  have r: "length (rq_entries q) < 64" if "queue_for ch s = Some q" for q
    using Cons.prems(4) that by fastforce
  obtain s1 where 1: "send_one hmac4 cfg ack now flags ch msg_id s b =
        (s1, Inr (out_packet hmac4 cfg s ack flags ch msg_id b, se_peer s))"
      "queue_for ch s1 = map_option (\<lambda>q. q\<lparr>rq_entries := rq_entries q @
          [\<lparr>pp_seq = se_send_seq s, pp_sent_at = now, pp_datagram = out_packet hmac4 cfg s ack flags ch msg_id b\<rparr>]\<rparr>) (queue_for ch s)"
    using send_one_room [OF Cons.prems(1,2) b r] by blast
  note k = send_one_frame(1,2) [OF 1(1)]
  have "\<forall>q. queue_for ch s1 = Some q \<longrightarrow> length (rq_entries q) + length parts \<le> 64"
    using Cons.prems(4) by (auto simp: 1(2))
  then obtain s' where 2: "send_all hmac4 cfg ack now flags ch msg_id s1 parts =
      (s', Inr (map (\<lambda>j. (nth_packet hmac4 cfg s1 ack flags ch msg_id parts j, se_peer s1)) [0..<length parts]))"
      "keeps_ids s1 s'" "se_send_seq s' = se_send_seq s1 + of_nat (length parts)"
    using Cons.IH [OF Cons.prems(1,2), of s1] Cons.prems(3) unfolding list.set(2) ball_simps(7) by metis
  have n: "nth_packet hmac4 cfg s1 ack flags ch msg_id parts j = nth_packet hmac4 cfg s ack flags ch msg_id (b # parts) (Suc j)" for j
    unfolding nth_packet_def nth_Cons_Suc by (rule out_packet_cong) (use k in \<open>simp_all add: keeps_ids_def add.assoc\<close>)
  have z: "out_packet hmac4 cfg s ack flags ch msg_id b = nth_packet hmac4 cfg s ack flags ch msg_id (b # parts) 0"
    by (simp add: nth_packet_def)
  have "send_all hmac4 cfg ack now flags ch msg_id s (b # parts) =
      (s', Inr (map (\<lambda>j. (nth_packet hmac4 cfg s ack flags ch msg_id (b # parts) j, se_peer s)) [0..<length (b # parts)]))"
    using k(1) by (simp add: 1(1) 2(1) n z keeps_ids_def upt_conv_Cons map_Suc_upt [symmetric] comp_def del: upt_Suc)
  then show ?case
    using keeps_ids_trans [OF k(1) 2(2)] 2(3) k(2) by (simp add: add.assoc)
qed

lemma split_parts_small:
  assumes "split_payload payload g f FRAGMENT_THRESHOLD = Some parts" "payload \<noteq> []"
  shows "\<forall>b \<in> set parts. length b \<le> 1180"
proof -
  have "length x \<le> n" if "x \<in> set (chunks n xs)" for x n and xs :: bytes
    using that by (induction n xs rule: chunks.induct) (subst (asm) (2) chunks.simps, auto split: if_splits)
  then have c: "length x \<le> FRAGMENT_THRESHOLD" if "x \<in> set (chunks FRAGMENT_THRESHOLD payload)" for x
    using that by blast
  have "0 < FRAGMENT_THRESHOLD" by (simp add: FRAGMENT_THRESHOLD_def)
  from split_payload_eq [OF this assms(2), of g f] assms(1) show ?thesis
    using c [OF nth_mem] by (fastforce simp: frag_body_def encode_fragment_def FRAGMENT_THRESHOLD_def)
qed

section \<open>The group at the receiver\<close>

text \<open>
  In the stream of the ordered channel a group of \<open>n\<close> fragments from index \<open>k\<close> is the message at \<open>k\<close>
  followed by placeholders.
\<close>

definition group_stream :: "nat \<Rightarrow> u16 \<Rightarrow> bytes \<Rightarrow> nat \<Rightarrow> u16 \<times> bytes" where
  "group_stream k msg_id full j = (if j = k then (msg_id, full) else (0xFFFF, []))"

lemma rx_at_placeholders:
  assumes "rx_at (group_stream k msg_id full) k {} s" "n \<le> 64"
  shows "rx_at (group_stream k msg_id full) k ({k..<k + n} - {k})
    (foldl (\<lambda>s i. if of_nat k + of_nat i \<noteq> (of_nat k :: u16) then reorder_insert s (of_nat k + of_nat i) (0xFFFF, []) else s)
       s [0..<n])"
  using assms(2)
proof (induction n)
  case 0
  then show ?case using assms(1) by simp
next
  case (Suc n)
  have ne: "of_nat k + of_nat n \<noteq> (of_nat k :: u16)" if "n \<noteq> 0"
    using that Suc.prems of_nat_u16_inj [of "k + n" k] by simp
  have "rx_at (group_stream k msg_id full) k (insert (k + n) ({k..<k + n} - {k})) (reorder_insert r (of_nat (k + n)) (0xFFFF, []))"
    if "rx_at (group_stream k msg_id full) k ({k..<k + n} - {k}) r" "n \<noteq> 0" for r
    using rx_at_insert [OF that(1), of "k + n"] that(2) Suc.prems by (simp add: group_stream_def WINDOW_def)
  moreover have "{k..<k + Suc n} - {k} = (if n = 0 then {} else insert (k + n) ({k..<k + n} - {k}))" by auto
  ultimately show ?case using Suc ne by (cases "n = 0") simp_all
qed

lemma insert_group_rx:
  assumes "rx_at (group_stream k msg_id full) k {} s" "n \<le> 64" "0 < n"
  shows "rx_at (group_stream k msg_id full) k {k..<k + n} (insert_group s (of_nat k) n msg_id full)"
proof -
  have "insert k ({k..<k + n} - {k}) = {k..<k + n}" using assms(3) by auto
  then show ?thesis
    using rx_at_insert [OF rx_at_placeholders [OF assms(1,2)], of k]
    by (simp add: insert_group_def group_stream_def WINDOW_def)
qed

lemma group_delivered:
  assumes "rx_at (group_stream k msg_id full) k {} s" "n \<le> 64" "0 < n" "msg_id \<le> 0x0FFF"
  shows "\<exists>s'. deliver_ch2_in_order (insert_group s (of_nat k) n msg_id full) =
      (s', [EvData (se_sess_id s) CH_RELIABLE_ORDERED msg_id full])
    \<and> rx_at (group_stream k msg_id full) (k + n) {} s'"
proof -
  let ?M = "group_stream k msg_id full" and ?s = "insert_group s (of_nat k) n msg_id full"
  have id: "se_sess_id ?s = se_sess_id s" by (rule ch2_core_fields(1)) (simp add: frame_simps)
  obtain k' H' s' where d: "deliver_ch2_in_order ?s = (s', concat (map (\<lambda>i. data_event ?s (?M i)) [k..<k']))"
      "k \<le> k'" "rx_at ?M k' H' s'" "k' \<notin> H'" "{..<k'} \<union> H' = {..<k} \<union> {k..<k + n}"
    using deliver_rx [OF insert_group_rx [OF assms(1-3)]] by blast
  have u: "{..<k} \<union> {k..<k + n} = {..<k + n}" by (rule ivl_disj_un_one(2)) simp
  have "k' \<notin> {..<k'} \<union> H'" using d(4) by simp
  then have "k' \<notin> {..<k + n}" unfolding d(5) u .
  moreover have "{..<k'} \<subseteq> {..<k + n}" using Un_upper1 [of "{..<k'}" H'] unfolding d(5) u .
  ultimately have k': "k' = k + n" by (simp add: not_less)
  have "H' \<subseteq> {k'..<k' + WINDOW}" using d(3) by (simp add: rx_at_def)
  moreover have "H' \<subseteq> {..<k'}" using Un_upper2 [of H' "{..<k'}"] unfolding d(5) u unfolding k' .
  ultimately have H': "H' = {}" by fastforce
  have "msg_id \<noteq> 0xFFFF" using assms(4) by auto
  then have e: "data_event ?s (?M k) = [EvData (se_sess_id s) CH_RELIABLE_ORDERED msg_id full]"
    by (simp add: data_event_def group_stream_def id)
  have "concat (map (\<lambda>i. data_event ?s (?M i)) [Suc k..<k + n]) = []"
    by (simp add: data_event_def group_stream_def)
  then have "concat (map (\<lambda>i. data_event ?s (?M i)) [k..<k']) = [EvData (se_sess_id s) CH_RELIABLE_ORDERED msg_id full]"
    using assms(3) e by (simp add: k' upt_conv_Cons)
  then show ?thesis using d(1,3) unfolding k' H' by simp
qed

text \<open>The arrival of one fragment while the group is incomplete, and after it is complete.\<close>

lemma unat_length_u8: "n \<le> 64 \<Longrightarrow> unat (of_nat n :: u8) = n"
  by (simp add: unat_of_nat)

lemma handle_fragment:
  assumes "rx_at (group_stream k msg_id (concat cs)) k {} s" "collecting (se_assembler s) g (of_nat k) cs S"
    and "i < length cs" "length cs \<le> 64" "msg_id \<le> 0x0FFF"
    and "dh_flags header AND FLAG_FRAGMENT \<noteq> 0" "dh_seq header = of_nat (k + i)"
    and "fr_msg_id f = msg_id" "fr_body f = frag_body g (of_nat k) cs i"
  shows "\<exists>s'. if {..<length cs} \<subseteq> insert i S
    then handle_ch2 s header f now = Some (s', [EvData (se_sess_id s) CH_RELIABLE_ORDERED msg_id (concat cs)])
      \<and> rx_at (group_stream k msg_id (concat cs)) (k + length cs) {} s'
    else handle_ch2 s header f now = Some (s', []) \<and> rx_at (group_stream k msg_id (concat cs)) k {} s'
      \<and> collecting (se_assembler s') g (of_nat k) cs (insert i S) \<and> se_sess_id s' = se_sess_id s"
proof -
  let ?M = "group_stream k msg_id (concat cs)"
  have "length cs < 256" using assms(4) by simp
  from fa_push_collecting [OF assms(2,3) this, of now] obtain a where a:
    "if {..<length cs} \<subseteq> insert i S
     then fa_push (se_assembler s) g (of_nat k) (of_nat i) (of_nat (length cs)) (cs ! i) now = Some (a, Some (of_nat k, concat cs))
     else fa_push (se_assembler s) g (of_nat k) (of_nat i) (of_nat (length cs)) (cs ! i) now = Some (a, None)
       \<and> collecting a g (of_nat k) cs (insert i S)"
    by (cases "{..<length cs} \<subseteq> insert i S") (simp only: if_True if_False, blast)+
  have n: "dh_seq header \<notin> set (se_delivered_seqs s)"
    using rx_at_delivered [OF assms(1), of "k + i"] assms(3,4,7) by simp
  note h = handle_ch2_def Let_def n assms(6,8,9) decode_frag_body [OF assms(3,4)] unat_length_u8 [OF assms(4)]
  have rx: "rx_at ?M k {} (s\<lparr>se_assembler := a\<rparr>)" using assms(1) by (simp add: rx_at_def)
  show ?thesis
  proof (cases "{..<length cs} \<subseteq> insert i S")
    case True
    have "0 < length cs" using assms(3) by (rule order.strict_trans1 [rotated]) simp
    from group_delivered [OF rx assms(4) this assms(5)] show ?thesis
      using a True by (auto simp: h)
  next
    case False
    then show ?thesis using a rx by (intro exI [of _ "s\<lparr>se_assembler := a\<rparr>"]) (simp add: h)
  qed
qed

lemma handle_fragment_late:
  assumes "rx_at M (k + n) {} s" "i < n" "n \<le> 64" "dh_seq header = of_nat (k + i)"
  shows "handle_ch2 s header f now = Some (s, [])"
proof -
  have "dh_seq header \<in> set (se_delivered_seqs s)"
    using rx_at_delivered [OF assms(1), of "k + i"] assms(2-4) by simp
  then show ?thesis by (simp add: handle_ch2_def Let_def)
qed

lemma ch2_feed_late:
  "rx_at M (k + n) {} s \<Longrightarrow> n \<le> 64 \<Longrightarrow> \<forall>j \<in> set js. j < n \<and> dh_seq (header j) = of_nat (k + j)
    \<Longrightarrow> ch2_feed s now (map (\<lambda>j. (header j, f j)) js) = Some (s, [])"
proof (induction js)
  case Nil
  then show ?case by simp
next
  case (Cons a js)
  then show ?case using handle_fragment_late [OF Cons.prems(1), of a "header a" "f a" now] by simp
qed

lemma ch2_feed_group:
  assumes "length cs \<le> 64" "msg_id \<le> 0x0FFF"
    and "\<And>j. j < length cs \<Longrightarrow> dh_flags (header j) AND FLAG_FRAGMENT \<noteq> 0 \<and> dh_seq (header j) = of_nat (k + j)
      \<and> fr_msg_id (f j) = msg_id \<and> fr_body (f j) = frag_body g (of_nat k) cs j"
  shows "rx_at (group_stream k msg_id (concat cs)) k {} s \<Longrightarrow> collecting (se_assembler s) g (of_nat k) cs S
    \<Longrightarrow> \<not> {..<length cs} \<subseteq> S \<Longrightarrow> \<forall>j \<in> set js. j < length cs
    \<Longrightarrow> \<exists>s'. ch2_feed s now (map (\<lambda>j. (header j, f j)) js) = Some (s',
        if {..<length cs} \<subseteq> S \<union> set js then [EvData (se_sess_id s) CH_RELIABLE_ORDERED msg_id (concat cs)] else [])"
proof (induction js arbitrary: s S)
  case Nil
  then show ?case by simp
next
  case (Cons i js)
  have i: "i < length cs" and js: "\<forall>j \<in> set js. j < length cs" using Cons.prems(4) by simp_all
  have hf: "dh_flags (header i) AND FLAG_FRAGMENT \<noteq> 0" "dh_seq (header i) = of_nat (k + i)"
    "fr_msg_id (f i) = msg_id" "fr_body (f i) = frag_body g (of_nat k) cs i"
    using assms(3) [OF i] by blast+
  note st = handle_fragment [OF Cons.prems(1,2) i assms(1,2) hf, of now]
  show ?case
  proof (cases "{..<length cs} \<subseteq> insert i S")
    case True
    then obtain s' where s': "handle_ch2 s (header i) (f i) now =
          Some (s', [EvData (se_sess_id s) CH_RELIABLE_ORDERED msg_id (concat cs)])"
        "rx_at (group_stream k msg_id (concat cs)) (k + length cs) {} s'" using st by auto
    have "ch2_feed s' now (map (\<lambda>j. (header j, f j)) js) = Some (s', [])"
      using ch2_feed_late [OF s'(2) assms(1)] js assms(3) by blast
    moreover have "{..<length cs} \<subseteq> S \<union> set (i # js)" using True by auto
    ultimately show ?thesis using s'(1) by simp
  next
    case False
    then obtain s' where s': "handle_ch2 s (header i) (f i) now = Some (s', [])"
        "rx_at (group_stream k msg_id (concat cs)) k {} s'"
        "collecting (se_assembler s') g (of_nat k) cs (insert i S)" "se_sess_id s' = se_sess_id s" using st by auto
    have u: "S \<union> set (i # js) = insert i S \<union> set js" by simp
    from Cons.IH [OF s'(2,3) False js] obtain s'' where "ch2_feed s' now (map (\<lambda>j. (header j, f j)) js) = Some (s'',
        if {..<length cs} \<subseteq> insert i S \<union> set js then [EvData (se_sess_id s') CH_RELIABLE_ORDERED msg_id (concat cs)] else [])"
      by blast
    then show ?thesis unfolding u using s'(1,4) by (intro exI [of _ s'']) simp
  qed
qed

section \<open>From the sender to the receiver\<close>

lemma nth_packet_wire:
  assumes "ch \<le> 3" "msg_id \<le> 0x0FFF" "length (parts ! j) \<le> 1180" "flags AND FLAG_HANDSHAKE = 0"
    and "\<And>k d. length (hmac4 k d) = 4" "table_get t (se_conn_id s) = Some s'" "se_secret s' = se_secret s"
    and "cfg_enable_hmac (st_cfg t)"
  shows "\<exists>b. verify_hmac hmac4 t (nth_packet hmac4 (st_cfg t) s ack flags ch msg_id parts j) = HmacOk b
    \<and> decode b = Inr (out_header (st_cfg t) s flags ack (se_send_seq s + of_nat j), [new_frame_ref ch msg_id (parts ! j)])"
proof -
  let ?s = "s\<lparr>se_send_seq := se_send_seq s + of_nat j\<rparr>" and ?f = "new_frame_ref ch msg_id (parts ! j)"
  have "table_get t (se_conn_id ?s) = Some s'" "se_secret s' = se_secret ?s" using assms(6,7) by simp_all
  from verify_out_packet [OF assms(1-5) this assms(8), where ack = ack]
  have "verify_hmac hmac4 t (nth_packet hmac4 (st_cfg t) s ack flags ch msg_id parts j) =
      HmacOk (client_packet (out_header (st_cfg t) s flags ack (se_send_seq s + of_nat j)) [?f])"
    by (simp add: nth_packet_def)
  then show ?thesis using decode_out_packet [OF assms(1-3)] by blast
qed

lemma pack_outbound_long:
  assumes "table_ok t" "find_session t sess_id = Some (i, c, s)" "se_state s = Active" "msg_id \<le> 0x0FFF"
    and "FRAGMENT_THRESHOLD < length payload"
    and "split_payload payload (se_frag_group_id s) (se_send_seq s) FRAGMENT_THRESHOLD = Some parts"
    and "length (rq_entries (se_retrans_ch2 s)) + length parts \<le> 64"
  shows "\<exists>t' s'. pack_outbound hmac4 t now sess_id CH_RELIABLE_ORDERED msg_id payload = Some (t', Inr (map
      (\<lambda>j. (nth_packet hmac4 (st_cfg t) s (compute_ack s) FLAG_FRAGMENT CH_RELIABLE_ORDERED msg_id parts j, se_peer s))
      [0..<length parts])) \<and> st_cfg t' = st_cfg t \<and> table_get t' c = Some s' \<and> keeps_ids s s'"
proof -
  let ?s = "s\<lparr>se_frag_group_id := se_frag_group_id s + 1\<rparr>" and ?cfg = "st_cfg t" and ?ack = "compute_ack s"
  have sh: "shards_ok t" using assms(1) by (simp add: table_ok_def)
  have ne: "payload \<noteq> []" using assms(5) by auto
  have ch: "CH_RELIABLE_ORDERED \<le> 3" by (simp add: CH_RELIABLE_ORDERED_def)
  have q: "\<forall>q. queue_for CH_RELIABLE_ORDERED ?s = Some q \<longrightarrow> length (rq_entries q) + length parts \<le> 64"
    using assms(7) by (simp add: queue_for_def)
  have n: "nth_packet hmac4 ?cfg ?s ?ack fl ch msg_id parts j = nth_packet hmac4 ?cfg s ?ack fl ch msg_id parts j" for fl ch j
    unfolding nth_packet_def by (rule out_packet_cong) simp_all
  obtain s' where s': "send_all hmac4 ?cfg ?ack now FLAG_FRAGMENT CH_RELIABLE_ORDERED msg_id ?s parts = (s', Inr (map
      (\<lambda>j. (nth_packet hmac4 ?cfg s ?ack FLAG_FRAGMENT CH_RELIABLE_ORDERED msg_id parts j, se_peer s)) [0..<length parts]))"
      "keeps_ids ?s s'"
    using send_all_room [OF ch assms(4) split_parts_small [OF assms(6) ne] q, of hmac4 ?cfg ?ack now FLAG_FRAGMENT] by (auto simp: n)
  have p: "pack_session hmac4 ?cfg now CH_RELIABLE_ORDERED msg_id payload s = Some (s', Inr (map
      (\<lambda>j. (nth_packet hmac4 ?cfg s ?ack FLAG_FRAGMENT CH_RELIABLE_ORDERED msg_id parts j, se_peer s)) [0..<length parts]))"
    using assms(5,6) s'(1) by (simp add: pack_session_def Let_def)
  have k: "keeps_ids s s'" using s'(2) by (simp add: keeps_ids_def)
  show ?thesis
    using assms(2,3) ch store_at_eq [OF sh assms(2)] k
    by (simp add: pack_outbound_def p is_active_def Let_def not_less [symmetric] table_get_put [OF sh])
qed

text \<open>
  C1. A long message crosses a lossy network whole: a reliable ordered message of 1101 to 70400 bytes to
  an active session, with room for its fragments in the queue, leaves as one datagram per 1100 bytes;
  each passes the HMAC check and decodes to one fragment frame, and a receiver that expects the
  sender's next sequence number, given these frames in any order, with any losses and duplicates,
  delivers exactly the message, once, when the last missing fragment arrives, and nothing before.
\<close>

theorem long_message_delivered:
  assumes "table_ok t" "find_session t sess_id = Some (i, c, s)" "se_state s = Active" "msg_id \<le> 0x0FFF"
    and "1100 < length payload" "n = div_ceil (length payload) 1100" "n \<le> 64"
    and "length (rq_entries (se_retrans_ch2 s)) + n \<le> 64"
    and "cfg_enable_hmac (st_cfg t)" "\<And>k d. length (hmac4 k d) = 4"
    and "rx_at M k {} r" "se_send_seq s = of_nat k"
    and "fa_pending (se_assembler r) (se_frag_group_id s) = None" "se_frag_group_id s \<notin> set (fa_completed (se_assembler r))"
    and "\<forall>j \<in> set js. j < n"
  shows "\<exists>t' pkts header f r'. pack_outbound hmac4 t now sess_id CH_RELIABLE_ORDERED msg_id payload =
        Some (t', Inr (map (\<lambda>j. (pkts j, se_peer s)) [0..<n]))
    \<and> (\<forall>j < n. \<exists>b. verify_hmac hmac4 t' (pkts j) = HmacOk b \<and> decode b = Inr (header j, [f j]))
    \<and> ch2_feed r now' (map (\<lambda>j. (header j, f j)) js) = Some (r',
        if {..<n} \<subseteq> set js then [EvData (se_sess_id r) CH_RELIABLE_ORDERED msg_id payload] else [])"
proof -
  let ?cs = "chunks FRAGMENT_THRESHOLD payload" and ?g = "se_frag_group_id s" and ?cfg = "st_cfg t" and ?ack = "compute_ack s"
  let ?parts = "map (frag_body ?g (of_nat k) ?cs) [0..<length ?cs]"
  let ?h = "\<lambda>j. out_header ?cfg s FLAG_FRAGMENT ?ack (of_nat (k + j))"
  let ?f = "\<lambda>j. new_frame_ref CH_RELIABLE_ORDERED msg_id (frag_body ?g (of_nat k) ?cs j)"
  have th: "0 < FRAGMENT_THRESHOLD" "FRAGMENT_THRESHOLD < length payload" and ne: "payload \<noteq> []"
    using assms(5) by (auto simp: FRAGMENT_THRESHOLD_def)
  have n: "length ?cs = n" using length_chunks [OF th(1), of payload] assms(6) by (simp add: FRAGMENT_THRESHOLD_def)
  have parts: "split_payload payload ?g (se_send_seq s) FRAGMENT_THRESHOLD = Some ?parts"
    using split_payload_eq [OF th(1) ne] assms(12) by simp
  note small = split_parts_small [OF parts ne]
  have ch: "CH_RELIABLE_ORDERED \<le> 3" by (simp add: CH_RELIABLE_ORDERED_def)
  obtain t' s' where t': "pack_outbound hmac4 t now sess_id CH_RELIABLE_ORDERED msg_id payload = Some (t', Inr (map
      (\<lambda>j. (nth_packet hmac4 ?cfg s ?ack FLAG_FRAGMENT CH_RELIABLE_ORDERED msg_id ?parts j, se_peer s)) [0..<n]))"
      "st_cfg t' = ?cfg" "table_get t' c = Some s'" "keeps_ids s s'"
    using pack_outbound_long [OF assms(1-4) th(2) parts, of hmac4 now] assms(8) n by auto
  have g: "table_get t' (se_conn_id s) = Some s'" "se_secret s' = se_secret s"
    using t'(3,4) find_session_SomeD(1) [OF _ assms(2)] table_ok_getD [OF assms(1)] assms(1)
    by (auto simp: keeps_ids_def table_ok_def)
  have fh: "FLAG_FRAGMENT AND FLAG_HANDSHAKE = 0" by (simp add: FLAG_FRAGMENT_def FLAG_HANDSHAKE_def)
  have wire: "\<exists>b. verify_hmac hmac4 t' (nth_packet hmac4 ?cfg s ?ack FLAG_FRAGMENT CH_RELIABLE_ORDERED msg_id ?parts j) = HmacOk b
      \<and> decode b = Inr (?h j, [?f j])" if j: "j < n" for j
  proof -
    have l: "length (?parts ! j) \<le> 1180" using small j n by simp
    show ?thesis
      using nth_packet_wire [OF ch assms(4) l fh assms(10) g, where ack = ?ack] assms(9,12) j n t'(2) by simp
  qed
  have rx: "rx_at (group_stream k msg_id (concat ?cs)) k {} r" using assms(11) by (simp add: rx_at_def)
  have col: "collecting (se_assembler r) ?g (of_nat k) ?cs {}" using assms(13,14) by (simp add: collecting_def)
  have fl: "(FLAG_FRAGMENT OR FLAG_HMAC) AND FLAG_FRAGMENT \<noteq> 0" by (simp add: FLAG_FRAGMENT_def FLAG_HMAC_def)
  have hd: "dh_flags (?h j) AND FLAG_FRAGMENT \<noteq> 0 \<and> dh_seq (?h j) = of_nat (k + j)
      \<and> fr_msg_id (?f j) = msg_id \<and> fr_body (?f j) = frag_body ?g (of_nat k) ?cs j" for j
    using fl assms(9) by (simp add: out_header_def new_frame_ref_def)
  have "\<not> {..<length ?cs} \<subseteq> {}" using div_ceil_pos [OF ne, of 1100] assms(6) n by (auto simp: lessThan_empty_iff)
  from ch2_feed_group [OF _ assms(4) hd rx col this, of js now'] obtain r' where
    "ch2_feed r now' (map (\<lambda>j. (?h j, ?f j)) js) = Some (r',
        if {..<n} \<subseteq> set js then [EvData (se_sess_id r) CH_RELIABLE_ORDERED msg_id payload] else [])"
    using assms(7,15) n concat_chunks [OF th(1), of payload] by auto
  then show ?thesis
    using t'(1) wire by (intro exI [of _ t'] exI [of _ "nth_packet hmac4 ?cfg s ?ack FLAG_FRAGMENT CH_RELIABLE_ORDERED msg_id ?parts"]
      exI [of _ ?h] exI [of _ ?f] exI [of _ r']) blast
qed

theorem long_message_delivered_witness:
  "\<exists>t' pkts header f r'. pack_outbound (\<lambda>_ _. [1, 2, 3, 4]) one_session 9 1 CH_RELIABLE_ORDERED 5 (replicate 2500 7) =
        Some (t', Inr (map (\<lambda>j. (pkts j, V4 1 2)) [0..<3]))
    \<and> (\<forall>j < 3. \<exists>b. verify_hmac (\<lambda>_ _. [1, 2, 3, 4]) t' (pkts j) = HmacOk b \<and> decode b = Inr (header j, [f j]))
    \<and> ch2_feed (new_session 4 6 (V4 9 9) 7 [] 0) 12 (map (\<lambda>j. (header j, f j)) [2, 0, 2, 1]) =
        Some (r', [EvData 6 CH_RELIABLE_ORDERED 5 (replicate 2500 7)])"
proof -
  let ?s = "new_session 1 1 (V4 1 2) 7 [] 0" and ?r = "new_session 4 6 (V4 9 9) 7 [] 0" and ?p = "replicate 2500 (7 :: u8)"
  have g: "table_get one_session 1 = Some ?s" "se_sess_id ?s = 1" "se_peer ?s = V4 1 2" "se_state ?s = Active"
      "se_send_seq ?s = of_nat 0" "rq_entries (se_retrans_ch2 ?s) = []"
    by (simp_all, simp_all add: new_session_def rq_new_def)
  have r: "se_sess_id ?r = 6" "fa_pending (se_assembler ?r) x = None" "x \<notin> set (fa_completed (se_assembler ?r))" for x
    by (simp_all add: new_session_def fa_new_def)
  have f: "find_session one_session 1 = Some (shard one_session 1, 1, ?s)"
    using find_session_unique [OF one_session_simps(1,2) g(1)] g(2) by simp
  have l: "(5 :: u16) \<le> 0x0FFF" "1100 < length ?p" "3 = div_ceil (length ?p) 1100" "(3 :: nat) \<le> 64"
    "length (rq_entries (se_retrans_ch2 ?s)) + 3 \<le> 64"
    by (simp_all add: div_ceil_def g(6))
  have e: "cfg_enable_hmac (st_cfg one_session)" "length [1, 2, 3, 4 :: u8] = 4" by (simp_all add: default_config_def)
  have j: "\<forall>j \<in> set [2, 0, 2, 1]. j < (3 :: nat)" by simp
  have u: "{..<3} \<subseteq> set [2, 0, 2, 1 :: nat]" by auto
  show ?thesis
    using long_message_delivered [OF one_session_simps(1) f g(4) l(1-5) e rx_at_new [of undefined 4 6 "V4 9 9" 7 "[]" 0] g(5) r(2,3) j, of 9 12] g(3) r(1) u
    by (simp only: if_True)
qed

end
