(* ===== verification/Trace.thy ===== *)
theory Trace
  imports Inbound Maintenance Outbound
begin

text \<open>
  The session table as a state machine: one step is any of its public operations, labelled with the
  events it hands to the engine. The abstract specification only keeps the set of live session ids
  and the next id; the table refines it, and so every trace of events the logic server can see is,
  session by session, an open, then traffic, then at most one close and nothing after it.
\<close>

section \<open>Runs and simulations\<close>

inductive run :: "('s \<Rightarrow> 'e list \<Rightarrow> 's \<Rightarrow> bool) \<Rightarrow> 's \<Rightarrow> 'e list \<Rightarrow> 's \<Rightarrow> bool"
  for step :: "'s \<Rightarrow> 'e list \<Rightarrow> 's \<Rightarrow> bool" and s :: 's where
  run_nil: "run step s [] s"
| run_step: "run step s evs s' \<Longrightarrow> step s' es s'' \<Longrightarrow> run step s (evs @ es) s''"

locale simulation =
  fixes cstep :: "'c \<Rightarrow> 'e list \<Rightarrow> 'c \<Rightarrow> bool"
    and astep :: "'a \<Rightarrow> 'e list \<Rightarrow> 'a \<Rightarrow> bool"
    and abs :: "'c \<Rightarrow> 'a"
    and inv :: "'c \<Rightarrow> bool"
  assumes step_refines: "inv c \<Longrightarrow> cstep c es c' \<Longrightarrow> astep (abs c) es (abs c')"
    and step_inv: "inv c \<Longrightarrow> cstep c es c' \<Longrightarrow> inv c'"
begin

lemma run_inv: "run cstep c evs c' \<Longrightarrow> inv c \<Longrightarrow> inv c'"
  by (induction rule: run.induct) (auto intro: step_inv)

lemma run_refines: "run cstep c evs c' \<Longrightarrow> inv c \<Longrightarrow> run astep (abs c) evs (abs c')"
proof (induction rule: run.induct)
  case run_nil
  show ?case by (rule run.run_nil)
next
  case (run_step evs c' es c'')
  have "inv c'" using run_inv [OF run_step.hyps(1) run_step.prems] .
  then show ?case using run.run_step [OF run_step.IH [OF run_step.prems] step_refines] run_step.hyps(2) by blast
qed

end

section \<open>The abstract lifecycle\<close>

fun ev_sess :: "session_event \<Rightarrow> u64" where
  "ev_sess (EvOpen i p t) = i"
| "ev_sess (EvClose i r) = i"
| "ev_sess (EvResume i g) = i"
| "ev_sess (EvData i c m b) = i"

fun traffic :: "session_event \<Rightarrow> bool" where
  "traffic (EvResume i g) = True"
| "traffic (EvData i c m b) = True"
| "traffic e = False"

inductive life_step :: "u64 set \<times> u64 \<Rightarrow> session_event list \<Rightarrow> u64 set \<times> u64 \<Rightarrow> bool" where
  life_traffic: "L' \<subseteq> L \<Longrightarrow> \<forall>e \<in> set evs. traffic e \<and> ev_sess e \<in> L' \<Longrightarrow> life_step (L, n) evs (L', n)"
| life_open: "n \<noteq> - 1 \<Longrightarrow> L' \<subseteq> insert n L \<Longrightarrow> life_step (L, n) [EvOpen n peer token] (L', n + 1)"
| life_close: "distinct ids \<Longrightarrow> set ids \<subseteq> L \<Longrightarrow> L' \<subseteq> L - set ids \<Longrightarrow>
    life_step (L, n) (map (\<lambda>i. EvClose i r) ids) (L', n)"

inductive_cases life_stepE: "life_step s evs s'"

text \<open>What the logic server sees of one session.\<close>

definition of_session :: "u64 \<Rightarrow> session_event list \<Rightarrow> session_event list" where
  "of_session i evs = filter (\<lambda>e. ev_sess e = i) evs"

lemma of_session_append [simp]: "of_session i (xs @ ys) = of_session i xs @ of_session i ys"
  by (simp add: of_session_def)

definition opened :: "u64 \<Rightarrow> session_event list \<Rightarrow> bool" where
  "opened i es \<longleftrightarrow> (\<exists>p t mid. es = EvOpen i p t # mid \<and> list_all traffic mid)"

definition lifecycle_word :: "u64 \<Rightarrow> session_event list \<Rightarrow> bool" where
  "lifecycle_word i es \<longleftrightarrow> es = [] \<or> opened i es \<or> (\<exists>es' r. es = es' @ [EvClose i r] \<and> opened i es')"

definition life_inv :: "session_event list \<Rightarrow> u64 set \<times> u64 \<Rightarrow> bool" where
  "life_inv evs s \<longleftrightarrow> (\<forall>i. (i \<in> fst s \<longrightarrow> i < snd s \<and> opened i (of_session i evs))
     \<and> (snd s \<le> i \<longrightarrow> of_session i evs = []) \<and> lifecycle_word i (of_session i evs))"

lemma opened_append: "opened i es \<Longrightarrow> list_all traffic es' \<Longrightarrow> opened i (es @ es')"
  by (auto simp: opened_def)

lemma of_session_none: "(\<forall>e \<in> set evs. ev_sess e \<noteq> i) \<Longrightarrow> of_session i evs = []"
  by (auto simp: of_session_def filter_empty_conv)

lemma of_session_closes:
  "distinct ids \<Longrightarrow> of_session i (map (\<lambda>i. EvClose i r) ids) = (if i \<in> set ids then [EvClose i r] else [])"
  by (induction ids) (auto simp: of_session_def filter_empty_conv)

lemma word_less_Suc: "n \<noteq> - 1 \<Longrightarrow> (i :: 'a::len word) < n + 1 \<longleftrightarrow> i \<le> n"
  using unatSuc [of n] by (auto simp: word_less_nat_alt word_le_nat_alt add.commute eq_neg_iff_add_eq_0)

lemma life_inv_step: "life_step s es s' \<Longrightarrow> life_inv evs s \<Longrightarrow> life_inv (evs @ es) s'"
proof (induction rule: life_step.induct)
  case (life_traffic L' L es n)
  have t: "list_all traffic (of_session i es)" for i
    using life_traffic(2) by (simp add: of_session_def list_all_iff)
  have d: "of_session i es = []" if "i \<notin> L'" for i
    using life_traffic(2) that by (auto intro: of_session_none)
  have "i < n \<and> opened i (of_session i (evs @ es)) \<and> lifecycle_word i (of_session i (evs @ es))" if "i \<in> L'" for i
    using life_traffic(1,3) that opened_append [OF _ t, of i "of_session i evs" i]
    by (auto simp: life_inv_def lifecycle_word_def)
  moreover have "of_session i (evs @ es) = of_session i evs" if "i \<notin> L'" for i
    using d [OF that] by simp
  ultimately show ?case
    using life_traffic(3) unfolding life_inv_def fst_conv snd_conv by (metis leD)
next
  case (life_open n L' L p tk)
  have o: "of_session i [EvOpen n p tk] = (if i = n then [EvOpen n p tk] else [])" for i
    by (simp add: of_session_def)
  have n: "of_session n evs = []" using life_open(3) by (simp add: life_inv_def)
  have "opened n [EvOpen n p tk]" by (simp add: opened_def)
  moreover have "i < n \<Longrightarrow> i < n + 1" "n + 1 \<le> i \<Longrightarrow> n \<le> i" for i
    using word_less_Suc [OF life_open(1), of i] by auto
  ultimately show ?case
    using life_open n word_less_Suc [OF life_open(1), of n]
    by (auto simp: life_inv_def o lifecycle_word_def)
next
  case (life_close ids L L' n r)
  note c = of_session_closes [OF life_close(1), of _ r]
  have "lifecycle_word i (of_session i evs @ [EvClose i r])" if "i \<in> set ids" for i
    using life_close(2,4) that by (auto simp: life_inv_def lifecycle_word_def)
  then show ?case
    using life_close by (auto simp: life_inv_def c not_le)
qed

lemma life_run_inv: "run life_step ({}, n) evs s \<Longrightarrow> life_inv evs s"
proof (induction rule: run.induct)
  case run_nil
  then show ?case by (simp add: life_inv_def of_session_def lifecycle_word_def)
next
  case (run_step evs s' es s'')
  then show ?case by (blast intro: life_inv_step)
qed

section \<open>The table as a state machine\<close>

inductive table_step :: "bool \<Rightarrow> (bytes \<Rightarrow> bytes \<Rightarrow> bytes) \<Rightarrow> session_table \<Rightarrow> session_event list \<Rightarrow> session_table \<Rightarrow> bool"
  for chk :: bool and hmac4 :: "bytes \<Rightarrow> bytes \<Rightarrow> bytes" where
  step_datagram: "handle_datagram chk hmac4 t peer raw rnd clk now = Some (t', ps, evs) \<Longrightarrow>
     st_next_sess_id t \<noteq> - 1 \<Longrightarrow> table_step chk hmac4 t evs t'"
| step_maintain: "maintain t now = Some (t', evs) \<Longrightarrow> table_step chk hmac4 t evs t'"
| step_reliable: "maintain_reliable t now = (t', ps) \<Longrightarrow> table_step chk hmac4 t [] t'"
| step_shutdown: "shutdown_all t = (t', evs) \<Longrightarrow> table_step chk hmac4 t evs t'"
| step_kick: "kick_session t sess_id reason = (t', s) \<Longrightarrow> table_step chk hmac4 t [] t'"
| step_set_budget: "table_step chk hmac4 t [] (set_budget t sess_id kbps)"
| step_check_budget: "check_budget chk t sess_id bytes now = Some (t', ok) \<Longrightarrow> table_step chk hmac4 t [] t'"
| step_pack: "pack_outbound hmac4 t now sess_id ch msg_id payload = Some (t', r) \<Longrightarrow> table_step chk hmac4 t [] t'"

inductive_cases table_stepE: "table_step chk hmac4 t evs t'"

definition table_inv :: "session_table \<Rightarrow> bool" where
  "table_inv t \<longleftrightarrow> table_ok t \<and> ids_fresh t \<and> cfg_ok (st_cfg t)"

definition life_of :: "session_table \<Rightarrow> u64 set \<times> u64" where
  "life_of t = (live t, st_next_sess_id t)"

lemma table_inv_upd [simp]:
  "table_inv (t\<lparr>st_stats := st\<rparr>) = table_inv t"
  by (simp add: table_inv_def)

lemma live_upd [simp]:
  "live (t\<lparr>st_stats := st\<rparr>) = live t" "live (t\<lparr>st_pending := p\<rparr>) = live t"
  "live (t\<lparr>st_next_conn_id := a\<rparr>) = live t" "live (t\<lparr>st_next_sess_id := b\<rparr>) = live t"
  by (simp_all add: live_def)

lemma life_of_upd [simp]: "life_of (t\<lparr>st_stats := st\<rparr>) = life_of t"
  by (simp add: life_of_def)

lemma table_inv_shards: "table_inv t \<Longrightarrow> shards_ok t"
  by (simp add: table_inv_def table_ok_def)

lemma live_put: "shards_ok t \<Longrightarrow> live (table_put t c s) \<subseteq> insert (se_sess_id s) (live t)"
  by (auto simp: live_def table_get_put split: if_splits)

text \<open>Changing a stored session in place, its ids kept, changes nothing in the lifecycle.\<close>

lemma put_same:
  assumes "table_inv t" "table_get t c = Some s" "se_sess_id s' = se_sess_id s" "se_conn_id s' = se_conn_id s"
    "session_inv s \<Longrightarrow> session_inv s'"
  shows "table_inv (table_put t c s')" "life_of (table_put t c s') = life_of t"
proof -
  have ok: "table_ok t" "ids_fresh t" "cfg_ok (st_cfg t)" and sh: "shards_ok t"
    using assms(1) by (simp_all add: table_inv_def table_ok_def)
  show "table_inv (table_put t c s')"
    using table_ok_getD [OF ok(1) assms(2)] ok assms
    by (auto simp: table_inv_def intro!: table_ok_put intro: ids_fresh_put)
  have "live (table_put t c s') = live t"
  proof (rule set_eqI)
    fix i
    have "(\<exists>c' s2. (if c' = c then Some s' else table_get t c') = Some s2 \<and> i = se_sess_id s2)
        \<longleftrightarrow> (\<exists>c' s2. table_get t c' = Some s2 \<and> i = se_sess_id s2)"
      using assms(2,3) by (metis option.inject)
    then show "i \<in> live (table_put t c s') \<longleftrightarrow> i \<in> live t"
      unfolding live_def mem_Collect_eq table_get_put [OF sh] by blast
  qed
  then show "life_of (table_put t c s') = life_of t" by (simp add: life_of_def)
qed

lemma found_put_same:
  assumes "table_inv t" "find_session t sess_id = Some (i, c, s)" "se_sess_id s' = se_sess_id s"
    "se_conn_id s' = se_conn_id s" "session_inv s \<Longrightarrow> session_inv s'"
  shows "table_inv (store_at t i c s') \<and> life_of (store_at t i c s') = life_of t"
proof -
  note sh = table_inv_shards [OF assms(1)]
  show ?thesis
    using put_same [OF assms(1) find_session_SomeD(1) [OF sh assms(2)] assms(3-5)] store_at_eq [OF sh assms(2)] by simp
qed

lemma life_silent: "life_of t' = life_of t \<Longrightarrow> life_step (life_of t) [] (life_of t')"
  by (auto simp: life_of_def intro: life_traffic)

lemma life_gone: "live t' \<subseteq> live t \<Longrightarrow> st_next_sess_id t' = st_next_sess_id t \<Longrightarrow> life_step (life_of t) [] (life_of t')"
  by (auto simp: life_of_def intro: life_traffic)

lemma session_packet_life:
  assumes "handle_session_packet chk t peer header frames clk now = Some (t', ps, evs)" "table_inv t"
  shows "life_step (life_of t) evs (life_of t') \<and> table_inv t'"
  using assms(1)
proof (cases rule: handle_session_packet_SomeE)
  case unknown
  then show ?thesis using assms(2) life_silent by simp
next
  case (known s s' st)
  have i: "table_inv (t\<lparr>st_stats := st\<rparr>)" "table_get (t\<lparr>st_stats := st\<rparr>) (dh_conn_id header) = Some s"
    using assms(2) known(1) by simp_all
  note p = put_same [OF i known(4,3,7)]
  have l: "se_sess_id s \<in> live t" using known(1) by (rule liveI)
  have "life_of t' = life_of t" unfolding known(2) using p(2) by simp
  moreover have "\<forall>e \<in> set evs. traffic e \<and> ev_sess e \<in> live t" using known(10) l by auto
  ultimately have "life_step (life_of t) evs (life_of t')"
    by (simp add: life_of_def) (rule life_traffic, simp_all)
  then show ?thesis using p(1) known(2) by simp
qed

lemma handshake_life:
  assumes "handle_handshake t peer frames rnd now = (t', ps, evs)" "table_inv t" "st_next_sess_id t \<noteq> - 1"
  shows "life_step (life_of t) evs (life_of t') \<and> table_inv t'"
proof -
  have inv: "table_inv t'"
    using handle_handshake_ok [OF assms(1)] handle_handshake_ids [OF assms(1)] assms
    by (auto simp: table_inv_def handle_handshake_def Let_def purge_pending_def split: list.splits option.splits if_splits)
  consider (same) "evs = []" "life_of t' = life_of t"
    | (opens) tok where "evs = [EvOpen (st_next_sess_id t) peer tok]" "st_next_sess_id t' = st_next_sess_id t + 1"
        "live t' \<subseteq> insert (st_next_sess_id t) (live t)"
  proof -
    have sh: "shards_ok t" using table_inv_shards [OF assms(2)] .
    have l: "live (table_put (t\<lparr>st_pending := q, st_next_conn_id := a, st_next_sess_id := b\<rparr>) c
        (new_session c i peer rnd tok now)) \<subseteq> insert i (live t)" for q a b c i tok
      using live_put [of "t\<lparr>st_pending := q, st_next_conn_id := a, st_next_sess_id := b\<rparr>" c "new_session c i peer rnd tok now"] sh
      by (simp add: new_session_def)
    show thesis
    proof (cases "evs = []")
      case True
      then have "life_of t' = life_of t"
        using assms(1) by (auto simp: handle_handshake_def Let_def life_of_def purge_pending_def split: list.splits option.splits if_splits)
      with True show thesis by (rule that(1))
    next
      case False
      then obtain tok where "evs = [EvOpen (st_next_sess_id t) peer tok]" "st_next_sess_id t' = st_next_sess_id t + 1"
        "live t' \<subseteq> insert (st_next_sess_id t) (live t)"
        using assms(1) l by (auto simp: handle_handshake_def Let_def purge_pending_def split: list.splits option.splits if_splits)
      then show thesis by (rule that(2))
    qed
  qed
  then show ?thesis
  proof cases
    case same
    then show ?thesis using life_silent inv by simp
  next
    case opens
    then show ?thesis using inv life_open [OF assms(3)] by (simp add: life_of_def)
  qed
qed

lemma datagram_life:
  assumes "handle_datagram chk hmac4 t peer raw rnd clk now = Some (t', ps, evs)" "table_inv t" "st_next_sess_id t \<noteq> - 1"
  shows "life_step (life_of t) evs (life_of t') \<and> table_inv t'"
proof -
  have h: "life_step (life_of t) evs (life_of t') \<and> table_inv t'"
    if "handle_handshake (count_in f t) peer frames rnd now = (t', ps, evs)" for f frames
    using handshake_life [OF that] assms(2,3) by simp
  have p: "life_step (life_of t) evs (life_of t') \<and> table_inv t'"
    if "handle_session_packet chk (count_in f t) peer header frames clk now = Some (t', ps, evs)" for f header frames
    using session_packet_life [OF that] assms(2) by simp
  show ?thesis
    using assms life_silent [of t t]
    by (auto simp: handle_datagram_def Let_def dest!: h p
      split: option.splits sum.splits if_splits prod.splits hmac_result.splits)
qed

section \<open>Maintenance and the logic server's operations\<close>

lemma sweep_life:
  assumes "table_inv t" "\<And>s. se_sess_id (f s) = se_sess_id s" "\<And>s. se_conn_id (f s) = se_conn_id s"
    "\<And>s. session_inv s \<Longrightarrow> session_inv (f s)"
  shows "table_inv (sweep P f t)" "st_next_sess_id (sweep P f t) = st_next_sess_id t"
    "live (sweep P f t) = {se_sess_id s |c s. table_get t c = Some s \<and> P s}"
proof -
  have i: "table_ok t" "ids_fresh t" "cfg_ok (st_cfg t)" using assms(1) by (simp_all add: table_inv_def)
  show "table_inv (sweep P f t)"
    using sweep_ok [OF i(1) assms(3,4)] sweep_ids(1) [OF i(1,2) assms(2)] i(3)
    by (simp add: table_inv_def) (simp add: sweep_def)
  show "st_next_sess_id (sweep P f t) = st_next_sess_id t" by (simp add: sweep_def)
  show "live (sweep P f t) = {se_sess_id s |c s. table_get t c = Some s \<and> P s}"
    by (rule sweep_ids(2) [OF i(1,2) assms(2)])
qed

text \<open>Removing the sessions that fail \<open>P\<close> and closing each of them is a step of the lifecycle.\<close>

lemma sweep_closes:
  assumes "table_inv t" "\<And>s. se_sess_id (f s) = se_sess_id s" "\<And>s. se_conn_id (f s) = se_conn_id s"
    "\<And>s. session_inv s \<Longrightarrow> session_inv (f s)"
  shows "life_step (life_of t) (map (\<lambda>s. EvClose (se_sess_id s) r) (filter (\<lambda>s. \<not> P s) (for_each_session t)))
    (life_of (sweep P f t))"
proof -
  note sh = table_inv_shards [OF assms(1)]
  have i: "table_ok t" "ids_fresh t" using assms(1) by (simp_all add: table_inv_def)
  let ?ids = "map se_sess_id (filter (\<lambda>s. \<not> P s) (for_each_session t))"
  have mem: "s \<in> set (for_each_session t) \<longleftrightarrow> (\<exists>c. table_get t c = Some s)" for s
    by (simp add: for_each_session_def image_iff Bex_def split_paired_Ex entries_iff [OF sh] del: set_concat)
  have "distinct ?ids" using distinct_session_ids [OF i] by (simp add: distinct_map_filter)
  moreover have "set ?ids \<subseteq> live t" by (auto simp: mem intro: liveI)
  moreover have "live (sweep P f t) \<subseteq> live t - set ?ids"
  proof
    fix x
    assume "x \<in> live (sweep P f t)"
    then obtain c s where s: "x = se_sess_id s" "table_get t c = Some s" "P s"
      by (auto simp: sweep_life(3) [OF assms])
    have "se_sess_id s' \<noteq> x" if "table_get t c' = Some s'" "\<not> P s'" for c' s'
      using ids_fresh_unique [OF i(2) s(2) that(1)] s that by auto
    then have "x \<notin> set ?ids" by (fastforce simp: mem)
    then show "x \<in> live t - set ?ids" using liveI [OF s(2)] s(1) by blast
  qed
  ultimately have "life_step (live t, st_next_sess_id t) (map (\<lambda>i. EvClose i r) ?ids) (live (sweep P f t), st_next_sess_id t)"
    by (rule life_close)
  then show ?thesis using sweep_life(2) [OF assms] by (simp add: life_of_def comp_def)
qed

lemma maintain_life:
  assumes "maintain t now = Some (t', evs)" "table_inv t"
  shows "life_step (life_of t) evs (life_of t') \<and> table_inv t'"
proof -
  let ?P = "\<lambda>s. \<not> closing (st_cfg t) now s" and ?f = "aged (st_cfg t) now"
  have f: "se_sess_id (?f s) = se_sess_id s" "se_conn_id (?f s) = se_conn_id s" "session_inv s \<Longrightarrow> session_inv (?f s)" for s
    by (simp_all add: aged_def)
  have "cfg_ok (st_cfg t)" using assms(2) by (simp add: table_inv_def)
  then obtain st where e: "t' = (sweep ?P ?f t)\<lparr>st_stats := st\<rparr>"
      "evs = map (\<lambda>s. EvClose (se_sess_id s) CLOSE_GRACE_TIMEOUT) (closed_sessions t now)"
    using maintain_eq [of t now] assms(1) by auto
  then show ?thesis
    using sweep_closes [OF assms(2) f, of CLOSE_GRACE_TIMEOUT ?P] sweep_life(1) [OF assms(2) f, of ?P]
    by (simp add: closed_sessions_def)
qed

lemma fa_inv_cleanup: "fa_inv a \<Longrightarrow> fa_inv (fa_cleanup a now)"
  by (simp add: fa_inv_def fa_cleanup_def split: option.splits)

lemma reliable_session_fields:
  "se_sess_id (fst (reliable_session now s)) = se_sess_id s"
  "se_conn_id (fst (reliable_session now s)) = se_conn_id s"
  "session_inv s \<Longrightarrow> session_inv (fst (reliable_session now s))"
  by (auto simp: reliable_session_def Let_def session_inv_def retransmit_due_def fa_inv_cleanup split: prod.splits)

lemma reliable_life:
  assumes "maintain_reliable t now = (t', ps)" "table_inv t"
  shows "life_step (life_of t) [] (life_of t') \<and> table_inv t'"
proof -
  let ?f = "\<lambda>s. fst (reliable_session now s)"
  obtain st where t': "t' = (sweep (\<lambda>_. True) ?f t)\<lparr>st_stats := st\<rparr>"
    using assms(1) by (auto simp: maintain_reliable_def Let_def sweep_def case_prod_beta)
  have "live (sweep (\<lambda>_. True) ?f t) = live t"
    by (subst sweep_life(3) [OF assms(2) reliable_session_fields]) (simp_all add: live_def)
  then have "life_of t' = life_of t"
    using sweep_life(2) [OF assms(2) reliable_session_fields, of "\<lambda>_. True"] t' by (simp add: life_of_def)
  then show ?thesis
    using sweep_life(1) [OF assms(2) reliable_session_fields, of "\<lambda>_. True"] t' life_silent by simp
qed

lemma shutdown_life:
  assumes "shutdown_all t = (t', evs)" "table_inv t"
  shows "life_step (life_of t) evs (life_of t') \<and> table_inv t' \<and> live t' = {}"
proof -
  obtain st where e: "t' = (sweep (\<lambda>_. False) id t)\<lparr>st_stats := st\<rparr>"
      "evs = map (\<lambda>s. EvClose (se_sess_id s) CLOSE_GRACE_TIMEOUT) (for_each_session t)"
    using assms(1) by (auto simp: shutdown_all_def Let_def sweep_def for_each_session_def case_prod_beta)
  have "live (sweep (\<lambda>_. False) id t) = {}" by (subst sweep_life(3) [OF assms(2)]) simp_all
  with e show ?thesis
    using sweep_closes [OF assms(2), of id CLOSE_GRACE_TIMEOUT "\<lambda>_. False"]
      sweep_life(1) [OF assms(2), of id "\<lambda>_. False"]
    by simp
qed

lemma remove_life:
  assumes "table_inv t"
  shows "table_inv (table_remove t c)" "live (table_remove t c) \<subseteq> live t"
proof -
  note sh = table_inv_shards [OF assms]
  have "st_next_sess_id (table_remove t c) = st_next_sess_id t" "st_cfg (table_remove t c) = st_cfg t"
    by (simp_all add: table_remove_def)
  then show "table_inv (table_remove t c)"
    using assms by (auto simp: table_inv_def table_ok_def ids_fresh_def shards_ok_remove
      intro: sessions.all_values_remove sessions.unique_by_remove)
  show "live (table_remove t c) \<subseteq> live t"
    by (auto simp: live_def table_get_remove [OF sh] split: if_splits)
qed

lemma kick_life:
  assumes "kick_session t sess_id reason = (t', s)" "table_inv t"
  shows "life_step (life_of t) [] (life_of t') \<and> table_inv t'"
proof (cases "find_session t sess_id")
  case None
  then show ?thesis using assms life_silent by (simp add: kick_session_def)
next
  case (Some r)
  obtain i c s0 where r: "find_session t sess_id = Some (i, c, s0)" using Some by (cases r) auto
  have i: "i = shard t c" using find_session_SomeD(3) [OF table_inv_shards [OF assms(2)] r] .
  have t': "t' = (table_remove t c)\<lparr>st_stats := sessions_active_update decr (st_stats t)\<rparr>"
    using assms(1) r i by (auto simp: kick_session_def table_remove_def)
  have "st_next_sess_id (table_remove t c) = st_next_sess_id t" by (simp add: table_remove_def)
  then show ?thesis
    using remove_life [OF assms(2), of c] t' by (auto intro!: life_gone)
qed

lemma set_budget_life:
  assumes "table_inv t"
  shows "life_step (life_of t) [] (life_of (set_budget t sess_id kbps)) \<and> table_inv (set_budget t sess_id kbps)"
proof -
  have "table_inv (store_at t i c (s\<lparr>se_budget_kbps := Some kbps\<rparr>))
      \<and> life_of (store_at t i c (s\<lparr>se_budget_kbps := Some kbps\<rparr>)) = life_of t"
    if "find_session t sess_id = Some (i, c, s)" for i c s
    by (rule found_put_same [OF assms that]) (simp_all add: session_inv_def)
  then show ?thesis using assms life_silent by (auto simp: set_budget_def split: option.split)
qed

lemma check_budget_life:
  assumes "check_budget chk t sess_id bytes now = Some (t', ok)" "table_inv t"
  shows "life_step (life_of t) [] (life_of t') \<and> table_inv t'"
proof (cases "find_session t sess_id")
  case None
  then show ?thesis using assms life_silent by (simp add: check_budget_def)
next
  case (Some r)
  obtain i c s where r: "find_session t sess_id = Some (i, c, s)" using Some by (cases r) auto
  obtain s' where s': "budget_step chk s bytes now = Some (s', ok)" "t' = store_at t i c s'"
    using assms(1) r by (auto simp: check_budget_def split: bind_splits)
  have "se_sess_id s' = se_sess_id s \<and> se_conn_id s' = se_conn_id s \<and> (session_inv s \<longrightarrow> session_inv s')"
    using s'(1) by (auto simp: budget_step_def Let_def session_inv_def split: option.splits if_splits)
  then show ?thesis using found_put_same [OF assms(2) r, of s'] s'(2) life_silent by simp
qed

lemma pack_life:
  assumes "pack_outbound hmac4 t now sess_id ch msg_id payload = Some (t', r)" "table_inv t"
  shows "life_step (life_of t) [] (life_of t') \<and> table_inv t'"
proof -
  have "table_inv (store_at t i c s') \<and> life_of (store_at t i c s') = life_of t"
    if "find_session t sess_id = Some (i, c, s)" "pack_session hmac4 (st_cfg t) now ch msg_id payload s = Some (s', r')"
    for i c s s' r'
    using found_put_same [OF assms(2) that(1)] pack_session_SomeD [OF that(2)] by (simp add: keeps_ids_def)
  then show ?thesis
    using assms life_silent [of t t] life_silent
    by (auto simp: pack_outbound_def Let_def split: if_splits option.splits bind_splits sum.splits)
qed

interpretation lifecycle: simulation "table_step chk hmac4" life_step life_of table_inv for chk hmac4
proof unfold_locales
  fix t es t'
  assume inv: "table_inv t" and step: "table_step chk hmac4 t es t'"
  have "life_step (life_of t) es (life_of t') \<and> table_inv t'"
    using step
    by (cases rule: table_stepE)
      (auto dest: datagram_life [OF _ inv] maintain_life [OF _ inv] reliable_life [OF _ inv] shutdown_life [OF _ inv]
        kick_life [OF _ inv] check_budget_life [OF _ inv] pack_life [OF _ inv] simp: set_budget_life [OF inv])
  then show "life_step (life_of t) es (life_of t')" "table_inv t'" by simp_all
qed

text \<open>
  C17. The session table refines the abstract lifecycle, which knows nothing but the set of live
  session ids and the next id: every public operation (a datagram, a maintenance pass, the
  retransmission pass, shutdown, kick, both budget operations, an outbound message) is one abstract
  step with the same events, and keeps the table invariant.
\<close>

theorem table_refines_lifecycle:
  assumes "table_inv t" "table_step chk hmac4 t evs t'"
  shows "life_step (live t, st_next_sess_id t) evs (live t', st_next_sess_id t') \<and> table_inv t'"
  using lifecycle.step_refines [OF assms] lifecycle.step_inv [OF assms] by (simp add: life_of_def)

lemma table_inv_new: "cfg_ok cfg \<Longrightarrow> table_inv (table_new cfg)"
  by (simp add: table_inv_def table_ok_new ids_fresh_new) (simp add: table_new_def)

text \<open>
  Whatever clients, timers and the logic server do to a table created with a sound
  configuration, in any order: the events of one session id are an open, then only data and
  resumptions, then at most one close, with nothing after it; and a session in the table has been
  opened and not closed.
\<close>

theorem session_event_order:
  assumes "cfg_ok cfg" "run (table_step chk hmac4) (table_new cfg) evs t"
  shows "lifecycle_word i (of_session i evs) \<and> (i \<in> live t \<longrightarrow> opened i (of_session i evs))"
proof -
  note n = table_inv_new [OF assms(1)]
  have "live (table_new cfg) = {}" by (simp add: live_def table_get_def table_new_def shard_def)
  then have "run life_step ({}, st_next_sess_id (table_new cfg)) evs (life_of t)"
    using lifecycle.run_refines [OF assms(2) n] by (simp add: life_of_def)
  from life_run_inv [OF this] show ?thesis by (simp add: life_inv_def life_of_def)
qed

section \<open>Concrete runs\<close>

lemma run_trans: "run step s' es s'' \<Longrightarrow> run step s evs s' \<Longrightarrow> run step s (evs @ es) s''"
proof (induction rule: run.induct)
  case run_nil
  then show ?case by simp
next
  case (run_step es s2 es' s3)
  show ?case using run.run_step [OF run_step.IH [OF run_step.prems] run_step.hyps(2)] by simp
qed

lemma run_single: "step s es s' \<Longrightarrow> run step s es s'"
  using run.run_step [OF run.run_nil, of step s es s'] by simp

lemma datagrams_run:
  "datagrams chk hmac4 t ds = Some (t', ps, evs) \<Longrightarrow> table_inv t \<Longrightarrow> unat (st_next_sess_id t) + length ds < 2 ^ 64
    \<Longrightarrow> run (table_step chk hmac4) t evs t'"
proof (induction ds arbitrary: t ps evs)
  case Nil
  then show ?case by (simp add: run_nil)
next
  case (Cons d ds)
  obtain peer raw rnd clk now where d: "d = (peer, raw, rnd, clk, now)" by (metis prod_cases5)
  obtain t1 ps1 evs1 ps2 evs2 where 1: "handle_datagram chk hmac4 t peer raw rnd clk now = Some (t1, ps1, evs1)"
      "datagrams chk hmac4 t1 ds = Some (t', ps2, evs2)" "evs = evs1 @ evs2"
    using Cons.prems(1) d by (auto split: bind_splits)
  have s: "unat (st_next_sess_id t + 1) = Suc (unat (st_next_sess_id t))"
    using Cons.prems(3) by (simp add: unat_plus_if')
  have ne: "st_next_sess_id t \<noteq> - 1" using s by auto
  have inv: "table_ok t" "ids_fresh t" using Cons.prems(2) by (simp_all add: table_inv_def)
  have "unat (st_next_sess_id t1) + length ds < 2 ^ 64"
    using handle_datagram_ids [OF 1(1) inv ne] s Cons.prems(3) by auto
  then have "run (table_step chk hmac4) t1 evs2 t'"
    using Cons.IH [OF 1(2)] datagram_life [OF 1(1) Cons.prems(2) ne] by blast
  then show ?case unfolding 1(3) by (rule run_trans) (rule run_single, rule step_datagram [OF 1(1) ne])
qed

theorem session_event_order_witness:
  "\<exists>t. run (table_step True (\<lambda>_ _. [])) (table_new default_config) [EvOpen 1 (V4 1 2) [9]] t
     \<and> 1 \<in> live t \<and> opened 1 (of_session 1 [EvOpen 1 (V4 1 2) [9]])"
proof -
  obtain t ps where t: "datagrams True (\<lambda>_ _. []) (table_new default_config)
       [(V4 1 2, sample_request, 77, 0, 0), (V4 1 2, sample_response 77, 88, 5, 5)] = Some (t, ps, [EvOpen 1 (V4 1 2) [9]])"
      "table_get t 1 = Some (new_session 1 1 (V4 1 2) 88 [9] 5)"
    using sample_handshake by blast
  have "unat (st_next_sess_id (table_new default_config)) + 2 < 2 ^ 64" by (simp add: table_new_def)
  then have r: "run (table_step True (\<lambda>_ _. [])) (table_new default_config) [EvOpen 1 (V4 1 2) [9]] t"
    using datagrams_run [OF t(1) table_inv_new] by simp
  have "1 \<in> live t" using liveI [OF t(2)] by (simp add: new_session_def)
  with session_event_order [OF cfg_ok_default(1) r, of 1] r show ?thesis by blast
qed

theorem table_refines_lifecycle_witness:
  "life_step (live one_session, st_next_sess_id one_session) (snd (shutdown_all one_session))
     (live (fst (shutdown_all one_session)), st_next_sess_id (fst (shutdown_all one_session)))"
proof -
  have "table_inv one_session" by (simp add: table_inv_def)
  moreover have "table_step True (\<lambda>_ _. []) one_session (snd (shutdown_all one_session)) (fst (shutdown_all one_session))"
    by (rule step_shutdown) simp
  ultimately show ?thesis using table_refines_lifecycle by blast
qed

end
