(* ===== verification/Transport.thy ===== *)
theory Transport
  imports Framing Uds_Body
begin

text \<open>
  The client transports under \<open>src/transport/\<close> as far as they are not socket I/O: the length-prefixed
  framing of the TCP transport and its connection loop (\<open>tcp.rs\<close>), the virtual peer addresses and the
  writer table that TCP and WebSocket connections share in form (\<open>tcp.rs\<close>, \<open>ws.rs\<close>), and the receive
  buffer and the round robin over the UDP sockets (\<open>udp.rs\<close>). A bounded channel is the list of messages
  waiting in it.
\<close>

section \<open>Virtual peers\<close>

definition TCP_VIRTUAL_IP :: bytes where "TCP_VIRTUAL_IP = [127, 0, 0, 2]"
definition WS_VIRTUAL_IP :: bytes where "WS_VIRTUAL_IP = [127, 0, 0, 3]"

definition tcp_is_virtual_peer :: "socket_addr \<Rightarrow> bool" where
  "tcp_is_virtual_peer peer = (case peer of V4 ip port \<Rightarrow> le32 ip = TCP_VIRTUAL_IP | V6 _ _ _ _ \<Rightarrow> False)"

definition ws_is_virtual_peer :: "socket_addr \<Rightarrow> bool" where
  "ws_is_virtual_peer peer = (case peer of V4 ip port \<Rightarrow> le32 ip = WS_VIRTUAL_IP | V6 _ _ _ _ \<Rightarrow> False)"

text \<open>The part of a receiver that is shared between its tasks.\<close>

record receiver =
  rc_next_port :: u16
  rc_writers :: "socket_addr \<rightharpoonup> bytes list"
  rc_conns :: u16

definition receiver_new :: receiver where
  "receiver_new = \<lparr>rc_next_port = 1, rc_writers = Map.empty, rc_conns = 0\<rparr>"

definition WRITER_CAP :: nat where "WRITER_CAP = 256"

definition accept_peer :: "bytes \<Rightarrow> receiver \<Rightarrow> receiver \<times> socket_addr" where
  "accept_peer ip r = (r\<lparr>rc_next_port := rc_next_port r + 1\<rparr>, V4 (of_le ip) (rc_next_port r))"

definition conn_open :: "receiver \<Rightarrow> socket_addr \<Rightarrow> receiver" where
  "conn_open r peer = r\<lparr>rc_writers := (rc_writers r)(peer \<mapsto> []), rc_conns := rc_conns r + 1\<rparr>"

definition conn_close :: "receiver \<Rightarrow> socket_addr \<Rightarrow> receiver" where
  "conn_close r peer = r\<lparr>rc_writers := (rc_writers r)(peer := None), rc_conns := rc_conns r - 1\<rparr>"

definition writer_try_send :: "receiver \<Rightarrow> bytes \<Rightarrow> socket_addr \<Rightarrow> receiver" where
  "writer_try_send r bytes peer =
     (case rc_writers r peer of
        None \<Rightarrow> r
      | Some q \<Rightarrow> if length q < WRITER_CAP then r\<lparr>rc_writers := (rc_writers r)(peer \<mapsto> q @ [bytes])\<rparr> else r)"

section \<open>TCP framing\<close>

definition TCP_MAX_LEN :: nat where "TCP_MAX_LEN = 65535"

text \<open>What the write task puts on the stream for one message.\<close>

definition tcp_frame :: "bytes \<Rightarrow> bytes" where
  "tcp_frame bytes = le32 (of_nat (length bytes)) @ bytes"

text \<open>One turn of the read loop: a message, not enough bytes, or an illegal length that ends the connection.\<close>

definition tcp_cut :: "bytes \<Rightarrow> (bytes option \<times> bytes) res" where
  "tcp_cut buf =
     (if length buf < 4 then Inr (None, buf)
      else let len = unat (of_le (take 4 buf) :: u32) in
        if len = 0 \<or> TCP_MAX_LEN < len then Inl ErrClosed
        else if length buf < 4 + len then Inr (None, buf)
        else Inr (Some (take len (drop 4 buf)), drop (4 + len) buf))"

text \<open>The read loop over everything the peer sends: the packets it hands to the engine.\<close>

function tcp_conn_loop :: "bytes \<Rightarrow> bytes list" where
  "tcp_conn_loop stream =
     (case tcp_cut stream of
        Inr (Some msg, rest) \<Rightarrow> msg # tcp_conn_loop rest
      | _ \<Rightarrow> [])"
  by auto
termination
  by (relation "measure length") (auto simp: tcp_cut_def Let_def split: if_splits)

declare tcp_conn_loop.simps [simp del]

definition tcp_ok :: "bytes \<Rightarrow> bool" where
  "tcp_ok m \<longleftrightarrow> m \<noteq> [] \<and> length m \<le> TCP_MAX_LEN"

lemma tcp_len: "length m \<le> TCP_MAX_LEN \<Longrightarrow> unat (of_nat (length m) :: u32) = length m"
  by (simp add: TCP_MAX_LEN_def unat_of_nat)

interpretation tcp: framing tcp_frame tcp_cut tcp_ok
proof unfold_locales
  fix m rest
  assume "tcp_ok m"
  then show "tcp_cut (tcp_frame m @ rest) = Inr (Some m, rest)"
    by (auto simp: tcp_cut_def tcp_frame_def tcp_ok_def le32.dec_enc tcp_len Let_def)
next
  fix m p q
  assume "tcp_ok m" and f: "tcp_frame m = p @ q" and "q \<noteq> []"
  show "tcp_cut p = Inr (None, p)"
  proof (cases "length p < 4")
    case True
    then show ?thesis by (simp add: tcp_cut_def)
  next
    case False
    have "take 4 p = le32 (of_nat (length m))"
      using arg_cong [OF f, of "take 4"] False by (simp add: tcp_frame_def)
    moreover have "length p < 4 + length m"
      using arg_cong [OF f, of length] \<open>q \<noteq> []\<close> by (simp add: tcp_frame_def)
    ultimately show ?thesis
      using False \<open>tcp_ok m\<close> by (auto simp: tcp_cut_def tcp_ok_def le32.dec_enc tcp_len Let_def)
  qed
qed

text \<open>
  C29. The TCP transport carries datagrams: from the stream that is the concatenation of the frames
  of any legal messages, cut off inside a further frame or followed by a frame whose length field is
  illegal, the connection loop hands exactly those messages to the engine, in order, and then ends.
\<close>

theorem tcp_stream_messages:
  assumes "\<forall>m \<in> set ms. m \<noteq> [] \<and> length m \<le> 65535"
    and "(\<exists>g q. g \<noteq> [] \<and> length g \<le> 65535 \<and> tcp_frame g = tail @ q \<and> q \<noteq> [])
      \<or> (\<exists>n rest. tail = le32 n @ rest \<and> (n = 0 \<or> 65535 < unat n))"
  shows "tcp_conn_loop (concat (map tcp_frame ms) @ tail) = ms"
proof (rule tcp.cut_loop)
  show "tcp_conn_loop b = (case tcp_cut b of Inr (Some f, r) \<Rightarrow> f # tcp_conn_loop r | _ \<Rightarrow> [])" for b
    by (rule tcp_conn_loop.simps)
  show "\<forall>m \<in> set ms. tcp_ok m" using assms(1) by (simp add: tcp_ok_def TCP_MAX_LEN_def)
  show "tcp_conn_loop tail = []"
    using assms(2)
  proof
    assume "\<exists>g q. g \<noteq> [] \<and> length g \<le> 65535 \<and> tcp_frame g = tail @ q \<and> q \<noteq> []"
    then have "tcp_cut tail = Inr (None, tail)"
      using tcp.cut_partial [of _ tail] by (auto simp: tcp_ok_def TCP_MAX_LEN_def)
    then show ?thesis by (subst tcp_conn_loop.simps) simp
  next
    assume "\<exists>n rest. tail = le32 n @ rest \<and> (n = 0 \<or> 65535 < unat n)"
    then obtain n rest where "tail = le32 n @ rest" "n = 0 \<or> 65535 < unat n" by blast
    then have "tcp_cut tail = Inl ErrClosed"
      by (auto simp: tcp_cut_def le32.dec_enc TCP_MAX_LEN_def Let_def)
    then show ?thesis by (subst tcp_conn_loop.simps) simp
  qed
qed

theorem tcp_stream_messages_witness:
  "tcp_conn_loop [2, 0, 0, 0, 7, 8, 1, 0, 0, 0, 9, 0, 0, 0, 0, 5] = [[7, 8], [9]]"
proof -
  have "[0, 0, 0, 0, 5] = le32 0 @ [5]" by (simp add: eval_simps)
  then have "\<exists>n rest. [0, 0, 0, 0, 5] = le32 n @ rest \<and> (n = 0 \<or> 65535 < unat n)" by blast
  from tcp_stream_messages [of "[[7, 8], [9]]", OF _ disjI2 [OF this]] show ?thesis
    by (simp add: tcp_frame_def eval_simps)
qed

section \<open>WebSocket messages\<close>

text \<open>
  What the \<open>tungstenite\<close> stream yields: a binary message, the peer's close, its ping, an error, or any
  other message (text, pong, raw frame).
\<close>

datatype ws_message = WsBinary bytes | WsClose | WsPing | WsErr | WsOther

fun ws_conn_loop :: "ws_message list \<Rightarrow> bytes list" where
  "ws_conn_loop [] = []"
| "ws_conn_loop (WsBinary b # ms) = b # ws_conn_loop ms"
| "ws_conn_loop (WsClose # ms) = []"
| "ws_conn_loop (WsPing # ms) = []"
| "ws_conn_loop (WsErr # ms) = []"
| "ws_conn_loop (WsOther # ms) = ws_conn_loop ms"

lemma ws_conn_loop_prefix:
  "ws_conn_loop ms = concat (map (\<lambda>m. case m of WsBinary b \<Rightarrow> [b] | _ \<Rightarrow> [])
     (takeWhile (\<lambda>m. m \<noteq> WsClose \<and> m \<noteq> WsPing \<and> m \<noteq> WsErr) ms))"
  by (induction ms rule: ws_conn_loop.induct) simp_all

section \<open>Addresses of connections\<close>

definition nth_peer :: "bytes \<Rightarrow> nat \<Rightarrow> socket_addr" where
  "nth_peer ip n = snd (accept_peer ip (((\<lambda>r. fst (accept_peer ip r)) ^^ n) receiver_new))"

lemma nth_peer_eq: "nth_peer ip n = V4 (of_le ip) (of_nat (Suc n))"
proof -
  have "rc_next_port (((\<lambda>r. fst (accept_peer ip r)) ^^ n) receiver_new) = of_nat (Suc n)" for n
    by (induction n) (simp_all add: accept_peer_def receiver_new_def)
  then show ?thesis by (simp add: nth_peer_def accept_peer_def)
qed

lemma virtual_ip_words:
  "le32 (of_le TCP_VIRTUAL_IP) = TCP_VIRTUAL_IP" "le32 (of_le WS_VIRTUAL_IP) = WS_VIRTUAL_IP"
  by (simp_all add: TCP_VIRTUAL_IP_def WS_VIRTUAL_IP_def le32.enc_dec)

lemma virtual_ips_differ: "TCP_VIRTUAL_IP \<noteq> WS_VIRTUAL_IP"
  by (simp add: TCP_VIRTUAL_IP_def WS_VIRTUAL_IP_def)

text \<open>
  The virtual addresses tell connections apart: every TCP connection is recognised as TCP and not
  as WebSocket and the other way round, no TCP peer ever equals a WebSocket peer, and two
  connections of one transport share an address exactly when their numbers agree modulo \<open>2^16\<close> (so
  the 65537th connection takes over the writer entry of the first, if that is still open).
\<close>

theorem virtual_peers_distinct:
  "tcp_is_virtual_peer (nth_peer TCP_VIRTUAL_IP i) \<and> \<not> ws_is_virtual_peer (nth_peer TCP_VIRTUAL_IP i)
   \<and> ws_is_virtual_peer (nth_peer WS_VIRTUAL_IP j) \<and> \<not> tcp_is_virtual_peer (nth_peer WS_VIRTUAL_IP j)
   \<and> nth_peer TCP_VIRTUAL_IP i \<noteq> nth_peer WS_VIRTUAL_IP j
   \<and> (nth_peer ip i = nth_peer ip j \<longleftrightarrow> i mod 2 ^ 16 = j mod 2 ^ 16)"
proof -
  have "of_le TCP_VIRTUAL_IP \<noteq> (of_le WS_VIRTUAL_IP :: u32)"
    using virtual_ip_words virtual_ips_differ by metis
  moreover have "(of_nat (Suc i) :: u16) = of_nat (Suc j) \<longleftrightarrow> i mod 2 ^ 16 = j mod 2 ^ 16"
  proof -
    have "(of_nat (Suc i) :: u16) = of_nat (Suc j) \<longleftrightarrow> (of_nat i :: u16) = of_nat j" by simp
    also have "\<dots> \<longleftrightarrow> i mod 2 ^ 16 = j mod 2 ^ 16"
      by (simp only: word_of_nat_eq_iff take_bit_eq_mod) simp
    finally show ?thesis .
  qed
  ultimately show ?thesis
    using virtual_ips_differ
    by (simp add: nth_peer_eq tcp_is_virtual_peer_def ws_is_virtual_peer_def virtual_ip_words del: of_nat_Suc)
qed

section \<open>UDP sockets\<close>

text \<open>What \<open>recv_from\<close> into a buffer of \<open>MTU\<close> bytes keeps of a datagram, and whether the handler runs.\<close>

definition udp_receive :: "bytes \<Rightarrow> bytes option" where
  "udp_receive datagram = (let got = take MTU datagram in if 0 < length got then Some got else None)"

record udp_sender =
  us_sockets :: nat
  us_idx :: u64

definition udp_bind :: "nat \<Rightarrow> nat" where
  "udp_bind count = max count 1"

definition udp_sender_new :: "nat \<Rightarrow> udp_sender" where
  "udp_sender_new sockets = \<lparr>us_sockets = sockets, us_idx = 0\<rparr>"

definition udp_pick :: "udp_sender \<Rightarrow> udp_sender \<times> nat" where
  "udp_pick s = (s\<lparr>us_idx := us_idx s + 1\<rparr>, unat (us_idx s) mod us_sockets s)"

lemma udp_pick_in_range:
  "snd (udp_pick (((\<lambda>s. fst (udp_pick s)) ^^ n) (udp_sender_new (udp_bind count)))) < udp_bind count"
proof -
  have "us_sockets (((\<lambda>s. fst (udp_pick s)) ^^ n) s) = us_sockets s" for s
    by (induction n) (simp_all add: udp_pick_def)
  then show ?thesis by (simp add: udp_pick_def udp_sender_new_def udp_bind_def)
qed

end
