(* ===== verification/Buffer_Pool.thy ===== *)
theory Buffer_Pool
  imports Prelude
begin

text \<open>
  The buffer pool of \<open>src/buffer.rs\<close>. A pooled buffer is empty, so its capacity is all there is of it;
  a free list is a stack with its top first. The capacity that the \<open>bytes\<close> crate gives is a
  parameter: \<open>alloc n\<close> for \<open>with_capacity(n)\<close>, \<open>grow c n\<close> for \<open>reserve(n)\<close> on an empty buffer of
  capacity \<open>c\<close>.
\<close>

definition SMALL_CAP :: nat where "SMALL_CAP = 256"
definition MEDIUM_CAP :: nat where "MEDIUM_CAP = 1500"
definition LARGE_CAP :: nat where "LARGE_CAP = 16 * 1024"
definition FREE_PER_LEVEL :: nat where "FREE_PER_LEVEL = 1024"

record level =
  lv_cap :: nat
  lv_free :: "nat list"

definition pool_new :: "level list" where
  "pool_new = [\<lparr>lv_cap = SMALL_CAP, lv_free = []\<rparr>, \<lparr>lv_cap = MEDIUM_CAP, lv_free = []\<rparr>,
     \<lparr>lv_cap = LARGE_CAP, lv_free = []\<rparr>]"

definition level_for :: "nat \<Rightarrow> nat" where
  "level_for min_cap = (if min_cap \<le> SMALL_CAP then 0 else if min_cap \<le> MEDIUM_CAP then 1 else 2)"

definition acquire :: "(nat \<Rightarrow> nat) \<Rightarrow> (nat \<Rightarrow> nat \<Rightarrow> nat) \<Rightarrow> level list \<Rightarrow> nat \<Rightarrow> level list \<times> nat" where
  "acquire alloc grow pool min_cap =
     (let i = level_for min_cap; l = pool ! i in
      case lv_free l of
        c # cs \<Rightarrow> (pool[i := l\<lparr>lv_free := cs\<rparr>], grow c (min_cap - c))
      | [] \<Rightarrow> (pool, alloc (max (lv_cap l) min_cap)))"

definition release :: "level list \<Rightarrow> nat \<Rightarrow> level list" where
  "release pool c =
     (let i = level_for c; l = pool ! i in
      if lv_cap l < c then pool
      else if FREE_PER_LEVEL \<le> length (lv_free l) then pool
      else pool[i := l\<lparr>lv_free := c # lv_free l\<rparr>])"

section \<open>Invariant\<close>

definition level_ok :: "level \<Rightarrow> bool" where
  "level_ok l \<longleftrightarrow> length (lv_free l) \<le> FREE_PER_LEVEL \<and> (\<forall>c \<in> set (lv_free l). c \<le> lv_cap l)"

definition pool_ok :: "level list \<Rightarrow> bool" where
  "pool_ok pool \<longleftrightarrow> map lv_cap pool = [SMALL_CAP, MEDIUM_CAP, LARGE_CAP] \<and> list_all level_ok pool"

lemma level_for_less: "level_for n < 3"
  by (simp add: level_for_def)

lemma pool_ok_length: "pool_ok pool \<Longrightarrow> length pool = 3"
  by (auto simp: pool_ok_def dest: arg_cong [of _ _ length])

lemma pool_ok_update:
  assumes "pool_ok pool" "level_ok (l\<lparr>lv_free := fs\<rparr>)" "l = pool ! level_for n"
  shows "pool_ok (pool[level_for n := l\<lparr>lv_free := fs\<rparr>])"
proof -
  have "map lv_cap (pool[level_for n := l\<lparr>lv_free := fs\<rparr>]) = map lv_cap pool"
    unfolding assms(3) using level_for_less [of n] pool_ok_length [OF assms(1)]
    by (intro nth_equalityI) (simp_all add: nth_list_update)
  then show ?thesis
    using assms(1,2) by (auto simp: pool_ok_def list_all_iff dest!: set_update_subset_insert [THEN subsetD])
qed

lemma level_ok_nth: "pool_ok pool \<Longrightarrow> level_ok (pool ! level_for n)"
  using level_for_less [of n] pool_ok_length [of pool] by (simp add: pool_ok_def list_all_length)

lemma acquire_ok: "pool_ok pool \<Longrightarrow> pool_ok (fst (acquire alloc grow pool n))"
  using level_ok_nth [of pool n]
  by (auto simp: acquire_def Let_def level_ok_def split: list.split intro!: pool_ok_update)

lemma release_ok: "pool_ok pool \<Longrightarrow> pool_ok (release pool c)"
  using level_ok_nth [of pool c]
  by (auto simp: release_def Let_def level_ok_def intro!: pool_ok_update)

text \<open>Any sequence of operations: \<open>Inl\<close> acquires, \<open>Inr\<close> releases.\<close>

fun pool_run :: "(nat \<Rightarrow> nat) \<Rightarrow> (nat \<Rightarrow> nat \<Rightarrow> nat) \<Rightarrow> level list \<Rightarrow> (nat + nat) list \<Rightarrow> level list" where
  "pool_run alloc grow pool [] = pool"
| "pool_run alloc grow pool (Inl n # ops) = pool_run alloc grow (fst (acquire alloc grow pool n)) ops"
| "pool_run alloc grow pool (Inr c # ops) = pool_run alloc grow (release pool c) ops"

lemma pool_run_ok: "pool_ok pool \<Longrightarrow> pool_ok (pool_run alloc grow pool ops)"
  by (induction alloc grow pool ops rule: pool_run.induct) (simp_all add: acquire_ok release_ok)

lemma pool_ok_new: "pool_ok pool_new"
  by (simp add: pool_ok_def pool_new_def level_ok_def)

text \<open>
  The pool is bounded: after any sequence of operations each level holds at most 1024 buffers, none
  above the level's capacity. But the capacity promised by \<open>acquire\<close> is not kept: as \<open>reserve\<close> is
  asked for the difference to the old capacity instead of the whole, a pooled buffer is only sure to
  have half of what was asked for, and with growth to exactly the reserved size it has less.
\<close>

theorem buffer_pool_bounds:
  assumes "\<And>n. n \<le> alloc n" and "\<And>c n. max c n \<le> grow c n"
  shows "pool_ok (pool_run alloc grow pool_new ops)
    \<and> n \<le> 2 * snd (acquire alloc grow (pool_run alloc grow pool_new ops) n)
    \<and> snd (acquire alloc max (release pool_new 10) 200) = 190"
proof -
  have "pool_ok (pool_run alloc grow pool_new ops)" by (rule pool_run_ok [OF pool_ok_new])
  moreover have "n \<le> 2 * snd (acquire alloc grow p n)" for p
    using assms(1) [of "max (lv_cap (p ! level_for n)) n"] assms(2) [of "hd (lv_free (p ! level_for n))" "n - hd (lv_free (p ! level_for n))"]
    by (auto simp: acquire_def Let_def split: list.split)
  moreover have "snd (acquire alloc max (release pool_new 10) 200) = 190"
    by (simp add: acquire_def release_def pool_new_def level_for_def SMALL_CAP_def FREE_PER_LEVEL_def)
  ultimately show ?thesis by blast
qed

theorem buffer_pool_bounds_witness:
  "pool_ok (pool_run (\<lambda>n. n) max pool_new [Inr 10, Inl 200, Inr 3000])
    \<and> snd (acquire (\<lambda>n. n) max (release pool_new 10) 200) = 190"
  using buffer_pool_bounds [of "\<lambda>n. n" max "[Inr 10, Inl 200, Inr 3000]" 0] by (simp del: pool_run.simps)

end
