(* ===== verification/Netem.thy ===== *)
theory Netem
  imports Prelude Complex_Main
begin

text \<open>
  The network emulator of \<open>src/transport/netem.rs\<close>, used by the tests and the load tool. The draws of the
  random generator (a number in \<open>[0, 1)\<close> for a decision, an integer of a range for the jitter) are
  arguments. Rates are the exact rationals of their binary64 values.
\<close>

record blackout =
  bo_from :: instant
  bo_len :: duration

record netem =
  ne_delay :: duration
  ne_jitter :: duration
  ne_loss :: rat
  ne_dup :: rat
  ne_blackout :: "blackout option"

definition netem_new :: netem where
  "netem_new = \<lparr>ne_delay = 0, ne_jitter = 0, ne_loss = 0, ne_dup = 0, ne_blackout = None\<rparr>"

definition set_blackout :: "netem \<Rightarrow> instant \<Rightarrow> duration \<Rightarrow> duration \<Rightarrow> netem" where
  "set_blackout n clk start len = n\<lparr>ne_blackout := Some \<lparr>bo_from = clk + start, bo_len = len\<rparr>\<rparr>"

definition is_blackout :: "netem \<Rightarrow> instant \<Rightarrow> bool" where
  "is_blackout n now =
     (case ne_blackout n of
        Some b \<Rightarrow> bo_from b \<le> now \<and> now \<le> bo_from b + bo_len b
      | None \<Rightarrow> False)"

definition should_drop :: "netem \<Rightarrow> rat \<Rightarrow> bool" where
  "should_drop n draw \<longleftrightarrow> 0 < ne_loss n \<and> draw < ne_loss n"

definition should_dup :: "netem \<Rightarrow> rat \<Rightarrow> bool" where
  "should_dup n draw \<longleftrightarrow> 0 < ne_dup n \<and> draw < ne_dup n"

text \<open>\<open>gen_range(-half..=half)\<close> is an argument \<open>spread\<close> with \<open>\<bar>spread\<bar> \<le> half\<close>.\<close>

definition jitter_half :: "netem \<Rightarrow> int" where
  "jitter_half n = int (as_millis (ne_jitter n)) div 2"

definition latency :: "netem \<Rightarrow> int \<Rightarrow> duration" where
  "latency n spread =
     (if ne_jitter n = 0 then ne_delay n
      else millis (nat (max (int (as_millis (ne_delay n)) + spread) 0)))"

text \<open>
  The emulator respects its parameters: a loss rate of zero never drops and a rate of one always
  does, the jitter moves the delay by at most half the jitter each way (not by the whole jitter, as
  the field's comment says), and a blackout covers exactly its closed window.
\<close>

theorem netem_parameters:
  assumes "0 \<le> draw" "draw < 1" "\<bar>spread\<bar> \<le> jitter_half n"
  shows "(ne_loss n \<le> 0 \<longrightarrow> \<not> should_drop n draw) \<and> (1 \<le> ne_loss n \<longrightarrow> should_drop n draw)
    \<and> latency n spread \<le> ne_delay n + ne_jitter n div 2
    \<and> (ne_jitter n \<noteq> 0 \<longrightarrow> millis (as_millis (ne_delay n)) \<le> latency n spread + ne_jitter n div 2)
    \<and> (is_blackout (set_blackout n clk start len) now \<longleftrightarrow> clk + start \<le> now \<and> now \<le> clk + start + len)"
proof -
  let ?d = "as_millis (ne_delay n)" and ?h = "as_millis (ne_jitter n) div 2"
  have h: "jitter_half n = int ?h" by (simp add: jitter_half_def)
  have d: "millis ?d \<le> ne_delay n" by (simp add: as_millis_def)
  have j: "millis ?h \<le> ne_jitter n div 2" by (simp add: as_millis_def)
  have up: "nat (max (int ?d + spread) 0) \<le> ?d + ?h" using assms(3) h by simp
  have lo: "?d \<le> nat (max (int ?d + spread) 0) + ?h" using assms(3) h by simp
  have "latency n spread \<le> ne_delay n + ne_jitter n div 2"
    using mult_le_mono1 [OF up, of 1000000] d j by (simp add: latency_def)
  moreover have "millis ?d \<le> latency n spread + ne_jitter n div 2" if "ne_jitter n \<noteq> 0"
    using mult_le_mono1 [OF lo, of 1000000] j that by (simp add: latency_def)
  ultimately show ?thesis
    using assms(1,2) by (auto simp: should_drop_def is_blackout_def set_blackout_def)
qed

theorem netem_parameters_witness:
  "latency (netem_new\<lparr>ne_delay := millis 20, ne_jitter := millis 10\<rparr>) (- 5) \<le> millis 25"
  using netem_parameters [of 0 "- 5" "netem_new\<lparr>ne_delay := millis 20, ne_jitter := millis 10\<rparr>"]
  by (simp add: jitter_half_def as_millis_def)

end
