(* ===== verification/Engine.thy ===== *)
theory Engine
  imports Trace Transport
begin

text \<open>
  The engine of \<open>src/engine.rs\<close> between its tasks: the shared state, the upward queue with its
  overload notice, the handling of the logic server's frames, the routing of outbound packets, the two
  maintenance ticks, and the connection to the logic server with its reconnection back-off. Each
  synchronous stretch of a task is one function; the clock values it reads are arguments. The bounded
  channel to the writer task is the list of frames in it (\<open>None\<close> while the link is down). \<open>None\<close> as a
  result is a panic.
\<close>

section \<open>State\<close>

definition LOGIC_RECONNECT_INTERVAL :: duration where "LOGIC_RECONNECT_INTERVAL = secs 1"
definition LOGIC_RECONNECT_MAX :: duration where "LOGIC_RECONNECT_MAX = secs 8"
definition OVERLOAD_MIN_INTERVAL :: duration where "OVERLOAD_MIN_INTERVAL = millis 100"

record up_channel =
  uc_frames :: "uds_frame list"
  uc_closed :: bool

record shared =
  sh_sessions :: session_table
  sh_stats :: stats
  sh_logic_online :: bool
  sh_last_overload :: instant
  sh_last_heartbeat :: instant
  sh_pending_overload :: bool
  sh_udp :: bool
  sh_up_tx :: "up_channel option"
  sh_tcp :: bool
  sh_ws :: bool
  sh_logic_last_online :: instant

definition shared_new :: "session_table \<Rightarrow> instant \<Rightarrow> shared" where
  "shared_new sessions clk = \<lparr>sh_sessions = sessions, sh_stats = stats_new, sh_logic_online = False,
     sh_last_overload = clk, sh_last_heartbeat = clk, sh_pending_overload = False, sh_udp = False,
     sh_up_tx = None, sh_tcp = False, sh_ws = False, sh_logic_last_online = clk\<rparr>"

abbreviation count_up :: "(stats \<Rightarrow> stats) \<Rightarrow> shared \<Rightarrow> shared" where
  "count_up f sh \<equiv> sh\<lparr>sh_stats := f (sh_stats sh)\<rparr>"

text \<open>The configuration; the number of processors is a parameter of its default.\<close>

record engine_config =
  ec_bind_addr :: socket_addr
  ec_uds_path :: string
  ec_udp_workers :: nat
  ec_tcp_bind_addr :: "socket_addr option"
  ec_ws_bind_addr :: "socket_addr option"
  ec_session :: table_config
  ec_version :: u16
  ec_caps :: u32

definition engine_config_default :: "nat \<Rightarrow> engine_config" where
  "engine_config_default cpus = \<lparr>ec_bind_addr = V4 0 0, ec_uds_path = ''/run/soup-engine.sock'',
     ec_udp_workers = cpus, ec_tcp_bind_addr = None, ec_ws_bind_addr = None,
     ec_session = default_config, ec_version = ucast VERSION, ec_caps = 0\<rparr>"

definition engine_new :: "engine_config \<Rightarrow> instant \<Rightarrow> shared" where
  "engine_new cfg clk = shared_new (table_new (ec_session cfg)) clk"

text \<open>The part of \<open>run\<close> before the tasks start: every transport asked for has been bound.\<close>

definition engine_start :: "engine_config \<Rightarrow> shared \<Rightarrow> shared" where
  "engine_start cfg sh = sh\<lparr>sh_udp := True, sh_tcp := ec_tcp_bind_addr cfg \<noteq> None, sh_ws := ec_ws_bind_addr cfg \<noteq> None\<rparr>"

section \<open>The upward queue\<close>

definition event_frame :: "session_event \<Rightarrow> uds_frame" where
  "event_frame ev =
     (case ev of
        EvOpen sess_id peer token \<Rightarrow> session_open sess_id peer token
      | EvClose sess_id reason \<Rightarrow> session_close sess_id reason
      | EvResume sess_id gap_ms \<Rightarrow> session_resume sess_id gap_ms
      | EvData sess_id ch msg_id payload \<Rightarrow> data_up sess_id ch msg_id payload)"

definition is_droppable :: "session_event \<Rightarrow> bool" where
  "is_droppable ev = (case ev of
      EvData _ ch _ _ \<Rightarrow> ch = CH_UNRELIABLE_UNORDERED \<or> ch = CH_UNRELIABLE_SEQUENCED | _ \<Rightarrow> False)"

definition notify_overload :: "shared \<Rightarrow> instant \<Rightarrow> shared" where
  "notify_overload sh now =
     (if duration_since now (sh_last_overload sh) < OVERLOAD_MIN_INTERVAL then sh
      else sh\<lparr>sh_last_overload := now, sh_pending_overload := True\<rparr>)"

text \<open>The flag only selects a log message.\<close>

definition push_frame :: "shared \<Rightarrow> uds_frame \<Rightarrow> bool \<Rightarrow> instant \<Rightarrow> shared" where
  "push_frame sh frame droppable now =
     (case sh_up_tx sh of
        None \<Rightarrow> count_up (dropped_up_update incr) sh
      | Some q \<Rightarrow>
          if uc_closed q then count_up (dropped_up_update incr) sh
          else if length (uc_frames q) < UP_QUEUE_CAP
          then sh\<lparr>sh_up_tx := Some (q\<lparr>uc_frames := uc_frames q @ [frame]\<rparr>)\<rparr>
          else notify_overload (count_up (dropped_up_update incr) sh) now)"

definition push_up :: "shared \<Rightarrow> session_event \<Rightarrow> instant \<Rightarrow> shared" where
  "push_up sh ev now = push_frame sh (event_frame ev) (is_droppable ev) now"

text \<open>The loop over the events of one call; each turn may read the clock anew.\<close>

fun push_ups :: "shared \<Rightarrow> session_event list \<Rightarrow> (nat \<Rightarrow> instant) \<Rightarrow> shared" where
  "push_ups sh [] clk = sh"
| "push_ups sh (ev # evs) clk = push_ups (push_up sh ev (clk 0)) evs (\<lambda>i. clk (Suc i))"

text \<open>The receive callback of every transport: the table, then the queue.\<close>

definition on_packet :: "bool \<Rightarrow> (bytes \<Rightarrow> bytes \<Rightarrow> bytes) \<Rightarrow> shared \<Rightarrow> socket_addr \<Rightarrow> bytes \<Rightarrow> u64 \<Rightarrow> instant
    \<Rightarrow> instant \<Rightarrow> (nat \<Rightarrow> instant) \<Rightarrow> (shared \<times> packets) option" where
  "on_packet chk hmac4 sh peer data rnd clk now clks = do {
     (t, sent, evs) \<leftarrow> handle_datagram chk hmac4 (sh_sessions sh) peer data rnd clk now;
     Some (push_ups (sh\<lparr>sh_sessions := t\<rparr>) evs clks, sent)
   }"

section \<open>Outbound\<close>

datatype route = ViaTcp | ViaWs | ViaUdp

text \<open>\<open>udp_ok\<close> says whether the operating system accepts a datagram.\<close>

definition route_packet :: "(bytes \<Rightarrow> socket_addr \<Rightarrow> bool) \<Rightarrow> shared \<Rightarrow> bytes \<times> socket_addr
    \<Rightarrow> shared \<times> (route \<times> bytes \<times> socket_addr) list" where
  "route_packet udp_ok sh p =
     (let (bytes, peer) = p in
      if tcp_is_virtual_peer peer then
        if sh_tcp sh then (sh, [(ViaTcp, bytes, peer)]) else (count_up (dropped_down_update incr) sh, [])
      else if ws_is_virtual_peer peer then
        if sh_ws sh then (sh, [(ViaWs, bytes, peer)]) else (count_up (dropped_down_update incr) sh, [])
      else if sh_udp sh then
        if udp_ok bytes peer then (sh, [(ViaUdp, bytes, peer)]) else (count_up (dropped_down_update incr) sh, [])
      else (sh, []))"

fun route_packets :: "(bytes \<Rightarrow> socket_addr \<Rightarrow> bool) \<Rightarrow> shared \<Rightarrow> packets
    \<Rightarrow> shared \<times> (route \<times> bytes \<times> socket_addr) list" where
  "route_packets udp_ok sh [] = (sh, [])"
| "route_packets udp_ok sh (p # ps) =
     (let (sh, out) = route_packet udp_ok sh p;
          (sh, outs) = route_packets udp_ok sh ps
      in (sh, out @ outs))"

definition send_outbound :: "bool \<Rightarrow> (bytes \<Rightarrow> bytes \<Rightarrow> bytes) \<Rightarrow> (bytes \<Rightarrow> socket_addr \<Rightarrow> bool) \<Rightarrow> shared
    \<Rightarrow> instant \<Rightarrow> instant \<Rightarrow> u64 \<Rightarrow> u8 \<Rightarrow> u16 \<Rightarrow> bytes
    \<Rightarrow> (shared \<times> (route \<times> bytes \<times> socket_addr) list) option" where
  "send_outbound chk hmac4 udp_ok sh clk1 clk2 sess_id ch msg_id payload = do {
     (t, r) \<leftarrow> pack_outbound hmac4 (sh_sessions sh) clk1 sess_id ch msg_id payload;
     let sh = sh\<lparr>sh_sessions := t\<rparr>;
     case r of
       Inl e \<Rightarrow> Some (count_up (dropped_down_update incr) sh, [])
     | Inr packets \<Rightarrow> do {
         let total_bytes = of_nat (sum_list (map (length \<circ> fst) packets));
         (t, ok) \<leftarrow> check_budget chk (sh_sessions sh) sess_id total_bytes clk2;
         let sh = sh\<lparr>sh_sessions := t\<rparr>;
         if \<not> ok then Some (count_up (dropped_down_update (incr_by total_bytes)) sh, [])
         else Some (route_packets udp_ok sh packets)
       }
   }"

fun send_each :: "bool \<Rightarrow> (bytes \<Rightarrow> bytes \<Rightarrow> bytes) \<Rightarrow> (bytes \<Rightarrow> socket_addr \<Rightarrow> bool) \<Rightarrow> shared
    \<Rightarrow> (nat \<Rightarrow> instant) \<Rightarrow> u64 list \<Rightarrow> u8 \<Rightarrow> u16 \<Rightarrow> bytes
    \<Rightarrow> (shared \<times> (route \<times> bytes \<times> socket_addr) list) option" where
  "send_each chk hmac4 udp_ok sh clk [] ch msg_id payload = Some (sh, [])"
| "send_each chk hmac4 udp_ok sh clk (i # ids) ch msg_id payload = do {
     (sh, out) \<leftarrow> send_outbound chk hmac4 udp_ok sh (clk 0) (clk 1) i ch msg_id payload;
     (sh, outs) \<leftarrow> send_each chk hmac4 udp_ok sh (\<lambda>n. clk (n + 2)) ids ch msg_id payload;
     Some (sh, out @ outs)
   }"

section \<open>Frames of the logic server\<close>

text \<open>An error makes the read loop return, and so ends the link.\<close>

definition handle_logic_frame :: "bool \<Rightarrow> (bytes \<Rightarrow> bytes \<Rightarrow> bytes) \<Rightarrow> (bytes \<Rightarrow> socket_addr \<Rightarrow> bool) \<Rightarrow> shared
    \<Rightarrow> (nat \<Rightarrow> instant) \<Rightarrow> uds_frame
    \<Rightarrow> (shared \<times> (route \<times> bytes \<times> socket_addr) list \<times> unit res) option" where
  "handle_logic_frame chk hmac4 udp_ok sh clk frame =
     (if uf_ty frame = FRAME_LOGIC_HELLO then Some (sh, [], Inr ())
      else if uf_ty frame = FRAME_SEND then
        (case parse_data (uf_body frame) of
           Inl e \<Rightarrow> Some (sh, [], Inl e)
         | Inr (sess_id, ch, msg_id, payload) \<Rightarrow> do {
             (sh, out) \<leftarrow> send_outbound chk hmac4 udp_ok sh (clk 0) (clk 1) sess_id ch msg_id payload;
             Some (sh, out, Inr ())
           })
      else if uf_ty frame = FRAME_MULTICAST then
        (case parse_multicast (uf_body frame) of
           Inl e \<Rightarrow> Some (sh, [], Inl e)
         | Inr (ids, ch, msg_id, payload) \<Rightarrow> do {
             (sh, out) \<leftarrow> send_each chk hmac4 udp_ok sh clk ids ch msg_id payload;
             Some (sh, out, Inr ())
           })
      else if uf_ty frame = FRAME_KICK then
        (case parse_session_close (uf_body frame) of
           Inl e \<Rightarrow> Some (sh, [], Inl e)
         | Inr (sess_id, reason) \<Rightarrow>
             let (t, r) = kick_session (sh_sessions sh) sess_id reason;
                 sh = sh\<lparr>sh_sessions := t\<rparr>
             in Some (if r \<noteq> None then count_up (kicks_update incr) sh else sh, [], Inr ()))
      else if uf_ty frame = FRAME_SET_BUDGET then
        (case parse_set_budget (uf_body frame) of
           Inl e \<Rightarrow> Some (sh, [], Inl e)
         | Inr (sess_id, kbps) \<Rightarrow>
             Some (sh\<lparr>sh_sessions := set_budget (sh_sessions sh) sess_id kbps\<rparr>, [], Inr ()))
      else Some (sh, [], Inr ()))"

text \<open>The read loop over the frames the link yields; the first error ends it.\<close>

fun logic_read_loop :: "bool \<Rightarrow> (bytes \<Rightarrow> bytes \<Rightarrow> bytes) \<Rightarrow> (bytes \<Rightarrow> socket_addr \<Rightarrow> bool) \<Rightarrow> shared
    \<Rightarrow> (nat \<Rightarrow> nat \<Rightarrow> instant) \<Rightarrow> uds_frame list
    \<Rightarrow> (shared \<times> (route \<times> bytes \<times> socket_addr) list \<times> unit res) option" where
  "logic_read_loop chk hmac4 udp_ok sh clk [] = Some (sh, [], Inr ())"
| "logic_read_loop chk hmac4 udp_ok sh clk (frame # frames) = do {
     (sh, out, r) \<leftarrow> handle_logic_frame chk hmac4 udp_ok sh (clk 0) frame;
     case r of
       Inl e \<Rightarrow> Some (sh, out, Inl e)
     | Inr _ \<Rightarrow> do {
         (sh, outs, r) \<leftarrow> logic_read_loop chk hmac4 udp_ok sh (\<lambda>i. clk (Suc i)) frames;
         Some (sh, out @ outs, r)
       }
   }"

section \<open>Maintenance ticks\<close>

definition heartbeat_packet :: "session \<Rightarrow> packets" where
  "heartbeat_packet s = (case compute_ack s of (ack, ack_bits) \<Rightarrow>
     (case encode \<lparr>dh_version = VERSION, dh_flags = 0, dh_conn_id = se_conn_id s, dh_seq = se_send_seq s,
                   dh_ack = ack, dh_ack_bits = ack_bits\<rparr> [] [] of
        Inr (out, _) \<Rightarrow> [(out, se_peer s)]
      | Inl _ \<Rightarrow> []))"

definition heartbeats :: "instant \<Rightarrow> session list \<Rightarrow> packets" where
  "heartbeats now ss = concat (map heartbeat_packet
     (filter (\<lambda>s. is_active s \<and> HEARTBEAT_INTERVAL \<le> duration_since now (se_last_rx s)) ss))"

text \<open>The 100 ms tick; what it sends goes out over UDP whatever the peer.\<close>

definition maintenance_tick :: "shared \<Rightarrow> instant \<Rightarrow> (nat \<Rightarrow> instant)
    \<Rightarrow> (shared \<times> (route \<times> bytes \<times> socket_addr) list) option" where
  "maintenance_tick sh now clks = do {
     (t, evs) \<leftarrow> maintain (sh_sessions sh) now;
     let sh = push_ups (sh\<lparr>sh_sessions := t\<rparr>) evs clks;
     let (t, resent) = maintain_reliable (sh_sessions sh) now;
     let sh = sh\<lparr>sh_sessions := t\<rparr>;
     let due = HEARTBEAT_INTERVAL \<le> duration_since now (sh_last_heartbeat sh);
     let sh = (if due then sh\<lparr>sh_last_heartbeat := now\<rparr> else sh);
     let hb = (if due then heartbeats now (for_each_session (sh_sessions sh)) else []);
     Some (sh, map (\<lambda>(b, p). (ViaUdp, b, p)) (resent @ hb))
   }"

fun push_frames :: "shared \<Rightarrow> uds_frame list \<Rightarrow> bool \<Rightarrow> (nat \<Rightarrow> instant) \<Rightarrow> shared" where
  "push_frames sh [] droppable clk = sh"
| "push_frames sh (f # fs) droppable clk =
     push_frames (push_frame sh f droppable (clk 0)) fs droppable (\<lambda>i. clk (Suc i))"

definition second_tick :: "shared \<Rightarrow> (nat \<Rightarrow> instant) \<Rightarrow> instant \<Rightarrow> shared" where
  "second_tick sh clks now =
     (let frames = map (\<lambda>s. session_stats (se_sess_id s) 0 0 0) (for_each_session (sh_sessions sh));
          sh = push_frames sh frames True clks
      in if sh_pending_overload sh
         then push_frame (sh\<lparr>sh_pending_overload := False\<rparr>)
                (overload (ucast (dropped_up (sh_stats sh))) (ucast (dropped_down (sh_stats sh)))) False now
         else sh)"

section \<open>The link to the logic server\<close>

definition next_backoff :: "duration \<Rightarrow> duration" where
  "next_backoff b = min (b * 2) LOGIC_RECONNECT_MAX"

definition outage_gap :: "shared \<Rightarrow> instant \<Rightarrow> u32" where
  "outage_gap sh clk = of_nat (min (as_millis (duration_since clk (sh_logic_last_online sh))) (2 ^ 32 - 1))"

text \<open>A connection is made: the link is online, with a fresh queue; then the hello is written.\<close>

definition link_open :: "shared \<Rightarrow> shared" where
  "link_open sh =
     (let sh = count_up (logic_reconnects_update incr) (sh\<lparr>sh_logic_online := True\<rparr>)
      in sh\<lparr>sh_up_tx := Some \<lparr>uc_frames = [], uc_closed = False\<rparr>\<rparr>)"

text \<open>The link is down: after an error, after the peer's close, or when the first write failed.\<close>

definition link_down :: "shared \<Rightarrow> shared" where
  "link_down sh = sh\<lparr>sh_up_tx := None, sh_logic_online := False\<rparr>"

text \<open>After the hello a resume for every session; \<open>n\<close> of the writes succeed before the first failure.\<close>

definition link_resume :: "shared \<Rightarrow> nat \<Rightarrow> instant \<Rightarrow> instant \<Rightarrow> shared \<times> uds_frame list" where
  "link_resume sh n clk1 clk2 =
     (let gap_ms = outage_gap sh clk1;
          sh = sh\<lparr>sh_logic_last_online := clk2\<rparr>;
          resumes = map (\<lambda>s. session_resume (se_sess_id s) gap_ms) (for_each_session (sh_sessions sh))
      in (sh, take n resumes))"

text \<open>
  What a new connection does before its two loops run: \<open>hello_ok\<close> says whether the hello could be
  written and \<open>n\<close> how many resumes could be; the bytes on the stream and whether the loops start.
\<close>

definition link_hello :: "engine_config \<Rightarrow> bytes option" where
  "link_hello cfg = (case engine_hello (ec_version cfg) (ec_caps cfg) [] of Inr hello \<Rightarrow> Some hello | Inl _ \<Rightarrow> None)"

definition link_start :: "engine_config \<Rightarrow> shared \<Rightarrow> bool \<Rightarrow> nat \<Rightarrow> instant \<Rightarrow> instant \<Rightarrow> shared \<times> bytes \<times> bool" where
  "link_start cfg sh hello_ok n clk1 clk2 =
     (let sh = link_open sh; hello = link_hello cfg in
      if hello \<noteq> None \<and> \<not> hello_ok then (link_down sh, [], False)
      else
        let (sh, resumes) = link_resume sh n clk1 clk2;
            written = concat (map (\<lambda>f. case write_frame f of Inr b \<Rightarrow> b | Inl _ \<Rightarrow> []) resumes)
        in (sh, (case hello of Some h \<Rightarrow> h | None \<Rightarrow> []) @ written, True))"

text \<open>Before \<open>link_down\<close> the read or write loop has returned: the queue's receiver is gone, with the frames in it.\<close>

definition link_lost :: "shared \<Rightarrow> shared" where
  "link_lost sh = sh\<lparr>sh_up_tx := map_option (\<lambda>_. \<lparr>uc_frames = [], uc_closed = True\<rparr>) (sh_up_tx sh)\<rparr>"

text \<open>One turn of the connection loop: the outcome of connecting, the back-off it sleeps, the next one.\<close>

datatype attempt = Refused | Connected

definition backoff_turn :: "attempt \<Rightarrow> duration \<Rightarrow> duration \<times> duration" where
  "backoff_turn a b =
     (let b = (case a of Connected \<Rightarrow> LOGIC_RECONNECT_INTERVAL | Refused \<Rightarrow> b) in (b, next_backoff b))"

text \<open>The writer task takes the frame at the head of the queue; \<open>None\<close> when it has to wait.\<close>

definition write_step :: "shared \<Rightarrow> (shared \<times> bytes res) option" where
  "write_step sh =
     (case sh_up_tx sh of
        None \<Rightarrow> None
      | Some q \<Rightarrow>
          (case uc_frames q of
             [] \<Rightarrow> None
           | f # fs \<Rightarrow> Some (sh\<lparr>sh_up_tx := Some (q\<lparr>uc_frames := fs\<rparr>)\<rparr>, write_frame f)))"

definition drain :: "shared \<Rightarrow> (nat \<Rightarrow> instant) \<Rightarrow> shared" where
  "drain sh clks =
     (let (t, evs) = shutdown_all (sh_sessions sh) in push_ups (sh\<lparr>sh_sessions := t\<rparr>) evs clks)"

section \<open>The upward queue is bounded and ordered\<close>

lemma push_frame_fields [simp]:
  "sh_sessions (push_frame sh f d now) = sh_sessions sh"
  "sh_logic_online (push_frame sh f d now) = sh_logic_online sh"
  "dropped_down (sh_stats (push_frame sh f d now)) = dropped_down (sh_stats sh)"
  by (simp_all add: push_frame_def notify_overload_def split: option.split)

lemma push_ups_fields [simp]:
  "sh_sessions (push_ups sh evs clk) = sh_sessions sh"
  "sh_logic_online (push_ups sh evs clk) = sh_logic_online sh"
  by (induction sh evs clk rule: push_ups.induct) (simp_all add: push_up_def)

definition queued :: "shared \<Rightarrow> uds_frame list" where
  "queued sh = (case sh_up_tx sh of None \<Rightarrow> [] | Some q \<Rightarrow> uc_frames q)"

definition room :: "shared \<Rightarrow> nat" where
  "room sh = (case sh_up_tx sh of None \<Rightarrow> 0
     | Some q \<Rightarrow> if uc_closed q then 0 else UP_QUEUE_CAP - length (uc_frames q))"

lemma push_frame_outcome:
  "queued (push_frame sh f d now) = (if 0 < room sh then queued sh @ [f] else queued sh)"
  "room (push_frame sh f d now) = room sh - 1"
  "dropped_up (sh_stats (push_frame sh f d now)) = dropped_up (sh_stats sh) + (if 0 < room sh then 0 else 1)"
  by (auto simp: push_frame_def queued_def room_def notify_overload_def incr_def incr_by_def split: option.splits)

lemma push_ups_outcome:
  "queued (push_ups sh evs clk) = queued sh @ map event_frame (take (room sh) evs)
   \<and> dropped_up (sh_stats (push_ups sh evs clk)) = dropped_up (sh_stats sh) + of_nat (length evs - room sh)
   \<and> room (push_ups sh evs clk) = room sh - length evs"
proof (induction sh evs clk rule: push_ups.induct)
  case (1 sh clk)
  then show ?case by simp
next
  case (2 sh ev evs clk)
  then show ?case
    by (cases "room sh") (simp_all add: push_up_def push_frame_outcome)
qed

text \<open>
  C23. The upward queue never reorders, never grows past 4096 frames and never blocks: pushing a batch
  of events appends the frames of the first ones that fit, in order, and counts every other one as
  dropped. Whether an event is droppable plays no part: when the queue is full, reliable data and
  session lifecycle events are lost like unreliable data.
\<close>

theorem up_queue_accounting:
  assumes "length (queued sh) \<le> 4096"
  shows "queued (push_ups sh evs clk) = queued sh @ map event_frame (take (room sh) evs)
    \<and> length (queued (push_ups sh evs clk)) \<le> 4096
    \<and> dropped_up (sh_stats (push_ups sh evs clk)) = dropped_up (sh_stats sh) + of_nat (length evs - room sh)
    \<and> sh_sessions (push_ups sh evs clk) = sh_sessions sh"
proof -
  have "length (queued sh) + room sh \<le> 4096"
    using assms by (auto simp: queued_def room_def UP_QUEUE_CAP_def split: option.split)
  then show ?thesis using push_ups_outcome [of sh evs clk] by simp
qed

theorem up_queue_accounting_witness:
  "dropped_up (sh_stats (push_ups ((shared_new one_session 0)\<lparr>sh_up_tx :=
      Some \<lparr>uc_frames = replicate 4096 (session_resume 1 0), uc_closed = False\<rparr>\<rparr>) [EvOpen 2 (V4 1 2) [], EvClose 2 1] (\<lambda>_. 7))) = 2"
  by (subst up_queue_accounting [THEN conjunct2, THEN conjunct2, THEN conjunct1])
    (simp_all add: queued_def room_def UP_QUEUE_CAP_def shared_new_def stats_new_def)

lemma write_step_fields:
  "write_step sh = Some (sh', r) \<Longrightarrow> sh_sessions sh' = sh_sessions sh \<and> (\<exists>f. queued sh = f # queued sh' \<and> r = write_frame f)"
  by (auto simp: write_step_def queued_def split: option.splits list.splits)

text \<open>The writer task: it writes what is queued until it has to wait or a write fails.\<close>

function logic_write_loop :: "shared \<Rightarrow> shared \<times> bytes \<times> unit res" where
  "logic_write_loop sh =
     (case write_step sh of
        None \<Rightarrow> (sh, [], Inr ())
      | Some (sh, Inl e) \<Rightarrow> (sh, [], Inl e)
      | Some (sh, Inr bytes) \<Rightarrow> let (sh, out, r) = logic_write_loop sh in (sh, bytes @ out, r))"
  by pat_completeness auto
termination
  by (relation "measure (\<lambda>sh. length (queued sh))") (auto dest: write_step_fields)

declare logic_write_loop.simps [simp del]

section \<open>Frames of the logic server\<close>


section \<open>Back-off\<close>

fun backoff_run :: "duration \<Rightarrow> attempt list \<Rightarrow> duration list" where
  "backoff_run b [] = []"
| "backoff_run b (a # as) = (let (s, b) = backoff_turn a b in s # backoff_run b as)"

lemma backoff_refused:
  "backoff_run (min (secs (2 ^ k)) (secs 8)) (replicate n Refused) = map (\<lambda>i. min (secs (2 ^ (k + i))) (secs 8)) [0..<n]"
proof (induction n arbitrary: k)
  case 0
  then show ?case by simp
next
  case (Suc n)
  have "next_backoff (min (secs (2 ^ k)) (secs 8)) = min (secs (2 ^ Suc k)) (secs 8)"
    by (simp add: next_backoff_def LOGIC_RECONNECT_MAX_def)
  then show ?case
    using Suc.IH [of "Suc k"] upt_conv_Cons [of 0 "Suc n"]
    by (simp add: backoff_turn_def map_Suc_upt [symmetric] comp_def del: upt_Suc)
qed

lemma backoff_append:
  "backoff_run b (as @ Connected # bs) = backoff_run b as @ backoff_run b (Connected # bs)"
proof (induction as arbitrary: b)
  case Nil
  then show ?case by simp
next
  case (Cons a as)
  have "backoff_run b' (Connected # bs) = backoff_run b (Connected # bs)" for b' by (simp add: backoff_turn_def)
  then show ?case using Cons.IH [of "snd (backoff_turn a b)"] by (simp add: case_prod_beta)
qed

lemma backoff_bounded: "b \<le> secs 8 \<Longrightarrow> x \<in> set (backoff_run b as) \<Longrightarrow> x \<le> secs 8"
  by (induction b as rule: backoff_run.induct)
    (auto simp: backoff_turn_def next_backoff_def LOGIC_RECONNECT_MAX_def LOGIC_RECONNECT_INTERVAL_def Let_def split: attempt.splits)

text \<open>
  Reconnecting to the logic server backs off exponentially: whatever happened before, after a
  connection that was made and lost and then \<open>n\<close> refused attempts the loop has slept for 1, 2, 4 and
  then 8 seconds each time; from its initial state it never sleeps longer than 8 seconds.
\<close>

theorem backoff_schedule:
  "backoff_run b (as @ Connected # replicate n Refused)
     = backoff_run b as @ map (\<lambda>i. min (secs (2 ^ i)) (secs 8)) [0..<Suc n]
   \<and> set (backoff_run LOGIC_RECONNECT_INTERVAL as) \<subseteq> {..secs 8}"
proof -
  have "backoff_run b (Connected # replicate n Refused) = backoff_run (min (secs (2 ^ 0)) (secs 8)) (replicate (Suc n) Refused)"
    by (simp add: backoff_turn_def LOGIC_RECONNECT_INTERVAL_def)
  then have "backoff_run b (Connected # replicate n Refused) = map (\<lambda>i. min (secs (2 ^ i)) (secs 8)) [0..<Suc n]"
    using backoff_refused [of 0 "Suc n"] by simp
  then show ?thesis
    using backoff_append [of b as "replicate n Refused"] backoff_bounded [of LOGIC_RECONNECT_INTERVAL _ as]
    by (auto simp: LOGIC_RECONNECT_INTERVAL_def)
qed

end
