(* ===== verification/Engine_Run.thy ===== *)
theory Engine_Run
  imports Engine
begin

text \<open>
  The engine as a state machine over its tasks: any interleaving of received packets, frames of the
  logic server, maintenance ticks, link changes, writes and the final drain. It keeps the table
  invariant and the bound of the queue, and the events it hands to the logic server obey the abstract
  lifecycle of theory Trace.
\<close>

section \<open>Steps\<close>

inductive engine_step :: "bool \<Rightarrow> (bytes \<Rightarrow> bytes \<Rightarrow> bytes) \<Rightarrow> (bytes \<Rightarrow> socket_addr \<Rightarrow> bool) \<Rightarrow> shared
    \<Rightarrow> session_event list \<Rightarrow> shared \<Rightarrow> bool"
  for chk :: bool and hmac4 :: "bytes \<Rightarrow> bytes \<Rightarrow> bytes" and udp_ok :: "bytes \<Rightarrow> socket_addr \<Rightarrow> bool" where
  es_packet: "handle_datagram chk hmac4 (sh_sessions sh) peer data rnd clk now = Some (t, sent, evs) \<Longrightarrow>
     on_packet chk hmac4 sh peer data rnd clk now clks = Some (sh', sent) \<Longrightarrow>
     st_next_sess_id (sh_sessions sh) \<noteq> - 1 \<Longrightarrow> engine_step chk hmac4 udp_ok sh evs sh'"
| es_logic: "handle_logic_frame chk hmac4 udp_ok sh clks frame = Some (sh', out, r) \<Longrightarrow>
     engine_step chk hmac4 udp_ok sh [] sh'"
| es_tick: "maintain (sh_sessions sh) now = Some (t, evs) \<Longrightarrow> maintenance_tick sh now clks = Some (sh', out) \<Longrightarrow>
     engine_step chk hmac4 udp_ok sh evs sh'"
| es_second: "engine_step chk hmac4 udp_ok sh [] (second_tick sh clks now)"
| es_open: "engine_step chk hmac4 udp_ok sh [] (link_open sh)"
| es_resume: "engine_step chk hmac4 udp_ok sh [] (fst (link_resume sh n clk1 clk2))"
| es_lost: "engine_step chk hmac4 udp_ok sh [] (link_lost sh)"
| es_down: "engine_step chk hmac4 udp_ok sh [] (link_down sh)"
| es_write: "write_step sh = Some (sh', r) \<Longrightarrow> engine_step chk hmac4 udp_ok sh [] sh'"
| es_drain: "shutdown_all (sh_sessions sh) = (t, evs) \<Longrightarrow> engine_step chk hmac4 udp_ok sh evs (drain sh clks)"

definition engine_inv :: "shared \<Rightarrow> bool" where
  "engine_inv sh \<longleftrightarrow> table_inv (sh_sessions sh) \<and> length (queued sh) \<le> UP_QUEUE_CAP"

section \<open>Operations that hand over no event\<close>

definition quiet :: "session_table \<Rightarrow> session_table \<Rightarrow> bool" where
  "quiet t t' \<longleftrightarrow> run life_step (life_of t) [] (life_of t') \<and> table_inv t'"

lemma quiet_refl [simp]: "table_inv t \<Longrightarrow> quiet t t"
  by (simp add: quiet_def run_nil)

lemma quiet_trans: "quiet t t' \<Longrightarrow> quiet t' t'' \<Longrightarrow> quiet t t''"
  using run_trans [of life_step "life_of t'" "[]" "life_of t''" "life_of t" "[]"] by (simp add: quiet_def)

lemma quietI: "life_step (life_of t) [] (life_of t') \<and> table_inv t' \<Longrightarrow> quiet t t'"
  by (simp add: quiet_def run_single)

lemmas quiet_ops = quietI [OF kick_life] quietI [OF set_budget_life] quietI [OF check_budget_life]
  quietI [OF pack_life] quietI [OF reliable_life]

lemma quiet_inv: "quiet t t' \<Longrightarrow> table_inv t'"
  by (simp add: quiet_def)

lemma route_packet_fields:
  "sh_sessions (fst (route_packet udp_ok sh p)) = sh_sessions sh" "queued (fst (route_packet udp_ok sh p)) = queued sh"
  by (auto simp: route_packet_def Let_def queued_def split: prod.split)

lemma route_packets_fields:
  "sh_sessions (fst (route_packets udp_ok sh ps)) = sh_sessions sh \<and> queued (fst (route_packets udp_ok sh ps)) = queued sh"
proof (induction ps arbitrary: sh)
  case Nil
  then show ?case by simp
next
  case (Cons p ps)
  show ?case using Cons.IH [of "fst (route_packet udp_ok sh p)"] route_packet_fields [of udp_ok sh p]
    by (simp add: Let_def case_prod_beta)
qed

lemma send_outbound_quiet:
  assumes "send_outbound chk hmac4 udp_ok sh clk1 clk2 sess_id ch msg_id payload = Some (sh', out)" "table_inv (sh_sessions sh)"
  shows "quiet (sh_sessions sh) (sh_sessions sh') \<and> queued sh' = queued sh"
proof -
  obtain t r where 1: "pack_outbound hmac4 (sh_sessions sh) clk1 sess_id ch msg_id payload = Some (t, r)"
    using assms(1) by (auto simp: send_outbound_def split: bind_splits)
  have q: "quiet (sh_sessions sh) t" using pack_life [OF 1 assms(2)] by (rule quietI)
  show ?thesis
  proof (cases r)
    case (Inl e)
    then show ?thesis using assms(1) 1 q by (auto simp: send_outbound_def queued_def)
  next
    case (Inr packets)
    let ?n = "of_nat (sum_list (map (length \<circ> fst) packets))"
    obtain t2 ok where 2: "check_budget chk t sess_id ?n clk2 = Some (t2, ok)"
      "sh' = (if ok then fst (route_packets udp_ok (sh\<lparr>sh_sessions := t2\<rparr>) packets)
        else count_up (dropped_down_update (incr_by ?n)) (sh\<lparr>sh_sessions := t2\<rparr>))"
      using assms(1) 1 Inr by (auto simp: send_outbound_def Let_def split: bind_splits if_splits)
    have "quiet t t2" using check_budget_life [OF 2(1) quiet_inv [OF q]] by (rule quietI)
    then have "quiet (sh_sessions sh) t2" using q by (rule quiet_trans [rotated])
    then show ?thesis
      using 2(2) route_packets_fields [of udp_ok "sh\<lparr>sh_sessions := t2\<rparr>" packets] by (simp add: queued_def)
  qed
qed

lemma send_each_quiet:
  "send_each chk hmac4 udp_ok sh clk ids ch msg_id payload = Some (sh', out) \<Longrightarrow> table_inv (sh_sessions sh)
    \<Longrightarrow> quiet (sh_sessions sh) (sh_sessions sh') \<and> queued sh' = queued sh"
proof (induction ids arbitrary: sh clk out)
  case Nil
  then show ?case by simp
next
  case (Cons i ids)
  obtain sh1 o1 o2 where 1: "send_outbound chk hmac4 udp_ok sh (clk 0) (clk 1) i ch msg_id payload = Some (sh1, o1)"
      "send_each chk hmac4 udp_ok sh1 (\<lambda>n. clk (n + 2)) ids ch msg_id payload = Some (sh', o2)"
    using Cons.prems(1) by (auto split: bind_splits)
  note q = send_outbound_quiet [OF 1(1) Cons.prems(2)]
  then show ?case using Cons.IH [OF 1(2)] quiet_inv quiet_trans by metis
qed

lemma logic_frame_quiet:
  assumes "handle_logic_frame chk hmac4 udp_ok sh clks frame = Some (sh', out, r)" "table_inv (sh_sessions sh)"
  shows "quiet (sh_sessions sh) (sh_sessions sh') \<and> queued sh' = queued sh"
proof -
  have k: "quiet (sh_sessions sh) t" if "kick_session (sh_sessions sh) i x = (t, s)" for i x t s
    using kick_life [OF that assms(2)] by (rule quietI)
  have b: "quiet (sh_sessions sh) (set_budget (sh_sessions sh) i kbps)" for i kbps
    using set_budget_life [OF assms(2)] by (rule quietI)
  show ?thesis
    using assms k b
    by (auto simp: handle_logic_frame_def Let_def queued_def [of "_\<lparr>sh_sessions := _\<rparr>"] queued_def [of "count_up _ _"]
      queued_def [of sh] split: if_splits sum.splits bind_splits prod.splits
      dest: send_outbound_quiet send_each_quiet)
      (auto simp: queued_def)
qed

section \<open>The engine refines the lifecycle\<close>

lemma room_length: "0 < room sh \<Longrightarrow> length (queued sh) + room sh = UP_QUEUE_CAP"
  by (auto simp: queued_def room_def split: option.splits if_splits)

lemma push_ups_bound: "length (queued sh) \<le> UP_QUEUE_CAP \<Longrightarrow> length (queued (push_ups sh evs clk)) \<le> UP_QUEUE_CAP"
proof -
  assume "length (queued sh) \<le> UP_QUEUE_CAP"
  then have "length (queued sh) + room sh \<le> UP_QUEUE_CAP"
    by (auto simp: queued_def room_def split: option.splits)
  then show ?thesis using push_ups_outcome [of sh evs clk] by simp
qed

lemma push_frame_bound: "length (queued sh) \<le> UP_QUEUE_CAP \<Longrightarrow> length (queued (push_frame sh f d now)) \<le> UP_QUEUE_CAP"
  using room_length [of sh] by (cases "0 < room sh") (simp_all add: push_frame_outcome)

lemma push_frames_bound: "length (queued sh) \<le> UP_QUEUE_CAP \<Longrightarrow>
    length (queued (push_frames sh fs d clk)) \<le> UP_QUEUE_CAP \<and> sh_sessions (push_frames sh fs d clk) = sh_sessions sh"
  by (induction sh fs d clk rule: push_frames.induct) (simp_all add: push_frame_bound)

lemma queued_upd [simp]:
  "queued (sh\<lparr>sh_sessions := t\<rparr>) = queued sh" "queued (sh\<lparr>sh_last_heartbeat := n\<rparr>) = queued sh"
  "queued (sh\<lparr>sh_pending_overload := b\<rparr>) = queued sh" "queued (sh\<lparr>sh_logic_last_online := n\<rparr>) = queued sh"
  "queued (sh\<lparr>sh_stats := st\<rparr>) = queued sh"
  by (simp_all add: queued_def)

lemma tick_step:
  assumes "maintain (sh_sessions sh) now = Some (t, evs)" "maintenance_tick sh now clks = Some (sh', out)" "engine_inv sh"
  shows "run life_step (life_of (sh_sessions sh)) evs (life_of (sh_sessions sh')) \<and> engine_inv sh'"
proof -
  obtain t2 ps where 2: "maintain_reliable t now = (t2, ps)" by force
  have inv: "table_inv (sh_sessions sh)" using assms(3) by (simp add: engine_inv_def)
  note m = maintain_life [OF assms(1) inv]
  have r: "life_step (life_of t) [] (life_of t2) \<and> table_inv t2" using reliable_life [OF 2] m by blast
  have s: "sh_sessions sh' = t2" "queued sh' = queued (push_ups (sh\<lparr>sh_sessions := t\<rparr>) evs clks)"
    using assms(2) by (auto simp: maintenance_tick_def assms(1) 2 Let_def)
  have "run life_step (life_of (sh_sessions sh)) (evs @ []) (life_of t2)"
    using m r by (blast intro: run_trans run_single)
  then show ?thesis
    using r s push_ups_bound [of "sh\<lparr>sh_sessions := t\<rparr>"] assms(3) by (simp add: engine_inv_def)
qed

lemma packet_step:
  assumes "handle_datagram chk hmac4 (sh_sessions sh) peer data rnd clk now = Some (t, sent, evs)"
    and "on_packet chk hmac4 sh peer data rnd clk now clks = Some (sh', sent)"
    and "st_next_sess_id (sh_sessions sh) \<noteq> - 1" "engine_inv sh"
  shows "run life_step (life_of (sh_sessions sh)) evs (life_of (sh_sessions sh')) \<and> engine_inv sh'"
proof -
  have sh': "sh' = push_ups (sh\<lparr>sh_sessions := t\<rparr>) evs clks" using assms(1,2) by (simp add: on_packet_def)
  have "table_inv (sh_sessions sh)" using assms(4) by (simp add: engine_inv_def)
  from datagram_life [OF assms(1) this assms(3)] show ?thesis
    using sh' push_ups_bound [of "sh\<lparr>sh_sessions := t\<rparr>" evs clks] assms(4) run_single [of life_step] by (simp add: engine_inv_def)
qed

lemma drain_step:
  assumes "shutdown_all (sh_sessions sh) = (t, evs)" "engine_inv sh"
  shows "run life_step (life_of (sh_sessions sh)) evs (life_of (sh_sessions (drain sh clks))) \<and> engine_inv (drain sh clks)"
proof -
  have "table_inv (sh_sessions sh)" using assms(2) by (simp add: engine_inv_def)
  from shutdown_life [OF assms(1) this] show ?thesis
    using push_ups_bound [of "sh\<lparr>sh_sessions := t\<rparr>" evs clks] assms run_single [of life_step] by (simp add: engine_inv_def drain_def)
qed

lemma logic_step:
  assumes "handle_logic_frame chk hmac4 udp_ok sh clks frame = Some (sh', out, r)" "engine_inv sh"
  shows "run life_step (life_of (sh_sessions sh)) [] (life_of (sh_sessions sh')) \<and> engine_inv sh'"
  using logic_frame_quiet [OF assms(1)] assms(2) by (auto simp: engine_inv_def quiet_def)

lemma idle_step:
  assumes "sh_sessions sh' = sh_sessions sh" "length (queued sh') \<le> UP_QUEUE_CAP" "engine_inv sh"
  shows "run life_step (life_of (sh_sessions sh)) [] (life_of (sh_sessions sh')) \<and> engine_inv sh'"
  using assms by (simp add: engine_inv_def run_nil)

lemma second_tick_fields:
  assumes "engine_inv sh"
  shows "sh_sessions (second_tick sh clks now) = sh_sessions sh \<and> length (queued (second_tick sh clks now)) \<le> UP_QUEUE_CAP"
  using assms push_frames_bound [of sh] by (simp add: second_tick_def Let_def engine_inv_def push_frame_bound)

lemma link_fields:
  "sh_sessions (link_open sh) = sh_sessions sh" "queued (link_open sh) = []"
  "sh_sessions (link_down sh) = sh_sessions sh" "queued (link_down sh) = []"
  "sh_sessions (link_lost sh) = sh_sessions sh" "queued (link_lost sh) = []"
  "sh_sessions (fst (link_resume sh n clk1 clk2)) = sh_sessions sh" "queued (fst (link_resume sh n clk1 clk2)) = queued sh"
  by (simp_all add: link_open_def link_down_def link_lost_def link_resume_def Let_def queued_def split: option.split)

inductive_cases engine_stepE: "engine_step chk hmac4 udp_ok sh evs sh'"

interpretation engine: simulation "engine_step chk hmac4 udp_ok" "run life_step" "\<lambda>sh. life_of (sh_sessions sh)" engine_inv
  for chk hmac4 udp_ok
proof unfold_locales
  fix sh es sh'
  assume inv: "engine_inv sh" and step: "engine_step chk hmac4 udp_ok sh es sh'"
  have b: "length (queued sh) \<le> UP_QUEUE_CAP" using inv by (simp add: engine_inv_def)
  have "run life_step (life_of (sh_sessions sh)) es (life_of (sh_sessions sh')) \<and> engine_inv sh'"
    using step
  proof (cases rule: engine_step.cases)
    case (es_write r)
    from write_step_fields [OF es_write(2)] b show ?thesis unfolding es_write(1) by (intro idle_step [OF _ _ inv]) auto
  qed (use packet_step [OF _ _ _ inv] tick_step [OF _ _ inv] drain_step [OF _ inv] logic_step [OF _ inv]
      second_tick_fields [OF inv] idle_step [OF _ _ inv] link_fields b in \<open>auto intro: idle_step [OF _ _ inv]\<close>)
  then show "run life_step (life_of (sh_sessions sh)) es (life_of (sh_sessions sh'))" "engine_inv sh'" by simp_all
qed

lemma run_of_runs: "run (run step) s evs s' \<Longrightarrow> run step s evs s'"
proof (induction rule: run.induct)
  case run_nil
  show ?case by (rule run.run_nil)
next
  case (run_step evs s' es s'')
  then show ?case by (blast intro: run_trans)
qed

lemma engine_boot:
  "sh_sessions (engine_start cfg (engine_new cfg clk)) = table_new (ec_session cfg)"
  "sh_up_tx (engine_start cfg (engine_new cfg clk)) = None"
  by (simp_all add: engine_start_def engine_new_def shared_new_def)

text \<open>
  C5. The whole engine keeps order. From a fresh engine with a sound configuration, over any
  interleaving of packets, logic-server frames, ticks, link failures and reconnections, writes and
  drain: the table stays well formed, the upward queue within 4096 frames, and the events of each
  session are an open, then traffic, then at most one close and nothing after it.
\<close>

theorem engine_event_order:
  assumes "cfg_ok (ec_session cfg)" "run (engine_step chk hmac4 udp_ok) (engine_start cfg (engine_new cfg clk)) evs sh"
  shows "lifecycle_word i (of_session i evs) \<and> table_inv (sh_sessions sh) \<and> length (queued sh) \<le> 4096"
proof -
  let ?t = "table_new (ec_session cfg)"
  have n: "engine_inv (engine_start cfg (engine_new cfg clk))"
    using table_inv_new [OF assms(1)] by (simp add: engine_inv_def engine_boot queued_def)
  have "live ?t = {}" by (simp add: live_def table_get_def table_new_def shard_def)
  then have "run life_step ({}, st_next_sess_id ?t) evs (life_of (sh_sessions sh))"
    using run_of_runs [OF engine.run_refines [OF assms(2) n]] by (simp add: engine_boot life_of_def)
  then show ?thesis
    using life_run_inv engine.run_inv [OF assms(2) n] by (auto simp: life_inv_def engine_inv_def UP_QUEUE_CAP_def)
qed

section \<open>A concrete run\<close>

lemma datagrams_engine_run:
  "datagrams chk hmac4 (sh_sessions sh) ds = Some (t', ps, evs) \<Longrightarrow> table_inv (sh_sessions sh)
    \<Longrightarrow> unat (st_next_sess_id (sh_sessions sh)) + length ds < 2 ^ 64
    \<Longrightarrow> \<exists>sh'. run (engine_step chk hmac4 udp_ok) sh evs sh' \<and> sh_sessions sh' = t'"
proof (induction ds arbitrary: sh ps evs)
  case Nil
  then show ?case by (auto intro: run_nil)
next
  case (Cons d ds)
  let ?t = "sh_sessions sh"
  obtain peer raw rnd clk now where d: "d = (peer, raw, rnd, clk, now)" by (metis prod_cases5)
  obtain t1 ps1 evs1 ps2 evs2 where 1: "handle_datagram chk hmac4 ?t peer raw rnd clk now = Some (t1, ps1, evs1)"
      "datagrams chk hmac4 t1 ds = Some (t', ps2, evs2)" "evs = evs1 @ evs2"
    using Cons.prems(1) d by (auto split: bind_splits)
  have s: "unat (st_next_sess_id ?t + 1) = Suc (unat (st_next_sess_id ?t))"
    using Cons.prems(3) by (simp add: unat_plus_if')
  have ne: "st_next_sess_id ?t \<noteq> - 1" using s by auto
  have inv: "table_ok ?t" "ids_fresh ?t" using Cons.prems(2) by (simp_all add: table_inv_def)
  have l: "unat (st_next_sess_id t1) + length ds < 2 ^ 64"
    using handle_datagram_ids [OF 1(1) inv ne] s Cons.prems(3) by auto
  let ?sh = "push_ups (sh\<lparr>sh_sessions := t1\<rparr>) evs1 (\<lambda>_. now)"
  have p: "on_packet chk hmac4 sh peer raw rnd clk now (\<lambda>_. now) = Some (?sh, ps1)"
    by (simp add: on_packet_def 1(1))
  have "table_inv t1" using datagram_life [OF 1(1) Cons.prems(2) ne] by blast
  then obtain sh' where "run (engine_step chk hmac4 udp_ok) ?sh evs2 sh'" "sh_sessions sh' = t'"
    using Cons.IH [of ?sh ps2 evs2] 1(2) l by auto
  moreover have "run (engine_step chk hmac4 udp_ok) sh evs1 ?sh"
    using es_packet [OF 1(1) p ne] by (rule run_single [of "engine_step chk hmac4 udp_ok"])
  ultimately show ?case unfolding 1(3) by (blast intro: run_trans)
qed

theorem engine_event_order_witness:
  "\<exists>sh. run (engine_step True (\<lambda>_ _. []) (\<lambda>_ _. True)) (engine_start (engine_config_default 4) (engine_new (engine_config_default 4) 0)) [EvOpen 1 (V4 1 2) [9]] sh
     \<and> sh_sessions sh \<noteq> table_new default_config \<and> lifecycle_word 1 (of_session 1 [EvOpen 1 (V4 1 2) [9]])"
proof -
  let ?cfg = "engine_config_default 4"
  let ?sh = "engine_start ?cfg (engine_new ?cfg 0)"
  obtain t ps where t: "datagrams True (\<lambda>_ _. []) (table_new default_config)
       [(V4 1 2, sample_request, 77, 0, 0), (V4 1 2, sample_response 77, 88, 5, 5)] = Some (t, ps, [EvOpen 1 (V4 1 2) [9]])"
      "table_get t 1 = Some (new_session 1 1 (V4 1 2) 88 [9] 5)"
    using sample_handshake by blast
  have n: "sh_sessions ?sh = table_new default_config" by (simp add: engine_boot engine_config_default_def)
  have ok: "cfg_ok (ec_session ?cfg)" by (simp add: engine_config_default_def)
  have "unat (st_next_sess_id (table_new default_config)) + 2 < 2 ^ 64" by (simp add: table_new_def)
  then obtain sh where r: "run (engine_step True (\<lambda>_ _. []) (\<lambda>_ _. True)) ?sh [EvOpen 1 (V4 1 2) [9]] sh" "sh_sessions sh = t"
    using datagrams_engine_run [where sh = ?sh and udp_ok = "\<lambda>_ _. True", unfolded n, OF t(1) table_inv_new] by auto
  have "table_get (table_new default_config) 1 = None" by (simp add: table_get_def table_new_def shard_def)
  then have "t \<noteq> table_new default_config" using t(2) by auto
  with engine_event_order [OF ok r(1), of 1] r show ?thesis by blast
qed

end
