(* ===== verification/End_To_End.thy ===== *)
theory End_To_End
  imports Engine_Run
begin

text \<open>
  Properties that cross the whole engine of \<open>src/engine.rs\<close>: it runs without a panic, a reconnection
  announces every session, events reach the logic server over the stream, and messages of the logic
  server reach the wire.
\<close>

section \<open>No panic\<close>

lemma pack_outbound_total: "\<exists>t' r. pack_outbound hmac4 t now sess_id ch msg_id payload = Some (t', r)"
proof -
  have "\<exists>t' r. (do { (s, r) \<leftarrow> pack_session hmac4 (st_cfg t) now ch msg_id payload s; g s r }) = Some (t', r)"
    if "\<And>s r. \<exists>t' r'. g s r = Some (t', r')" for s and g :: "session \<Rightarrow> packets res \<Rightarrow> (session_table \<times> packets res) option"
    using pack_session_total [of hmac4 "st_cfg t" now ch msg_id payload s] that by fastforce
  then show ?thesis by (simp add: pack_outbound_def Let_def split: option.split sum.split)
qed

lemma check_budget_total: "\<exists>t' ok. check_budget False t sess_id n now = Some (t', ok)"
proof -
  have b: "\<exists>s' ok. budget_step False s n now = Some (s', ok)" for s
    by (simp add: budget_step_def Let_def ex_bool_eq split: option.split)
  show ?thesis
  proof (cases "find_session t sess_id")
    case (Some x)
    obtain i c s where x: "x = (i, c, s)" by (metis prod_cases3)
    from b [of s] show ?thesis by (auto simp: check_budget_def Some x)
  qed (simp add: check_budget_def ex_bool_eq)
qed

lemma send_outbound_total: "\<exists>sh' out. send_outbound False hmac4 udp_ok sh clk1 clk2 sess_id ch msg_id payload = Some (sh', out)"
proof -
  obtain t r where 1: "pack_outbound hmac4 (sh_sessions sh) clk1 sess_id ch msg_id payload = Some (t, r)"
    using pack_outbound_total by blast
  show ?thesis
  proof (cases r)
    case (Inl e)
    then show ?thesis by (simp add: send_outbound_def 1)
  next
    case (Inr packets)
    obtain t2 ok where "check_budget False t sess_id (of_nat (sum_list (map (length \<circ> fst) packets))) clk2 = Some (t2, ok)"
      using check_budget_total by blast
    then show ?thesis
      using surj_pair [of "route_packets udp_ok (sh\<lparr>sh_sessions := t2\<rparr>) packets"] by (cases ok) (simp_all add: send_outbound_def 1 Inr Let_def)
  qed
qed

lemma send_each_total: "\<exists>sh' out. send_each False hmac4 udp_ok sh clk ids ch msg_id payload = Some (sh', out)"
proof (induction ids arbitrary: sh clk)
  case Nil
  then show ?case by simp
next
  case (Cons i ids)
  obtain sh1 o1 where 1: "send_outbound False hmac4 udp_ok sh (clk 0) (clk 1) i ch msg_id payload = Some (sh1, o1)"
    using send_outbound_total by blast
  obtain sh2 o2 where "send_each False hmac4 udp_ok sh1 (\<lambda>n. clk (n + 2)) ids ch msg_id payload = Some (sh2, o2)"
    using Cons.IH by blast
  with 1 show ?case by simp
qed

lemma handle_logic_frame_total: "\<exists>sh' out r. handle_logic_frame False hmac4 udp_ok sh clk frame = Some (sh', out, r)"
proof -
  have s: "\<exists>sh' out r. (do { (sh, out) \<leftarrow> send_outbound False hmac4 udp_ok sh (clk 0) (clk 1) i ch m p; Some (sh, out, Inr () :: unit res) })
      = Some (sh', out, r)" for i ch m p
    using send_outbound_total [of hmac4 udp_ok sh "clk 0" "clk 1" i ch m p] by auto
  have e: "\<exists>sh' out r. (do { (sh, out) \<leftarrow> send_each False hmac4 udp_ok sh clk ids ch m p; Some (sh, out, Inr () :: unit res) })
      = Some (sh', out, r)" for ids ch m p
    using send_each_total [of hmac4 udp_ok sh clk ids ch m p] by auto
  show ?thesis using s e by (auto simp: handle_logic_frame_def Let_def split: sum.split prod.split)
qed

lemma logic_read_loop_total: "\<exists>sh' out r. logic_read_loop False hmac4 udp_ok sh clk frames = Some (sh', out, r)"
proof (induction frames arbitrary: sh clk)
  case Nil
  then show ?case by simp
next
  case (Cons f fs)
  obtain sh1 o1 r1 where 1: "handle_logic_frame False hmac4 udp_ok sh (clk 0) f = Some (sh1, o1, r1)"
    using handle_logic_frame_total by blast
  obtain sh2 o2 r2 where "logic_read_loop False hmac4 udp_ok sh1 (\<lambda>i. clk (Suc i)) fs = Some (sh2, o2, r2)"
    using Cons.IH by blast
  with 1 show ?case by (cases r1) auto
qed



section \<open>Reconnection\<close>

lemma live_for_each: "shards_ok t \<Longrightarrow> se_sess_id ` set (for_each_session t) = live t"
  using entries_iff [of t] by (force simp: for_each_session_def live_def)

lemma link_hello_eq: "link_hello cfg = Some (frame_bytes (new_frame FRAME_ENGINE_HELLO (le16 (ec_version cfg) @ le32 (ec_caps cfg))))"
  by (simp add: link_hello_def engine_hello_def encode_uds_def frame_bytes_def new_frame_def MAX_FRAME_BODY_def)

lemma resume_ok: "frame_ok (session_resume i gap)"
  by (simp add: frame_ok_def session_resume_def new_frame_def MAX_FRAME_BODY_def)

text \<open>
  C32. A reconnection announces exactly the sessions there are: if all its writes succeed, the logic
  server reads from the new stream, however it is cut, the hello and then one \<open>SessionResume\<close> for every
  stored session and for no other, none twice, all with the same gap: the time since the previous
  connection was made (not since it was lost), up to 49 days.
\<close>

theorem reconnect_resumes_sessions:
  assumes "engine_inv sh" "length (for_each_session (sh_sessions sh)) \<le> n"
    and "duration_since clk1 (sh_logic_last_online sh) < millis (2 ^ 32)"
  shows "\<exists>sh' bytes ids fs. link_start cfg sh True n clk1 clk2 = (sh', bytes, True)
    \<and> sh_logic_online sh' \<and> queued sh' = [] \<and> sh_sessions sh' = sh_sessions sh \<and> sh_logic_last_online sh' = clk2
    \<and> distinct ids \<and> set ids = live (sh_sessions sh)
    \<and> (\<forall>reads. [] \<notin> set reads \<and> concat reads = bytes \<longrightarrow>
        read_loop [] reads = (new_frame FRAME_ENGINE_HELLO (le16 (ec_version cfg) @ le32 (ec_caps cfg)) # fs, None))
    \<and> map (parse_session_resume \<circ> uf_body) fs =
        map (\<lambda>i. Inr (i, of_nat (as_millis (duration_since clk1 (sh_logic_last_online sh))))) ids"
proof -
  let ?ids = "map se_sess_id (for_each_session (sh_sessions sh))" and ?g = "outage_gap sh clk1"
  let ?hello = "new_frame FRAME_ENGINE_HELLO (le16 (ec_version cfg) @ le32 (ec_caps cfg))"
  let ?fs = "map (\<lambda>i. session_resume i ?g) ?ids"
  have inv: "table_ok (sh_sessions sh)" "ids_fresh (sh_sessions sh)" using assms(1) by (simp_all add: engine_inv_def table_inv_def)
  then have sh: "shards_ok (sh_sessions sh)" by (simp add: table_ok_def)
  have g: "?g = of_nat (as_millis (duration_since clk1 (sh_logic_last_online sh)))"
  proof -
    have "as_millis (duration_since clk1 (sh_logic_last_online sh)) \<le> 2 ^ 32 - 1"
      using assms(3) div_less_iff_less_mult [of 1000000 "duration_since clk1 (sh_logic_last_online sh)" "2 ^ 32"] by (simp add: as_millis_def)
    then show ?thesis by (simp add: outage_gap_def)
  qed
  have gap: "outage_gap (link_open sh) clk1 = ?g" by (simp add: outage_gap_def link_open_def Let_def)
  have w: "(case write_frame (session_resume i x) of Inr b \<Rightarrow> b | Inl _ \<Rightarrow> []) = frame_bytes (session_resume i x)" for i x
    using write_frame_Inr_iff [of "session_resume i x" "frame_bytes (session_resume i x)"] resume_ok by simp
  have s: "\<exists>sh'. link_start cfg sh True n clk1 clk2 = (sh', concat (map frame_bytes (?hello # ?fs)), True)
      \<and> sh_logic_online sh' \<and> queued sh' = [] \<and> sh_sessions sh' = sh_sessions sh \<and> sh_logic_last_online sh' = clk2"
    using assms(2) by (simp add: link_start_def link_hello_eq link_resume_def gap Let_def link_fields w comp_def)
      (simp add: link_open_def Let_def queued_def)
  have ok: "\<forall>f \<in> set (?hello # ?fs). frame_ok f"
    using resume_ok by (auto simp: frame_ok_def new_frame_def MAX_FRAME_BODY_def)
  have ne: "frame_bytes ?hello \<noteq> []" by (simp add: frame_bytes_def)
  have "read_loop [] reads = (?hello # ?fs, None)"
    if "[] \<notin> set reads" "concat reads = concat (map frame_bytes (?hello # ?fs))" for reads
    by (rule read_loop_stream [OF ok that(1) _ _ ne, of ?hello "[]"]) (use ok that(2) in \<open>simp_all del: map_map\<close>)
  moreover have "map (parse_session_resume \<circ> uf_body) ?fs = map (\<lambda>i. Inr (i, ?g)) ?ids"
    by (simp add: parse_session_resume_build)
  ultimately show ?thesis
    using s distinct_session_ids [OF inv] live_for_each [OF sh] unfolding g set_map [symmetric] by blast
qed

lemma live_one_session: "live one_session = {1}"
  by (simp add: live_def, simp add: new_session_def)

theorem reconnect_resumes_sessions_witness:
  "\<exists>sh' bytes ids (fs :: uds_frame list). link_start (engine_config_default 4) (shared_new one_session 0) True 9 (millis 50) (millis 50) = (sh', bytes, True)
    \<and> distinct ids \<and> set ids = {1} \<and> map (parse_session_resume \<circ> uf_body) fs = map (\<lambda>i. Inr (i, 50)) ids"
proof -
  let ?sh = "shared_new one_session 0"
  have o: "table_ok one_session" by simp
  then have "shards_ok one_session" by (simp only: table_ok_def)
  from live_for_each [OF this] have e: "se_sess_id ` set (for_each_session one_session) = {1}"
    by (simp add: live_one_session)
  have "length (for_each_session one_session) = card (se_sess_id ` set (for_each_session one_session))"
    using distinct_card [OF distinct_session_ids [of one_session]] by simp
  then have n: "length (for_each_session (sh_sessions ?sh)) \<le> 9" by (simp add: e shared_new_def)
  have d: "duration_since (millis 50) (sh_logic_last_online ?sh) = millis 50" by (simp add: shared_new_def duration_since_def)
  then have l: "duration_since (millis 50) (sh_logic_last_online ?sh) < millis (2 ^ 32)" by simp
  have t: "sh_sessions ?sh = one_session" by (simp add: shared_new_def)
  have m: "of_nat (as_millis (millis 50)) = (50 :: u32)" by (simp add: as_millis_def)
  have "engine_inv ?sh" by (simp add: engine_inv_def table_inv_def shared_new_def queued_def)
  from reconnect_resumes_sessions [OF this n l, of "engine_config_default 4" "millis 50"] show ?thesis
    unfolding d t live_one_session m by (elim exE conjE) (intro exI conjI, assumption+)
qed

section \<open>From the engine to the logic server\<close>

text \<open>How the logic server reads a frame, with the parsers of \<open>src/protocol/frame.rs\<close>.\<close>

definition parse_event :: "uds_frame \<Rightarrow> session_event option" where
  "parse_event f =
     (if uf_ty f = FRAME_SESSION_OPEN then
        (case parse_session_open (uf_body f) of Inr (i, Some peer, token) \<Rightarrow> Some (EvOpen i peer token) | _ \<Rightarrow> None)
      else if uf_ty f = FRAME_SESSION_CLOSE then
        (case parse_session_close (uf_body f) of Inr (i, reason) \<Rightarrow> Some (EvClose i reason) | _ \<Rightarrow> None)
      else if uf_ty f = FRAME_SESSION_RESUME then
        (case parse_session_resume (uf_body f) of Inr (i, gap) \<Rightarrow> Some (EvResume i gap) | _ \<Rightarrow> None)
      else if uf_ty f = FRAME_DATA_UP then
        (case parse_data (uf_body f) of Inr (i, ch, m, p) \<Rightarrow> Some (EvData i ch m p) | _ \<Rightarrow> None)
      else None)"

text \<open>Events whose fields fit their frame: the token, the payload, and an address that survives its field.\<close>

definition event_fits :: "session_event \<Rightarrow> bool" where
  "event_fits ev = (case ev of
      EvOpen _ peer token \<Rightarrow> length token < 2 ^ 16 \<and> decode_addr (encode_addr peer) = Some peer
    | EvData _ _ _ payload \<Rightarrow> length payload \<le> 2 ^ 20 - 11
    | _ \<Rightarrow> True)"

lemma frame_event:
  assumes "event_fits ev"
  shows "parse_event (event_frame ev) = Some ev \<and> frame_ok (event_frame ev)"
proof (cases ev)
  case (EvOpen i peer token)
  then have "length token < 2 ^ 16" "decode_addr (encode_addr peer) = Some peer" using assms by (simp_all add: event_fits_def)
  with EvOpen show ?thesis
    using parse_session_open_build [of token i peer]
    by (simp_all add: parse_event_def event_frame_def frame_ok_def frame_builders MAX_FRAME_BODY_def ADDR_LEN_def)
next
  case (EvClose i reason)
  then show ?thesis
    using parse_session_close_build [of i reason]
    by (simp_all add: parse_event_def event_frame_def frame_ok_def frame_builders MAX_FRAME_BODY_def
      FRAME_SESSION_OPEN_def FRAME_SESSION_CLOSE_def)
next
  case (EvResume i gap)
  then show ?thesis
    using parse_session_resume_build [of i gap]
    by (simp_all add: parse_event_def event_frame_def frame_ok_def frame_builders MAX_FRAME_BODY_def
      FRAME_SESSION_OPEN_def FRAME_SESSION_CLOSE_def FRAME_SESSION_RESUME_def)
next
  case (EvData i ch m p)
  then show ?thesis
    using parse_data_build [of i ch m p] assms
    by (simp_all add: parse_event_def event_frame_def frame_ok_def frame_builders MAX_FRAME_BODY_def event_fits_def
      FRAME_SESSION_OPEN_def FRAME_SESSION_CLOSE_def FRAME_SESSION_RESUME_def FRAME_DATA_UP_def)
qed

lemma write_loop_queue:
  "queued sh = fs \<Longrightarrow> \<forall>f \<in> set fs. frame_ok f
    \<Longrightarrow> \<exists>sh'. logic_write_loop sh = (sh', concat (map frame_bytes fs), Inr ()) \<and> queued sh' = []"
proof (induction fs arbitrary: sh)
  case Nil
  then have "write_step sh = None" by (auto simp: write_step_def queued_def split: option.splits list.splits)
  then show ?case using Nil by (subst logic_write_loop.simps) simp
next
  case (Cons f fs)
  obtain q where q: "sh_up_tx sh = Some q" "uc_frames q = f # fs"
    using Cons.prems(1) by (auto simp: queued_def split: option.splits)
  let ?sh = "sh\<lparr>sh_up_tx := Some (q\<lparr>uc_frames := fs\<rparr>)\<rparr>"
  have "write_frame f = Inr (frame_bytes f)" using Cons.prems(2) by (simp add: write_frame_Inr_iff)
  then have w: "write_step sh = Some (?sh, Inr (frame_bytes f))" by (simp add: write_step_def q)
  have "queued ?sh = fs" by (simp add: queued_def)
  from Cons.IH [OF this] Cons.prems(2) obtain sh' where
    "logic_write_loop ?sh = (sh', concat (map frame_bytes fs), Inr ())" "queued sh' = []" by auto
  then show ?case by (subst logic_write_loop.simps) (simp add: w)
qed

text \<open>
  C6. Events reach the logic server: with events waiting in the queue and a batch pushed behind them,
  the writer empties the queue without an error, and however the stream it wrote is cut into reads,
  the logic server reads back exactly those events, in order, up to the ones that found no room.
\<close>

theorem uplink_end_to_end:
  assumes "queued sh = map event_frame evs0" "\<forall>ev \<in> set (evs0 @ evs). event_fits ev"
  shows "\<exists>sh' bytes. logic_write_loop (push_ups sh evs clk) = (sh', bytes, Inr ()) \<and> queued sh' = []
    \<and> (\<forall>chunks. [] \<notin> set chunks \<and> concat chunks = bytes \<longrightarrow>
        (\<exists>fs. read_loop [] chunks = (fs, None) \<and> map parse_event fs = map Some (evs0 @ take (room sh) evs)))"
proof -
  let ?evs = "evs0 @ take (room sh) evs"
  have ok: "event_fits ev" if "ev \<in> set ?evs" for ev using assms(2) that by (auto dest: in_set_takeD)
  have q: "queued (push_ups sh evs clk) = map event_frame ?evs" using push_ups_outcome [of sh evs clk] assms(1) by simp
  have f: "\<forall>f \<in> set (map event_frame ?evs). frame_ok f" using ok frame_event by auto
  obtain sh' where w: "logic_write_loop (push_ups sh evs clk) = (sh', concat (map frame_bytes (map event_frame ?evs)), Inr ())"
      "queued sh' = []" using write_loop_queue [OF q f] by blast
  have g: "frame_ok \<lparr>uf_ty = 0, uf_body = []\<rparr>" by (simp add: frame_ok_def)
  have ne: "frame_bytes \<lparr>uf_ty = 0, uf_body = []\<rparr> \<noteq> []" by (simp add: frame_bytes_def)
  have p: "map parse_event (map event_frame ?evs) = map Some ?evs" unfolding map_map by (rule map_cong [OF refl]) (simp add: ok frame_event(1))
  have "read_loop [] chunks = (map event_frame ?evs, None)"
    if "[] \<notin> set chunks" "concat chunks = concat (map frame_bytes (map event_frame ?evs))" for chunks
    by (rule read_loop_stream [OF f that(1) g _ ne, of "[]"]) (simp_all only: that(2) append_Nil append_Nil2)
  then show ?thesis using w p by blast
qed

theorem uplink_end_to_end_witness:
  "\<exists>sh' bytes. logic_write_loop (push_ups (link_open (shared_new one_session 0)) [EvOpen 2 (V4 1 2) [5], EvData 2 2 9 [7], EvClose 2 1] (\<lambda>_. 7))
      = (sh', bytes, Inr ())
    \<and> (\<exists>fs. read_loop [] [bytes] = (fs, None) \<and> map parse_event fs = map Some [EvOpen 2 (V4 1 2) [5], EvData 2 2 9 [7], EvClose 2 1])"
proof -
  let ?sh = "link_open (shared_new one_session 0)" and ?evs = "[EvOpen 2 (V4 1 2) [5], EvData 2 2 9 [7], EvClose 2 1]"
  have q: "queued ?sh = map event_frame []" "room ?sh = 4096"
    by (simp_all only: link_fields list.map) (simp add: room_def link_open_def Let_def UP_QUEUE_CAP_def)
  have f: "\<forall>ev \<in> set ([] @ ?evs). event_fits ev" using decode_encode_V4 [of 1 2] by (simp add: event_fits_def)
  obtain sh' bytes where w: "logic_write_loop (push_ups ?sh ?evs (\<lambda>_. 7)) = (sh', bytes, Inr ())"
      "\<forall>chunks. [] \<notin> set chunks \<and> concat chunks = bytes \<longrightarrow>
        (\<exists>fs. read_loop [] chunks = (fs, None) \<and> map parse_event fs = map Some ([] @ take (room ?sh) ?evs))"
    using uplink_end_to_end [OF q(1) f, of "\<lambda>_. 7"] by blast
  have "bytes \<noteq> []"
  proof
    assume "bytes = []"
    then have "\<exists>fs. read_loop [] [] = (fs, None) \<and> map parse_event fs = map Some ([] @ take (room ?sh) ?evs)" using w(2) by auto
    then show False by (simp add: q(2) read_loop.simps read_frame.simps try_decode_def FRAME_HEADER_LEN_def MAX_FRAME_BODY_def)
  qed
  then have "[] \<notin> set [bytes] \<and> concat [bytes] = bytes" by simp
  with w(2) have "\<exists>fs. read_loop [] [bytes] = (fs, None) \<and> map parse_event fs = map Some ([] @ take (room ?sh) ?evs)" by blast
  then show ?thesis using w(1) by (simp add: q(2))
qed

section \<open>From the logic server to the wire\<close>

lemma send_one_budget: "send_one hmac4 cfg ack now flags ch msg_id s body = (s', r) \<Longrightarrow> se_budget_kbps s' = se_budget_kbps s"
  by (auto simp: send_one_def set_queue_for_def Let_def split: sum.splits if_splits option.splits)

lemma send_outbound_one:
  assumes "table_inv (sh_sessions sh)" "find_session (sh_sessions sh) sess_id = Some (i, c, s)" "se_state s = Active"
    and "ch \<le> 3" "msg_id \<le> 0x0FFF" "length payload \<le> 1180" "ch = CH_RELIABLE_ORDERED \<Longrightarrow> length payload \<le> 1100"
    and "\<And>q. queue_for ch s = Some q \<Longrightarrow> length (rq_entries q) < 64" "se_budget_kbps s = None"
  defines "cfg \<equiv> st_cfg (sh_sessions sh)"
  shows "\<exists>t s'. send_outbound chk hmac4 udp_ok sh clk1 clk2 sess_id ch msg_id payload =
      Some (route_packets udp_ok (sh\<lparr>sh_sessions := t\<rparr>) [(out_packet hmac4 cfg s (compute_ack s) 0 ch msg_id payload, se_peer s)])
    \<and> table_get t c = Some s' \<and> se_secret s' = se_secret s \<and> st_cfg t = cfg"
proof -
  let ?t = "sh_sessions sh" and ?pkt = "out_packet hmac4 cfg s (compute_ack s) 0 ch msg_id payload"
  have sh: "shards_ok ?t" using assms(1) by (simp add: table_inv_def table_ok_def)
  obtain s' where s': "send_one hmac4 cfg (compute_ack s) clk1 0 ch msg_id s payload = (s', Inr (?pkt, se_peer s))"
      "se_secret s' = se_secret s"
    using send_one_room [OF assms(4-6,8)] by blast
  obtain st where p: "pack_outbound hmac4 ?t clk1 sess_id ch msg_id payload =
      Some ((table_put ?t c s')\<lparr>st_stats := st\<rparr>, Inr [(?pkt, se_peer s)])"
    using pack_outbound_one [OF sh assms(2-4), of payload hmac4 clk1 msg_id] assms(7) s'(1)
    by (auto simp: FRAGMENT_THRESHOLD_def cfg_def)
  let ?t' = "(table_put ?t c s')\<lparr>st_stats := st\<rparr>"
  have inv: "table_inv ?t'" using pack_life [OF p assms(1)] by blast
  then have sh': "shards_ok ?t'" by (simp add: table_inv_def table_ok_def)
  have g: "table_get ?t' c = Some s'" by (simp add: table_get_put [OF sh])
  have "se_sess_id s' = sess_id"
    using send_one_frame(1) [OF s'(1)] find_session_SomeD(2) [OF sh assms(2)] by (simp add: keeps_ids_def)
  then have f: "find_session ?t' sess_id = Some (shard ?t' c, c, s')"
    using find_session_unique [OF _ _ g] inv by (simp add: table_inv_def)
  have "se_budget_kbps s' = None" using send_one_budget [OF s'(1)] assms(9) by simp
  then have "check_budget chk ?t' sess_id n clk2 = Some (table_put ?t' c s', True)" for n
    using store_at_eq [OF sh' f] by (simp add: check_budget_def f budget_step_def)
  then have "send_outbound chk hmac4 udp_ok sh clk1 clk2 sess_id ch msg_id payload =
      Some (route_packets udp_ok (sh\<lparr>sh_sessions := table_put ?t' c s'\<rparr>) [(?pkt, se_peer s)])"
    by (simp add: send_outbound_def p del: route_packets.simps)
  then show ?thesis
    using s'(2) table_get_put [OF sh', of c s' c]
    by (intro exI [of _ "table_put ?t' c s'"] exI [of _ s']) (simp add: cfg_def del: route_packets.simps)
qed

text \<open>
  C7. A message of the logic server reaches the wire: a \<open>Send\<close> frame for an active session without a
  budget, small enough for one datagram, however its bytes are cut into reads, makes the engine hand
  exactly one packet to the session's own transport (the TCP or WebSocket connection of a virtual
  peer, UDP otherwise), which passes the HMAC check and decodes to the message.
\<close>

theorem downlink_end_to_end:
  assumes "table_inv (sh_sessions sh)" "find_session (sh_sessions sh) sess_id = Some (i, c, s)" "se_state s = Active"
    and "ch \<le> 3" "msg_id \<le> 0x0FFF" "length payload \<le> 1180" "ch = CH_RELIABLE_ORDERED \<Longrightarrow> length payload \<le> 1100"
    and "\<And>q. queue_for ch s = Some q \<Longrightarrow> length (rq_entries q) < 64" "se_budget_kbps s = None"
    and "cfg_enable_hmac (st_cfg (sh_sessions sh))" "\<And>k d. length (hmac4 k d) = 4"
    and "sh_tcp sh" "sh_ws sh" "sh_udp sh" "\<And>b p. udp_ok b p"
    and "[] \<notin> set reads" "write_frame (send sess_id ch msg_id payload) = Inr (concat reads)"
  shows "\<exists>frames sh' via pkt body. read_loop [] reads = (frames, None)
    \<and> logic_read_loop chk hmac4 udp_ok sh clk frames = Some (sh', [(via, pkt, se_peer s)], Inr ())
    \<and> via = (if tcp_is_virtual_peer (se_peer s) then ViaTcp else if ws_is_virtual_peer (se_peer s) then ViaWs else ViaUdp)
    \<and> verify_hmac hmac4 (sh_sessions sh') pkt = HmacOk body
    \<and> decode body = Inr (\<lparr>dh_version = VERSION, dh_flags = FLAG_HMAC, dh_conn_id = c, dh_seq = se_send_seq s,
          dh_ack = fst (compute_ack s), dh_ack_bits = snd (compute_ack s)\<rparr>, [new_frame_ref ch msg_id payload])"
proof -
  let ?f = "send sess_id ch msg_id payload" and ?cfg = "st_cfg (sh_sessions sh)"
  let ?h = "out_header ?cfg s 0 (compute_ack s) (se_send_seq s)" and ?pkt = "out_packet hmac4 ?cfg s (compute_ack s) 0 ch msg_id payload"
  have wf: "frame_ok ?f" "concat reads = frame_bytes ?f" using assms(17) by (auto simp: write_frame_Inr_iff)
  have "frame_bytes ?f \<noteq> []" by (simp add: frame_bytes_def)
  then have r: "read_loop [] reads = ([?f], None)"
    using wf read_loop_stream [of "[?f]" reads ?f "[]" "frame_bytes ?f" "[]"] assms(16) by simp
  have t: "table_ok (sh_sessions sh)" using assms(1) by (simp add: table_inv_def)
  then have c: "se_conn_id s = c"
    using find_session_SomeD(1) [OF _ assms(2)] table_ok_getD [OF t] by (auto simp: table_ok_def)
  have pd: "parse_data (uf_body ?f) = Inr (sess_id, ch, msg_id, payload)"
    using parse_data_build by (simp add: send_def into_send_def new_frame_def)
  have ty: "uf_ty ?f = FRAME_SEND" "FRAME_SEND \<noteq> FRAME_LOGIC_HELLO"
    by (simp_all add: send_def into_send_def new_frame_def FRAME_SEND_def FRAME_LOGIC_HELLO_def)
  obtain t' s' where o: "send_outbound chk hmac4 udp_ok sh (clk 0 0) (clk 0 1) sess_id ch msg_id payload =
      Some (route_packets udp_ok (sh\<lparr>sh_sessions := t'\<rparr>) [(?pkt, se_peer s)])"
      "table_get t' c = Some s'" "se_secret s' = se_secret s" "st_cfg t' = ?cfg"
    using send_outbound_one [OF assms(1-9)] by blast
  obtain sh' via where rt: "route_packets udp_ok (sh\<lparr>sh_sessions := t'\<rparr>) [(?pkt, se_peer s)] = (sh', [(via, ?pkt, se_peer s)])"
      "sh_sessions sh' = t'"
      "via = (if tcp_is_virtual_peer (se_peer s) then ViaTcp else if ws_is_virtual_peer (se_peer s) then ViaWs else ViaUdp)"
    using assms(12-15) by (simp add: route_packet_def)
  have l: "logic_read_loop chk hmac4 udp_ok sh clk [?f] = Some (sh', [(via, ?pkt, se_peer s)], Inr ())"
    using o(1) by (simp add: handle_logic_frame_def ty pd rt(1) del: route_packets.simps)
  have g: "table_get t' (se_conn_id s) = Some s'" using o(2) c by simp
  have "verify_hmac hmac4 t' ?pkt = HmacOk (client_packet ?h [new_frame_ref ch msg_id payload])"
    using verify_out_packet [OF assms(4-6) _ assms(11) g o(3), where flags = 0 and ack = "compute_ack s"] assms(10) o(4) by simp
  moreover have "decode (client_packet ?h [new_frame_ref ch msg_id payload]) = Inr (?h, [new_frame_ref ch msg_id payload])"
    by (rule decode_out_packet [OF assms(4-6)])
  moreover have "?h = \<lparr>dh_version = VERSION, dh_flags = FLAG_HMAC, dh_conn_id = c, dh_seq = se_send_seq s,
      dh_ack = fst (compute_ack s), dh_ack_bits = snd (compute_ack s)\<rparr>" using assms(10) c by (simp add: out_header_def)
  ultimately show ?thesis using r l rt(2,3) by auto
qed

theorem downlink_end_to_end_witness:
  "\<exists>frames sh' pkt body. read_loop [] [[13, 0, 0], [0] @ [FRAME_SEND, 1, 0, 0, 0, 0, 0], [0, 0, 2, 5, 0, 7, 7]] = (frames, None)
    \<and> logic_read_loop True (\<lambda>_ _. [1, 2, 3, 4]) (\<lambda>_ _. True)
        (engine_start ((engine_config_default 4)\<lparr>ec_tcp_bind_addr := Some (V4 0 1), ec_ws_bind_addr := Some (V4 0 2)\<rparr>) (shared_new one_session 0))
        (\<lambda>_ _. 9) frames = Some (sh', [(ViaUdp, pkt, V4 1 2)], Inr ())
    \<and> verify_hmac (\<lambda>_ _. [1, 2, 3, 4]) (sh_sessions sh') pkt = HmacOk body
    \<and> (\<exists>h. decode body = Inr (h, [new_frame_ref 2 5 [7, 7]]))"
proof -
  let ?s = "new_session 1 1 (V4 1 2) 7 [] 0"
  let ?sh = "engine_start ((engine_config_default 4)\<lparr>ec_tcp_bind_addr := Some (V4 0 1), ec_ws_bind_addr := Some (V4 0 2)\<rparr>) (shared_new one_session 0)"
  let ?reads = "[[13, 0, 0], [0] @ [FRAME_SEND, 1, 0, 0, 0, 0, 0], [0, 0, 2, 5, 0, 7, 7]]"
  have t: "sh_sessions ?sh = one_session" "sh_tcp ?sh" "sh_ws ?sh" "sh_udp ?sh"
    by (simp_all add: engine_start_def shared_new_def)
  have inv: "table_inv (sh_sessions ?sh)" unfolding t(1) by (simp add: table_inv_def)
  have g: "table_get one_session 1 = Some ?s" "se_sess_id ?s = 1" "se_peer ?s = V4 1 2" "se_state ?s = Active" "se_budget_kbps ?s = None"
    by (simp_all, simp_all add: new_session_def)
  have f: "find_session (sh_sessions ?sh) 1 = Some (shard one_session 1, 1, ?s)"
    unfolding t(1) using find_session_unique [OF one_session_simps(1,2) g(1)] g(2) by simp
  have q: "length (rq_entries q) < 64" if "queue_for 2 ?s = Some q" for q
    using that by (auto simp: queue_for_def new_session_def rq_new_def split: if_splits)
  have e: "cfg_enable_hmac (st_cfg (sh_sessions ?sh))" unfolding t(1) by (simp add: default_config_def)
  have c: "(2 :: u8) \<le> 3" "(5 :: u16) \<le> 0x0FFF" "length [7, 7 :: u8] \<le> 1180" "length [7, 7 :: u8] \<le> 1100" by simp_all
  have w: "[] \<notin> set ?reads" "write_frame (send 1 2 5 [7, 7]) = Inr (concat ?reads)"
    by (simp_all add: write_frame_def encode_uds_def send_def into_send_def new_frame_def data_up_def MAX_FRAME_BODY_def eval_simps)
  have v: "\<not> tcp_is_virtual_peer (V4 1 2)" "\<not> ws_is_virtual_peer (V4 1 2)"
    by (simp_all add: tcp_is_virtual_peer_def ws_is_virtual_peer_def TCP_VIRTUAL_IP_def WS_VIRTUAL_IP_def eval_simps)
  have h: "length [1, 2, 3, 4 :: u8] = 4" by simp
  from downlink_end_to_end [OF inv f g(4) c(1-3) c(4) q g(5) e h t(2-4) TrueI w, of True "\<lambda>_ _. 9"]
  show ?thesis using g(3) v by (auto split: if_splits)
qed

end
