(* ===== verification/Ping.thy ===== *)
theory Ping
  imports Proto_Types
begin

text \<open>
  The text the load tools of \<open>src/examples/\<close> exchange with the echo server: decimal numbers as
  \<open>format!\<close> prints them and as \<open>str::parse\<close> reads them into an unsigned integer of a given width, the
  body \<open>ping-{id}-{seq}\<close> of a ping, and what the receive task of \<open>engineload.rs\<close> reads back from the
  body of an echo. Strings are their UTF-8 bytes: \<open>from_utf8_lossy\<close> maps every ASCII byte to itself
  and everything else to characters outside ASCII, so an ASCII prefix and an ASCII number are found in
  the decoded string exactly where they stand in the bytes.
\<close>

section \<open>Text\<close>

definition ascii :: "string \<Rightarrow> bytes" where
  "ascii s = map of_char s"

text \<open>\<open>format!("{n}")\<close>.\<close>

fun dec_text :: "nat \<Rightarrow> bytes" where
  "dec_text n = (if n < 10 then [of_nat (48 + n)] else dec_text (n div 10) @ [of_nat (48 + n mod 10)])"

declare dec_text.simps [simp del]

text \<open>\<open>str::parse\<close> for an unsigned type of \<open>width\<close> bits; \<open>None\<close> is the parse error.\<close>

fun parse_digits :: "nat \<Rightarrow> bytes \<Rightarrow> nat \<Rightarrow> nat option" where
  "parse_digits width [] acc = Some acc"
| "parse_digits width (c # cs) acc =
     (if 48 \<le> c \<and> c \<le> 57 \<and> 10 * acc + unat (c - 48) < 2 ^ width
      then parse_digits width cs (10 * acc + unat (c - 48)) else None)"

definition parse_uint :: "nat \<Rightarrow> bytes \<Rightarrow> nat option" where
  "parse_uint width s =
     (let ds = (if s \<noteq> [] \<and> hd s = 43 then tl s else s)
      in if ds = [] then None else parse_digits width ds 0)"

definition strip_prefix :: "bytes \<Rightarrow> bytes \<Rightarrow> bytes option" where
  "strip_prefix p s = (if take (length p) s = p then Some (drop (length p) s) else None)"

section \<open>Pings\<close>

definition ping_prefix :: "nat \<Rightarrow> bytes" where
  "ping_prefix i = ascii ''ping-'' @ dec_text i @ ascii ''-''"

definition ping_body :: "nat \<Rightarrow> u16 \<Rightarrow> bytes" where
  "ping_body i seq = ascii ''ping-'' @ dec_text i @ ascii ''-'' @ dec_text (unat seq)"

text \<open>The sequence number an echo answers, if it is an echo of this client's pings.\<close>

definition echo_seq :: "bytes \<Rightarrow> bytes \<Rightarrow> u16 option" where
  "echo_seq prefix body =
     (case strip_prefix prefix body of
        None \<Rightarrow> None
      | Some rest \<Rightarrow> map_option of_nat (parse_uint 16 rest))"

section \<open>Reading back what was printed\<close>

lemma parse_digits_append:
  "parse_digits w (xs @ ys) acc = Option.bind (parse_digits w xs acc) (parse_digits w ys)"
  by (induction w xs acc rule: parse_digits.induct) simp_all

lemma digit_byte:
  assumes "d < 10"
  shows "(48 :: u8) \<le> of_nat (48 + d) \<and> of_nat (48 + d) \<le> (57 :: u8) \<and> unat ((of_nat (48 + d) :: u8) - 48) = d"
proof -
  have "d \<in> {..<10}" using assms by simp
  then have "d \<in> {0, 1, 2, 3, 4, 5, 6, 7, 8, 9}" by auto
  then show ?thesis by auto
qed

lemma dec_text_nonempty [simp]: "dec_text n \<noteq> []"
  by (subst dec_text.simps) simp

lemma dec_text_digits: "c \<in> set (dec_text n) \<Longrightarrow> 48 \<le> c \<and> c \<le> 57"
proof (induction n rule: dec_text.induct)
  case (1 n)
  show ?case
    using 1 digit_byte [of n] digit_byte [of "n mod 10"]
    by (cases "n < 10") (auto simp: dec_text.simps [of n])
qed

lemma parse_digits_dec_text:
  "parse_digits w (dec_text n) 0 = (if n < 2 ^ w then Some n else None)"
proof (induction n rule: dec_text.induct)
  case (1 n)
  show ?case
  proof (cases "n < 10")
    case True
    then show ?thesis using digit_byte [of n] by (simp add: dec_text.simps [of n])
  next
    case False
    have "n < 2 ^ w \<Longrightarrow> n div 10 < 2 ^ w" using div_le_dividend [of n 10] by (rule le_less_trans)
    then show ?thesis
      using False 1 digit_byte [of "n mod 10"] by (simp add: dec_text.simps [of n] parse_digits_append)
  qed
qed

lemma parse_uint_dec_text: "parse_uint w (dec_text n) = (if n < 2 ^ w then Some n else None)"
proof -
  have "48 \<le> hd (dec_text n)" using dec_text_digits [of "hd (dec_text n)" n] by simp
  then have "hd (dec_text n) \<noteq> 43" by auto
  then show ?thesis by (simp add: parse_uint_def parse_digits_dec_text)
qed

lemma dec_text_inject: "dec_text m = dec_text n \<longleftrightarrow> m = n"
proof
  assume eq: "dec_text m = dec_text n"
  define w where "w = max m n"
  have "m \<le> w" "n \<le> w" by (simp_all add: w_def)
  then have "m < 2 ^ w" "n < 2 ^ w" using less_exp [of w] by (blast intro: le_less_trans)+
  then have "Some m = Some n"
    using parse_uint_dec_text [of w m] parse_uint_dec_text [of w n] unfolding eq by (simp only: if_True)
  then show "m = n" by (simp only: option.inject)
qed simp

text \<open>A number that ends at a dash can be told from every other one.\<close>

lemma dec_text_dash: "dec_text m @ 45 # xs = dec_text n @ 45 # ys \<longleftrightarrow> m = n \<and> xs = ys"
proof
  assume eq: "dec_text m @ 45 # xs = dec_text n @ 45 # ys"
  have t: "takeWhile (\<lambda>c. c \<noteq> 45) (dec_text n @ 45 # zs) = dec_text n" for n zs
  proof -
    have "c \<noteq> 45" if "c \<in> set (dec_text n)" for c using dec_text_digits [OF that] by auto
    then show ?thesis by (subst takeWhile_append2) simp_all
  qed
  have "dec_text m = dec_text n"
    using arg_cong [OF eq, of "takeWhile (\<lambda>c. c \<noteq> 45)"] by (simp only: t)
  then show "m = n \<and> xs = ys" using eq by (simp add: dec_text_inject)
qed simp

lemma strip_prefix_append: "strip_prefix p (p @ s) = Some s"
  by (simp add: strip_prefix_def)

lemma strip_prefix_SomeD: "strip_prefix p s = Some r \<Longrightarrow> s = p @ r"
  by (auto simp: strip_prefix_def split: if_splits) (metis append_take_drop_id)

lemma dash: "ascii ''-'' = [45]"
  by (simp add: ascii_def)

lemma echo_seq_ping: "echo_seq (ping_prefix i) (ping_body j seq) = (if i = j then Some seq else None)"
proof (cases "i = j")
  case True
  have "unat seq < 2 ^ 16" using unsigned_less [of seq, where 'a = nat] by simp
  moreover have "ping_body j seq = ping_prefix i @ dec_text (unat seq)"
    by (simp add: ping_body_def ping_prefix_def True)
  ultimately show ?thesis using True by (simp add: echo_seq_def strip_prefix_append parse_uint_dec_text)
next
  case False
  have "strip_prefix (ping_prefix i) (ping_body j seq) = None"
  proof (cases "strip_prefix (ping_prefix i) (ping_body j seq)")
    case (Some r)
    from strip_prefix_SomeD [OF this] show ?thesis
      using False by (simp add: ping_body_def ping_prefix_def dash dec_text_dash)
  qed
  then show ?thesis using False by (simp add: echo_seq_def)
qed

text \<open>
  A client recognises the echoes of its own pings and of no one else's: from the body of a ping
  that any client \<open>j\<close> sent, client \<open>i\<close> reads back the sequence number if \<open>i = j\<close> and nothing otherwise
  (client 1 does not take an echo of client 12, whose text continues its own, for one of its own).
\<close>

theorem ping_text_roundtrip: "echo_seq (ping_prefix i) (ping_body j seq) = (if i = j then Some seq else None)"
  by (rule echo_seq_ping)

end
