(* ===== verification/Client_Window.thy ===== *)
theory Client_Window
  imports Session
begin

text \<open>
  The acknowledgements of a client: the receive window in the receive task of
  \<open>src/examples/engineload.rs\<close>, which keeps the last 512 sequence numbers it has not seen before and
  the last one up to which all have arrived. The lemmas follow the window along a stream of arrivals
  with loss, duplication and reordering, and compare it with the window the engine keeps for the same
  arrivals in theory Session.
\<close>

section \<open>State and operations\<close>

record rx_window =
  rw_ack_pos :: u16
  rw_seen :: "u16 list"

definition window_new :: rx_window where
  "window_new = \<lparr>rw_ack_pos = - 1, rw_seen = []\<rparr>"

definition note_seq :: "u16 list \<Rightarrow> u16 \<Rightarrow> u16 list" where
  "note_seq seen seq = (if seq \<in> set seen then seen else push_capped 512 seen seq)"

text \<open>The loop over \<open>ack_pos\<close>; it does not return if every sequence number has been seen.\<close>

partial_function (option) advance :: "u16 list \<Rightarrow> u16 \<Rightarrow> u16 option" where
  "advance seen ack_pos = (if ack_pos + 1 \<in> set seen then advance seen (ack_pos + 1) else Some ack_pos)"

definition window_note :: "rx_window \<Rightarrow> u16 \<Rightarrow> rx_window option" where
  "window_note w seq =
     (let seen = note_seq (rw_seen w) seq in
      map_option (\<lambda>p. \<lparr>rw_ack_pos = p, rw_seen = seen\<rparr>) (advance seen (rw_ack_pos w)))"

definition window_ack :: "rx_window \<Rightarrow> u16 \<times> u32" where
  "window_ack w =
     (rw_ack_pos w,
      foldl (\<lambda>bits i. if rw_ack_pos w + of_nat i \<in> set (rw_seen w) then bits OR push_bit (i - 1) 1 else bits)
        0 [1..<33])"

fun window_feed :: "rx_window \<Rightarrow> u16 list \<Rightarrow> rx_window option" where
  "window_feed w [] = Some w"
| "window_feed w (seq # rest) = do { w \<leftarrow> window_note w seq; window_feed w rest }"

section \<open>The loop ends\<close>

lemma advance_run:
  assumes "\<And>i. i < n \<Longrightarrow> p + of_nat (Suc i) \<in> set seen" "p + of_nat (Suc n) \<notin> set seen"
  shows "advance seen p = Some (p + of_nat n)"
  using assms
proof (induction n arbitrary: p)
  case 0
  then show ?case by (subst advance.simps) simp
next
  case (Suc n)
  have "advance seen (p + 1) = Some (p + 1 + of_nat n)"
  proof (rule Suc.IH)
    show "p + 1 + of_nat (Suc i) \<in> set seen" if "i < n" for i
      using Suc.prems(1) [of "Suc i"] that by (simp add: add.assoc)
    show "p + 1 + of_nat (Suc n) \<notin> set seen" using Suc.prems(2) by (simp add: add.assoc)
  qed
  moreover have "p + 1 \<in> set seen" using Suc.prems(1) [of 0] by simp
  ultimately show ?case by (subst advance.simps) (simp add: add.assoc)
qed

lemma advance_SomeD: "advance seen p = Some q \<Longrightarrow> q + 1 \<notin> set seen"
  by (rule advance.raw_induct [where P = "\<lambda>seen p q. q + 1 \<notin> set seen"]) (auto split: if_splits)

lemma advance_total: "advance seen p \<noteq> None \<longleftrightarrow> set seen \<noteq> UNIV"
proof
  assume "set seen \<noteq> UNIV"
  then obtain x where x: "x \<notin> set seen" by blast
  define n where "n = (LEAST n. p + of_nat (Suc n) \<notin> set seen)"
  have "p + of_nat (Suc (unat (x - p - 1))) = x" by simp
  then have "p + of_nat (Suc n) \<notin> set seen" using x unfolding n_def by (metis (mono_tags, lifting) LeastI)
  moreover have "p + of_nat (Suc i) \<in> set seen" if "i < n" for i using not_less_Least [OF that [unfolded n_def]] by blast
  ultimately show "advance seen p \<noteq> None" using advance_run [of n p seen] by simp
qed (use advance_SomeD in blast)

lemma short_not_UNIV: "length seen \<le> 512 \<Longrightarrow> set (seen :: u16 list) \<noteq> UNIV"
proof
  assume "length seen \<le> 512" "set seen = UNIV"
  then have "card (UNIV :: u16 set) \<le> 512" using card_length [of seen] by simp
  then show False by (simp add: card_word)
qed

lemma length_note_seq: "length seen \<le> 512 \<Longrightarrow> length (note_seq seen seq) \<le> 512"
  by (simp add: note_seq_def length_push_capped_le)

lemma window_note_total:
  assumes "length (rw_seen w) \<le> 512"
  shows "\<exists>w'. window_note w seq = Some w' \<and> length (rw_seen w') \<le> 512"
  using advance_total [of "note_seq (rw_seen w) seq" "rw_ack_pos w"] length_note_seq [OF assms, of seq]
    short_not_UNIV [of "note_seq (rw_seen w) seq"]
  by (auto simp: window_note_def Let_def)

section \<open>The window along a stream\<close>

text \<open>
  How a window stands against a stream whose sequence numbers are their index modulo \<open>2^16\<close>: \<open>R\<close> are
  the indices received, all below \<open>k\<close> but not \<open>k\<close>. The list \<open>ms\<close> is the window, newest first. Its last
  two conditions say that an index is not pushed out while it is still ahead of \<open>k\<close> (what is pushed
  behind it stays near it) and is gone before the numbers repeat.
\<close>

definition win_list :: "nat set \<Rightarrow> nat \<Rightarrow> nat list \<Rightarrow> bool" where
  "win_list R k ms \<longleftrightarrow>
     {..<k} \<subseteq> R \<and> k \<notin> R \<and> R \<subseteq> {..<k + 128}
     \<and> distinct ms \<and> length ms \<le> 512 \<and> set ms \<subseteq> R \<and> R \<inter> {k..} \<subseteq> set ms
     \<and> (\<forall>p < length ms. card R \<le> ms ! p + 385 + p)
     \<and> sorted_wrt (\<lambda>new old. k \<le> old \<longrightarrow> old < new + 384 \<and> new < old + 128) ms"

definition win_at :: "nat set \<Rightarrow> nat \<Rightarrow> rx_window \<Rightarrow> bool" where
  "win_at R k w \<longleftrightarrow> (\<exists>ms. win_list R k ms \<and> rw_seen w = rev (map of_nat ms) \<and> rw_ack_pos w = of_nat k - 1)"

lemma win_list_range:
  assumes "win_list R k ms" "i \<in> set ms"
  shows "k \<le> i + 897" and "i < k + 128"
proof -
  obtain p where p: "p < length ms" "ms ! p = i" using assms(2) by (auto simp: in_set_conv_nth)
  have "finite R" using assms(1) by (auto simp: win_list_def intro: finite_subset)
  then have "card {..<k} \<le> card R" using assms(1) by (intro card_mono) (simp_all add: win_list_def)
  moreover have "card R \<le> i + 385 + p" "p < 512" using assms(1) p by (auto simp: win_list_def)
  ultimately show "k \<le> i + 897" by simp
  show "i < k + 128" using assms by (auto simp: win_list_def)
qed

lemma win_list_mem:
  assumes "win_list R k ms" "k \<le> j + 256" "j < k + 256"
  shows "(of_nat j :: u16) \<in> set (rev (map of_nat ms)) \<longleftrightarrow> j \<in> set ms"
proof -
  have "(of_nat j :: u16) = of_nat i \<longleftrightarrow> j = i" if "i \<in> set ms" for i
    using win_list_range [OF assms(1) that] assms(2,3) by (intro of_nat_u16_inj) simp_all
  then show ?thesis by (auto simp: image_iff)
qed

lemma bounded_distinct_length:
  fixes y :: nat
  assumes "distinct ns" "set ns \<subseteq> {n. y < n + 384 \<and> n < y + 128}"
  shows "length ns \<le> 511"
proof -
  have "set ns \<subseteq> {Suc y - 384..<y + 128}" using assms(2) by auto
  then have "card (set ns) \<le> card {Suc y - 384..<y + 128}" by (intro card_mono) simp_all
  then show ?thesis using distinct_card [OF assms(1)] by simp
qed

text \<open>Pushing a new index keeps every index that is still ahead.\<close>

lemma push_keeps_ahead:
  assumes "win_list R k ms" "k \<le> j + 256" "j < k + 128" "j \<notin> set ms"
  shows "set ms \<inter> {k..} \<subseteq> set (take 512 (j # ms))"
proof (cases "length ms < 512")
  case True
  then show ?thesis by auto
next
  case False
  then have l: "length ms = 512" using assms(1) by (simp add: win_list_def)
  define y where "y = last ms"
  have ms: "ms = butlast ms @ [y]" using l unfolding y_def by (intro append_butlast_last_id [symmetric]) auto
  have "y < k"
  proof (rule ccontr)
    assume "\<not> y < k"
    moreover have "sorted_wrt (\<lambda>new old. k \<le> old \<longrightarrow> old < new + 384 \<and> new < old + 128) (butlast ms @ [y])"
      using assms(1) ms by (simp add: win_list_def)
    ultimately have "set (butlast ms) \<subseteq> {n. y < n + 384 \<and> n < y + 128}" by (auto simp: sorted_wrt_append)
    moreover have "y < k + 128" using win_list_range(2) [OF assms(1), of y] ms by (metis in_set_conv_decomp)
    ultimately have "set (j # butlast ms @ [y]) \<subseteq> {n. y < n + 384 \<and> n < y + 128}"
      using assms(2,3) \<open>\<not> y < k\<close> by auto
    moreover have "distinct (j # butlast ms @ [y])" using assms(1,4) ms by (simp add: win_list_def)
    ultimately have "length (j # butlast ms @ [y]) \<le> 511" by (intro bounded_distinct_length)
    then show False using l by simp
  qed
  moreover have "set ms = insert y (set (butlast ms))" using arg_cong [OF ms, of set] by simp
  moreover have "take 512 (j # ms) = j # butlast ms" using l by (simp add: butlast_conv_take)
  ultimately show ?thesis by auto
qed

lemma push_capped_rev: "push_capped cap (rev xs) x = rev (take cap (x # xs))"
proof -
  have "rev xs @ [x] = rev (x # xs)" by simp
  then show ?thesis by (simp only: push_capped_def Let_def drop_rev length_rev) (cases "length (x # xs) \<le> cap"; simp)
qed

lemma win_list_push:
  assumes w: "win_list R k ms" and win: "k \<le> j + 256" "j < k + 128" and new: "j \<notin> set ms"
    and k': "k \<le> k'" "{..<k'} \<subseteq> insert j R" "k' \<notin> insert j R"
  shows "win_list (insert j R) k' (take 512 (j # ms))"
proof -
  note keep = push_keeps_ahead [OF w win new]
  have fin: "finite R" and sub: "R \<subseteq> {..<k + 128}" using w by (auto simp: win_list_def intro: finite_subset)
  have c: "card (insert j R) \<le> card R + 1" using card_insert_le_m1 [of "card R + 1" R j] fin by (simp add: card_insert_if)
  have "card (insert j R) \<le> card {..<k + 128}" using sub win by (intro card_mono) auto
  then have age: "card (insert j R) \<le> (j # ms) ! p + 385 + p" if "p < length (take 512 (j # ms))" for p
    using that w c win by (cases p) (auto simp: win_list_def dest!: spec [of _ "p - 1"])
  have "y < j + 384 \<and> j < y + 128" if "y \<in> set ms" "k \<le> y" for y
    using win_list_range(2) [OF w that(1)] that(2) win by simp
  moreover have "sorted_wrt (\<lambda>new old. k' \<le> old \<longrightarrow> old < new + 384 \<and> new < old + 128) ms"
    using w k'(1) by (auto simp: win_list_def elim!: sorted_wrt_mono_rel [rotated])
  ultimately have "sorted_wrt (\<lambda>new old. k' \<le> old \<longrightarrow> old < new + 384 \<and> new < old + 128) (j # ms)"
    using k'(1) by simp
  then have s: "sorted_wrt (\<lambda>new old. k' \<le> old \<longrightarrow> old < new + 384 \<and> new < old + 128) (take 512 (j # ms))"
    by (rule sorted_wrt_take)
  have d: "distinct (j # ms)" "set ms \<subseteq> R" "R \<inter> {k..} \<subseteq> set ms" using w new by (auto simp: win_list_def)
  have "R \<inter> {k'..} \<subseteq> set ms \<inter> {k..}" using d(3) k'(1) by auto
  then have "R \<inter> {k'..} \<subseteq> set (take 512 (j # ms))" using keep by (rule subset_trans)
  then have "insert j R \<inter> {k'..} \<subseteq> set (take 512 (j # ms))" by auto
  moreover have "set (take 512 (j # ms)) \<subseteq> insert j R" using d(2) set_take_subset [of 512 "j # ms"] by auto
  moreover have "distinct (take 512 (j # ms))" using d(1) by (rule distinct_take)
  moreover have "insert j R \<subseteq> {..<k' + 128}" using sub win k'(1) by auto
  ultimately show ?thesis
    unfolding win_list_def using age s k' by (simp del: take_Cons_numeral)
qed

lemma next_missing:
  assumes "finite (R :: nat set)" "{..<k} \<subseteq> R"
  obtains k' where "k \<le> k'" "{..<k'} \<subseteq> R" "k' \<notin> R"
proof -
  define k' where "k' = (LEAST n. n \<notin> R)"
  have "\<exists>n. n \<notin> R" using assms(1) by (metis ex_new_if_finite infinite_UNIV_nat)
  then have "k' \<notin> R" unfolding k'_def by (rule LeastI_ex)
  moreover have "{..<k'} \<subseteq> R" using not_less_Least unfolding k'_def by blast
  moreover have "k \<le> k'" using assms(2) \<open>k' \<notin> R\<close> by (metis lessThan_iff not_le_imp_less subsetD)
  ultimately show ?thesis using that by blast
qed

lemma window_note_step:
  assumes w: "win_at R k w" and win: "k \<le> j + 256" "j < k + 128"
  shows "\<exists>k' w'. window_note w (of_nat j) = Some w' \<and> k \<le> k' \<and> win_at (insert j R) k' w'"
proof -
  obtain ms where ms: "win_list R k ms" "rw_seen w = rev (map of_nat ms)" "rw_ack_pos w = of_nat k - 1"
    using w by (auto simp: win_at_def)
  have mem: "of_nat j \<in> set (rw_seen w) \<longleftrightarrow> j \<in> set ms"
    using win_list_mem [OF ms(1), of j] win by (simp only: ms(2))
  show ?thesis
  proof (cases "j \<in> set ms")
    case True
    have "k \<notin> set ms" using ms(1) by (auto simp: win_list_def)
    then have "(of_nat k :: u16) \<notin> set (rw_seen w)" using win_list_mem [OF ms(1), of k] by (simp only: ms(2)) simp
    then have "advance (rw_seen w) (rw_ack_pos w) = Some (rw_ack_pos w)" using advance_run [of 0] ms(3) by simp
    moreover have "insert j R = R" using ms(1) True by (auto simp: win_list_def)
    ultimately show ?thesis using w mem True by (intro exI [of _ k] exI [of _ w]) (simp add: window_note_def note_seq_def)
  next
    case False
    let ?ms = "take 512 (j # ms)"
    have "finite (insert j R)" "{..<k} \<subseteq> insert j R" using ms(1) by (auto simp: win_list_def intro: finite_subset)
    then obtain k' where k': "k \<le> k'" "{..<k'} \<subseteq> insert j R" "k' \<notin> insert j R" by (rule next_missing)
    note w' = win_list_push [OF ms(1) win False k']
    have "note_seq (rw_seen w) (of_nat j) = push_capped 512 (rev (map of_nat ms)) (of_nat j)"
      using mem False by (simp add: note_seq_def ms(2))
    also have "\<dots> = rev (map of_nat ?ms)" by (simp only: push_capped_rev list.map(2) [symmetric] take_map)
    finally have seen: "note_seq (rw_seen w) (of_nat j) = rev (map of_nat ?ms)" .
    have k'_le: "k' \<le> k + 128"
      using k'(2,3) ms(1) win unfolding win_list_def by (metis insert_iff lessThan_iff linorder_not_le order_less_irrefl subsetD)
    have "advance (rev (map of_nat ?ms)) (of_nat k - 1) = Some (of_nat k - 1 + of_nat (k' - k))"
    proof (rule advance_run)
      fix i assume "i < k' - k"
      then have "k + i \<in> insert j R" using k'(2) by (intro subsetD [OF k'(2)]) simp
      then have "k + i \<in> insert j (set ms \<inter> {k..})" using ms(1) by (auto simp: win_list_def)
      then have "k + i \<in> set ?ms" using push_keeps_ahead [OF ms(1) win False] by auto
      then have "(of_nat (k + i) :: u16) \<in> of_nat ` set ?ms" by (rule imageI)
      then show "of_nat k - 1 + of_nat (Suc i) \<in> set (rev (map of_nat ?ms) :: u16 list)" by (simp del: take_Cons_numeral)
    next
      have "k' \<notin> set ?ms" using w' by (auto simp: win_list_def simp del: take_Cons_numeral)
      then have "(of_nat k' :: u16) \<notin> set (rev (map of_nat ?ms))" using win_list_mem [OF w', of k'] by simp
      moreover have "of_nat k - 1 + of_nat (Suc (k' - k)) = (of_nat k' :: u16)" using k'(1) by (simp add: of_nat_diff)
      ultimately show "of_nat k - 1 + of_nat (Suc (k' - k)) \<notin> set (rev (map of_nat ?ms) :: u16 list)" by simp
    qed
    moreover have "of_nat k - 1 + of_nat (k' - k) = (of_nat k' - 1 :: u16)" using k'(1) by (simp add: of_nat_diff)
    ultimately have "window_note w (of_nat j) = Some \<lparr>rw_ack_pos = of_nat k' - 1, rw_seen = rev (map of_nat ?ms)\<rparr>"
      using seen by (simp add: window_note_def Let_def ms(3) del: take_Cons_numeral)
    then show ?thesis using w' k'(1) by (auto simp: win_at_def simp del: take_Cons_numeral)
  qed
qed

lemma win_at_new: "win_at {} 0 window_new"
  by (auto simp: win_at_def win_list_def window_new_def intro!: exI [of _ "[]"])

text \<open>Every arrival is near the first index that is missing when it arrives.\<close>

definition near :: "nat list \<Rightarrow> bool" where
  "near js \<longleftrightarrow> (\<forall>i < length js. frontier (take i js) \<le> js ! i + 256 \<and> js ! i < frontier (take i js) + 128)"

lemma near_snoc: "near (js @ [j]) \<longleftrightarrow> near js \<and> frontier js \<le> j + 256 \<and> j < frontier js + 128"
  by (auto simp: near_def less_Suc_eq nth_append)

lemma near_in_window: "near js \<Longrightarrow> in_window js"
  unfolding near_def in_window_def WINDOW_def by fastforce

lemma window_feed_snoc: "window_feed w (xs @ [x]) = do { w \<leftarrow> window_feed w xs; window_note w x }"
  by (induction w xs rule: window_feed.induct) (simp_all split: Option.bind_split)

lemma win_at_frontier: "win_at (set js) k w \<Longrightarrow> k = frontier js"
  using frontier_eq [of k js] by (auto simp: win_at_def win_list_def)

lemma window_feed_at:
  assumes "near js"
  shows "\<exists>w. window_feed window_new (map of_nat js) = Some w \<and> win_at (set js) (frontier js) w"
  using assms
proof (induction js rule: rev_induct)
  case Nil
  have "frontier [] = 0" by (simp add: frontier_def)
  then show ?case using win_at_new by simp
next
  case (snoc j js)
  then obtain w where w: "window_feed window_new (map of_nat js) = Some w" "win_at (set js) (frontier js) w"
      "frontier js \<le> j + 256" "j < frontier js + 128"
    by (auto simp: near_snoc)
  obtain k' w' where w': "window_note w (of_nat j) = Some w'" "win_at (insert j (set js)) k' w'"
    using window_note_step [OF w(2-4)] by blast
  then have "win_at (set (js @ [j])) k' w'" by simp
  from win_at_frontier [OF this] this w(1) w'(1) show ?case by (simp add: window_feed_snoc)
qed

section \<open>What the window acknowledges\<close>

lemma bit_window_ack:
  assumes "win_at R k w"
  shows "bit (snd (window_ack w)) n \<longleftrightarrow> n < 32 \<and> k + n \<in> R"
proof -
  obtain ms where ms: "win_list R k ms" "rw_seen w = rev (map of_nat ms)" "rw_ack_pos w = of_nat k - 1"
    using assms by (auto simp: win_at_def)
  let ?P = "\<lambda>i. rw_ack_pos w + of_nat i \<in> set (rw_seen w)"
  have P: "?P (Suc n) \<longleftrightarrow> k + n \<in> R" if "n < 32" for n
  proof -
    have "rw_ack_pos w + of_nat (Suc n) = of_nat (k + n)" by (simp add: ms(3))
    then have "?P (Suc n) \<longleftrightarrow> k + n \<in> set ms"
      using win_list_mem [OF ms(1), of "k + n"] that by (simp only: ms(2))
    then show ?thesis using ms(1) by (auto simp: win_list_def)
  qed
  have "bit (snd (window_ack w)) n \<longleftrightarrow> (\<exists>i \<in> set [1..<33]. ?P i \<and> n = i - 1)"
    unfolding window_ack_def snd_conv by (subst bit_fold_set_bits) auto
  also have "\<dots> \<longleftrightarrow> n < 32 \<and> ?P (Suc n)" by (auto intro!: bexI [of _ "Suc n"])
  finally show ?thesis using P by auto
qed

lemma window_ack_rx:
  assumes "win_at R k w" "rx_at M k H s" "{..<k} \<union> H = R" "k \<notin> H" "se_ch3_seen s = []"
  shows "window_ack w = compute_ack s"
proof (rule prod_eqI)
  have n: "se_ch2_next s = Some (of_nat k)" using assms(2) by (simp add: rx_at_def)
  show f: "fst (window_ack w) = fst (compute_ack s)"
    using assms(1) by (auto simp: window_ack_def win_at_def fst_compute_ack n)
  show "snd (window_ack w) = snd (compute_ack s)"
  proof (rule bit_word_eqI)
    fix i
    have a: "fst (compute_ack s) + of_nat (Suc i) = of_nat (k + i)" by (simp add: fst_compute_ack n)
    have "bit (snd (compute_ack s)) i \<longleftrightarrow> i < 32 \<and> seq_known s (of_nat (k + i))"
      using bit_compute_ack [of s i] by (simp only: a)
    moreover have "seq_known s (of_nat (k + i)) \<longleftrightarrow> k + i \<in> H" if "i < 32"
      using that rx_at_reorder [OF assms(2), of "k + i"] rx_at_delivered [OF assms(2), of "k + i"] assms(5)
      by (simp add: seq_known_def del: of_nat_add)
    ultimately show "bit (snd (window_ack w)) i = bit (snd (compute_ack s)) i"
      using bit_window_ack [OF assms(1), of i] assms(3) by auto
  qed
qed

lemma window_feed_total: "length (rw_seen w) \<le> 512 \<Longrightarrow> \<exists>w'. window_feed w seqs = Some w' \<and> length (rw_seen w') \<le> 512"
proof (induction seqs arbitrary: w)
  case (Cons seq seqs)
  obtain w1 where "window_note w seq = Some w1" "length (rw_seen w1) \<le> 512"
    using window_note_total [OF Cons.prems] by blast
  then show ?case using Cons.IH by simp
qed simp

text \<open>
  The receive task of the load tool never hangs in its acknowledgement loop, whatever sequence
  numbers arrive: the loop diverges exactly on a window that holds all \<open>2^16\<close> of them, and the window
  never holds more than 512.
\<close>

theorem client_ack_loop_ends:
  "(\<exists>w. window_feed window_new seqs = Some w \<and> length (rw_seen w) \<le> 512)
   \<and> (advance seen p = None \<longleftrightarrow> set seen = UNIV)"
  using window_feed_total [of window_new seqs] advance_total [of seen p] by (auto simp: window_new_def)

text \<open>
  C15. The load tool and the engine acknowledge alike: fed with the same packets of the ordered channel,
  with any loss, duplication and reordering near the first missing one, through any number of wraps
  of the sequence number, the client's window of the last 512 arrivals and the engine's reorder buffer
  with its memory of the last 512 deliveries yield the same acknowledgement and the same 32 bits.
\<close>

theorem client_ack_equals_engine_ack:
  assumes "near js"
    and "\<forall>j \<in> set js. dh_flags (header j) AND FLAG_FRAGMENT = 0 \<and> dh_seq (header j) = of_nat j"
  shows "\<exists>w s evs. window_feed window_new (map of_nat js) = Some w
    \<and> ch2_feed (new_session conn_id sess_id peer secret token t0) now (map (\<lambda>j. (header j, f j)) js) = Some (s, evs)
    \<and> window_ack w = compute_ack s"
proof -
  let ?s = "new_session conn_id sess_id peer secret token t0" and ?M = "\<lambda>j. (fr_msg_id (f j), fr_body (f j))"
  obtain w where w: "window_feed window_new (map of_nat js) = Some w" "win_at (set js) (frontier js) w"
    using window_feed_at [OF assms(1)] by blast
  obtain s evs H where s: "ch2_feed ?s now (map (\<lambda>j. (header j, f j)) js) = Some (s, evs)"
      "rx_at ?M (frontier js) H s" "frontier js \<notin> H" "{..<frontier js} \<union> H = set js" "ch2_core s = ch2_core ?s"
    using ch2_feed_rx [OF near_in_window [OF assms(1)], of header f ?M ?s now] assms(2) rx_at_new by auto
  have "se_ch3_seen s = []" using ch2_core_fields(5) [OF s(5)] by (simp add: new_session_def)
  then show ?thesis using w s window_ack_rx [OF w(2) s(2,4,3)] by blast
qed

lemma near_sample: "near [0, 2, 1, 1, 4]" "frontier [0, 2, 1, 1, 4] = 3"
proof -
  have f: "frontier [] = 0" "frontier [0] = 1" "frontier [0, 2] = 1" "frontier [0, 2, 1] = 3"
    "frontier [0, 2, 1, 1] = 3" "frontier [0, 2, 1, 1, 4] = 3"
    by (simp_all add: frontier_def upt_rec)
  show "near [0, 2, 1, 1, 4]" by (simp add: near_def less_Suc_eq all_conj_distrib f f [unfolded One_nat_def])
  show "frontier [0, 2, 1, 1, 4] = 3" by (rule f)
qed

theorem client_ack_equals_engine_ack_witness:
  "\<exists>w s evs. window_feed window_new (map of_nat [0, 2, 1, 1, 4]) = Some w
    \<and> ch2_feed (new_session 1 9 (V4 0 0) 0 [] 0) 5
       (map (\<lambda>j. (\<lparr>dh_version = VERSION, dh_flags = 0, dh_conn_id = 1, dh_seq = of_nat j, dh_ack = 0,
               dh_ack_bits = 0\<rparr>, \<lparr>fr_ch = 2, fr_msg_id = 7, fr_body = [of_nat j]\<rparr>)) [0, 2, 1, 1, 4]) = Some (s, evs)
    \<and> window_ack w = compute_ack s"
  using client_ack_equals_engine_ack [OF near_sample(1),
      of "\<lambda>j. \<lparr>dh_version = VERSION, dh_flags = 0, dh_conn_id = 1, dh_seq = of_nat j, dh_ack = 0, dh_ack_bits = 0\<rparr>"
         1 9 "V4 0 0" 0 "[]" 0 5 "\<lambda>j. \<lparr>fr_ch = 2, fr_msg_id = 7, fr_body = [of_nat j]\<rparr>"]
  by (simp del: ch2_feed.simps window_feed.simps list.map)

section \<open>What the sender makes of it\<close>

lemma is_acked_window:
  assumes "near js" "window_feed window_new (map of_nat js) = Some w" "frontier js \<le> j + 32768" "j < frontier js + 32767"
  shows "is_acked (of_nat j) (fst (window_ack w)) (snd (window_ack w)) \<longleftrightarrow> j \<in> set js \<and> j < frontier js + 32"
proof -
  let ?h = "\<lambda>j. \<lparr>dh_version = VERSION, dh_flags = 0, dh_conn_id = 0, dh_seq = of_nat j, dh_ack = 0, dh_ack_bits = 0\<rparr>"
  let ?f = "\<lambda>j. \<lparr>fr_ch = 2, fr_msg_id = 0, fr_body = []\<rparr>" and ?s = "new_session 0 0 (V4 0 0) 0 [] 0"
  obtain s H where s: "rx_at (\<lambda>_. (0, [])) (frontier js) H s" "frontier js \<notin> H" "{..<frontier js} \<union> H = set js" "ch2_core s = ch2_core ?s"
    using ch2_feed_rx [OF near_in_window [OF assms(1)], of ?h ?f "\<lambda>_. (0, [])" ?s 0] rx_at_new by auto
  have 3: "se_ch3_seen s = []" using ch2_core_fields(5) [OF s(4)] by (simp add: new_session_def)
  have "win_at (set js) (frontier js) w" using window_feed_at [OF assms(1)] assms(2) by simp
  then have "window_ack w = compute_ack s" using s 3 by (intro window_ack_rx)
  moreover have "j < frontier js \<or> j \<in> H \<longleftrightarrow> j \<in> set js" using s(3) by auto
  ultimately show ?thesis
    using is_acked_compute_ack [OF s(1,2), of j] assms(3,4) 3 by (auto simp: WINDOW_def)
qed

text \<open>
  The engine's queue is released by exactly what the client has received: when the client has seen
  the packets \<open>js\<close> and the engine processes its acknowledgement, the entries it drops are the longest
  prefix of its queue that the client received below the first missing index plus 32, in order, and
  the rest stays queued for retransmission.
\<close>

theorem client_ack_releases_received:
  assumes "near js" "window_feed window_new (map of_nat js) = Some w"
    and "map pp_seq (rq_entries q) = map of_nat qs"
    and "\<forall>j \<in> set qs. frontier js \<le> j + 32768 \<and> j < frontier js + 32767"
    and "on_ack chk q (fst (window_ack w)) (snd (window_ack w)) now = Some r"
  shows "ar_acked r = map of_nat (takeWhile (\<lambda>j. j \<in> set js \<and> j < frontier js + 32) qs)
    \<and> rq_entries (ar_queue r) = drop (length (ar_acked r)) (rq_entries q)"
proof -
  let ?got = "\<lambda>j. j \<in> set js \<and> j < frontier js + 32"
  let ?acked = "\<lambda>seq. is_acked seq (fst (window_ack w)) (snd (window_ack w))"
  have "takeWhile ?acked (map of_nat qs) = map of_nat (takeWhile ?got qs)"
  proof -
    have "takeWhile (?acked \<circ> of_nat) qs = takeWhile ?got qs"
      using is_acked_window [OF assms(1,2)] assms(4) by (intro takeWhile_cong refl) auto
    then show ?thesis by (simp add: takeWhile_map)
  qed
  then have a: "map pp_seq (takeWhile (?acked \<circ> pp_seq) (rq_entries q)) = map of_nat (takeWhile ?got qs)"
    using assms(3) by (metis takeWhile_map)
  have acked: "ar_acked r = map pp_seq (takeWhile (?acked \<circ> pp_seq) (rq_entries q))"
    and rest: "rq_entries (ar_queue r) = dropWhile (?acked \<circ> pp_seq) (rq_entries q)"
    using assms(5) by (auto elim!: on_ack_SomeE simp: comp_def)
  have "length (ar_acked r) = length (takeWhile (?acked \<circ> pp_seq) (rq_entries q))" by (simp add: acked)
  then show ?thesis using a acked rest by (simp add: dropWhile_eq_drop)
qed

theorem client_ack_releases_received_witness:
  "\<exists>w r. window_feed window_new (map of_nat [0, 2, 1, 1, 4]) = Some w
    \<and> on_ack True \<lparr>rq_entries = map (\<lambda>j. \<lparr>pp_seq = of_nat j, pp_sent_at = 0, pp_datagram = []\<rparr>) [1, 2, 3, 4], rq_skip_count = Map.empty\<rparr>
        (fst (window_ack w)) (snd (window_ack w)) 9 = Some r
    \<and> ar_acked r = [1, 2] \<and> map pp_seq (rq_entries (ar_queue r)) = [3, 4]"
proof -
  let ?js = "[0, 2, 1, 1, 4]"
  let ?q = "\<lparr>rq_entries = map (\<lambda>j. \<lparr>pp_seq = of_nat j, pp_sent_at = 0, pp_datagram = []\<rparr>) [1, 2, 3, 4], rq_skip_count = Map.empty\<rparr>"
  obtain w where w: "window_feed window_new (map of_nat ?js) = Some w" using window_feed_at [OF near_sample(1)] by blast
  have "is_acked (of_nat 1) (fst (window_ack w)) (snd (window_ack w))"
    by (subst is_acked_window [OF near_sample(1) w]) (simp_all add: near_sample(2) near_sample(2) [unfolded One_nat_def])
  then have "skip_head True ?q (fst (window_ack w)) (snd (window_ack w)) = Some (?q, [])" by (simp add: skip_head_def)
  then obtain r where r: "on_ack True ?q (fst (window_ack w)) (snd (window_ack w)) 9 = Some r"
    by (simp add: on_ack_def case_prod_beta)
  have m: "map pp_seq (rq_entries ?q) = map of_nat [1, 2, 3, 4]" by simp
  have b: "\<forall>j \<in> set [1, 2, 3, 4 :: nat]. frontier ?js \<le> j + 32768 \<and> j < frontier ?js + 32767" by (simp add: near_sample(2) near_sample(2) [unfolded One_nat_def])
  from client_ack_releases_received [OF near_sample(1) w m b r] show ?thesis
    using w r by (simp add: near_sample(2) near_sample(2) [unfolded One_nat_def] del: window_feed.simps list.map(2)) simp
qed

end
