(* ===== verification/Client.thy ===== *)
theory Client
  imports Ping Client_Window Table
begin

text \<open>
  The clients of the load tools \<open>src/examples/engineload.rs\<close>, \<open>bench.rs\<close> and \<open>interop.rs\<close>: their
  handshakes, the pings they send, what their receive tasks do with a packet, and the echo server that
  \<open>engineload.rs\<close> and \<open>bench.rs\<close> put in the place of the logic server. Sockets are assumed to work; what a
  task receives is an argument, \<open>None\<close> in an inbox standing for a time-out. A function returns what
  it sends, in order. \<open>hmac4\<close> is the HMAC the tools take from the crate.
\<close>

section \<open>Handshakes\<close>

datatype 'a outcome = Returns 'a | Panics | Waits

type_synonym inbox = "bytes option list"

definition LOAD_TOKEN :: bytes where "LOAD_TOKEN = ascii ''engineload''"
definition BENCH_TOKEN :: bytes where "BENCH_TOKEN = ascii ''bench-bench-bench''"
definition INTEROP_TOKEN :: bytes where "INTEROP_TOKEN = ascii ''interop-interop''"

text \<open>A receive buffer of one MTU cuts a longer datagram off.\<close>

definition udp_recv :: "bytes \<Rightarrow> bytes" where
  "udp_recv raw = take MTU raw"

text \<open>A handshake packet; \<open>None\<close> is the panic of \<open>unwrap\<close> on an encoding error.\<close>

definition hs_packet :: "bytes \<Rightarrow> bytes option" where
  "hs_packet body = (case encode handshake_header [new_frame_ref 0 0 body] [] of
     Inr (out, _) \<Rightarrow> Some out | Inl _ \<Rightarrow> None)"

definition emit :: "bytes option \<Rightarrow> bytes list \<times> 'a outcome \<Rightarrow> bytes list \<times> 'a outcome" where
  "emit pkt k = (case pkt of None \<Rightarrow> ([], Panics) | Some b \<Rightarrow> (b # fst k, snd k))"

text \<open>The second half of the handshakes of \<open>engineload.rs\<close> and \<open>interop.rs\<close>, from the challenge on.\<close>

definition answer_challenge :: "bytes \<Rightarrow> bytes \<Rightarrow> inbox \<Rightarrow> bytes list \<times> (u32 \<times> bytes) outcome" where
  "answer_challenge token challenge inbox = emit (hs_packet (challenge @ token))
     (case inbox of
        [] \<Rightarrow> ([], Waits)
      | None # _ \<Rightarrow> ([], Panics)
      | Some raw # _ \<Rightarrow>
          (case decode (udp_recv raw) of
             Inl _ \<Rightarrow> ([], Panics)
           | Inr (h2, frames2) \<Rightarrow>
               (case frames2 of
                  [] \<Rightarrow> ([], Panics)
                | f # _ \<Rightarrow> if length (fr_body f) = 8 then ([], Returns (dh_conn_id h2, fr_body f)) else ([], Panics))))"

text \<open>A packet without frames makes \<open>engineload.rs\<close> start over, and the other tool panic.\<close>

fun load_handshake :: "inbox \<Rightarrow> bytes list \<times> (u32 \<times> bytes) outcome" where
  "load_handshake [] = emit (hs_packet LOAD_TOKEN) ([], Waits)"
| "load_handshake (None # _) = emit (hs_packet LOAD_TOKEN) ([], Panics)"
| "load_handshake (Some raw # inbox) = emit (hs_packet LOAD_TOKEN)
     (case decode (udp_recv raw) of
        Inl _ \<Rightarrow> ([], Panics)
      | Inr (_, frames) \<Rightarrow>
          (case frames of
             [] \<Rightarrow> load_handshake inbox
           | f # _ \<Rightarrow> answer_challenge LOAD_TOKEN (fr_body f) inbox))"

definition interop_handshake :: "inbox \<Rightarrow> bytes list \<times> (u32 \<times> bytes) outcome" where
  "interop_handshake inbox = emit (hs_packet INTEROP_TOKEN)
     (case inbox of
        [] \<Rightarrow> ([], Waits)
      | None # _ \<Rightarrow> ([], Panics)
      | Some raw # inbox \<Rightarrow>
          (case decode (udp_recv raw) of
             Inl _ \<Rightarrow> ([], Panics)
           | Inr (_, frames) \<Rightarrow>
               (case frames of
                  [] \<Rightarrow> ([], Panics)
                | f # _ \<Rightarrow> answer_challenge INTEROP_TOKEN (fr_body f) inbox)))"

text \<open>
  The loop of \<open>bench.rs\<close>: any trouble with a reply is the next attempt, a secret of the wrong length
  leaves the array of zeros, and the attempts used up are a panic.
\<close>

fun bench_attempts :: "nat \<Rightarrow> inbox \<Rightarrow> bytes list \<times> (u32 \<times> bytes) outcome" where
  "bench_attempts 0 inbox = ([], Panics)"
| "bench_attempts (Suc n) inbox = emit (hs_packet BENCH_TOKEN)
     (case inbox of
        [] \<Rightarrow> ([], Waits)
      | None # inbox \<Rightarrow> bench_attempts n inbox
      | Some raw # inbox \<Rightarrow>
          (case decode (udp_recv raw) of
             Inl _ \<Rightarrow> bench_attempts n inbox
           | Inr (_, frames) \<Rightarrow>
               (case frames of
                  [] \<Rightarrow> bench_attempts n inbox
                | f # _ \<Rightarrow> emit (hs_packet (fr_body f @ BENCH_TOKEN))
                    (case inbox of
                       [] \<Rightarrow> ([], Waits)
                     | None # inbox \<Rightarrow> bench_attempts n inbox
                     | Some raw # inbox \<Rightarrow>
                         (case decode (udp_recv raw) of
                            Inl _ \<Rightarrow> bench_attempts n inbox
                          | Inr (h2, frames2) \<Rightarrow>
                              (case frames2 of
                                 [] \<Rightarrow> bench_attempts n inbox
                               | f2 # _ \<Rightarrow> ([], Returns (dh_conn_id h2,
                                   if length (fr_body f2) = 8 then fr_body f2 else replicate 8 0))))))))"

definition bench_handshake :: "inbox \<Rightarrow> bytes list \<times> (u32 \<times> bytes) outcome" where
  "bench_handshake inbox = bench_attempts 3 inbox"

section \<open>Sending\<close>

definition ping_header :: "u32 \<Rightarrow> u16 \<Rightarrow> datagram_header" where
  "ping_header conn_id seq = \<lparr>dh_version = VERSION, dh_flags = FLAG_HMAC, dh_conn_id = conn_id,
     dh_seq = seq, dh_ack = 0, dh_ack_bits = 0\<rparr>"

definition ping_packet :: "(bytes \<Rightarrow> bytes \<Rightarrow> bytes) \<Rightarrow> u32 \<Rightarrow> bytes \<Rightarrow> u16 \<Rightarrow> bytes \<Rightarrow> bytes option" where
  "ping_packet hmac4 conn_id secret seq payload =
     (case encode (ping_header conn_id seq) [new_frame_ref CH_RELIABLE_ORDERED 1 payload] [] of
        Inr (buf, _) \<Rightarrow> Some (buf @ hmac4 secret buf)
      | Inl _ \<Rightarrow> None)"

text \<open>One client of \<open>engineload.rs\<close>: what its main loop and its receive task keep.\<close>

record load_client =
  lc_conn_id :: u32
  lc_secret :: bytes
  lc_id :: nat
  lc_seq :: u16
  lc_sent :: u64
  lc_pending :: "(u16 \<times> instant) list"
  lc_rtts :: "rat list"
  lc_window :: rx_window

definition load_client_new :: "nat \<Rightarrow> u32 \<times> bytes \<Rightarrow> load_client" where
  "load_client_new i hs = \<lparr>lc_conn_id = fst hs, lc_secret = snd hs, lc_id = i, lc_seq = 0, lc_sent = 0,
     lc_pending = [], lc_rtts = [], lc_window = window_new\<rparr>"

definition note_ping :: "(u16 \<times> instant) list \<Rightarrow> u16 \<Rightarrow> instant \<Rightarrow> (u16 \<times> instant) list" where
  "note_ping pending seq now =
     (let pending = AList.update seq now pending in
      if 512 < length pending then AList.delete (Min (fst ` set pending)) pending else pending)"

text \<open>One turn of the main loop: the ping it sends; \<open>None\<close> is the panic of the encoder.\<close>

definition load_ping :: "(bytes \<Rightarrow> bytes \<Rightarrow> bytes) \<Rightarrow> load_client \<Rightarrow> instant \<Rightarrow> (load_client \<times> bytes) option" where
  "load_ping hmac4 c now = do {
     pkt \<leftarrow> ping_packet hmac4 (lc_conn_id c) (lc_secret c) (lc_seq c) (ping_body (lc_id c) (lc_seq c));
     Some (c\<lparr>lc_pending := note_ping (lc_pending c) (lc_seq c) now, lc_sent := lc_sent c + 1,
             lc_seq := lc_seq c + 1\<rparr>, pkt)
   }"

text \<open>The interval between two pings, and the loop until the duration is over, by the clocks it reads.\<close>

definition load_interval :: "nat \<Rightarrow> duration" where
  "load_interval pps = 1000 * (1000000 div max pps 1)"

fun load_run :: "(bytes \<Rightarrow> bytes \<Rightarrow> bytes) \<Rightarrow> duration \<Rightarrow> instant \<Rightarrow> load_client \<Rightarrow> (instant \<times> instant) list
    \<Rightarrow> (load_client \<times> bytes list) option" where
  "load_run hmac4 dur start c [] = Some (c, [])"
| "load_run hmac4 dur start c ((t, now) # clks) =
     (if duration_since t start < dur then do {
        (c, pkt) \<leftarrow> load_ping hmac4 c now;
        (c, pkts) \<leftarrow> load_run hmac4 dur start c clks;
        Some (c, pkt # pkts)
      } else Some (c, []))"

text \<open>The pings of the recycle scenario of \<open>bench.rs\<close>, which ignores an encoding error, and of \<open>interop.rs\<close>.\<close>

definition bench_pings :: "(bytes \<Rightarrow> bytes \<Rightarrow> bytes) \<Rightarrow> u32 \<Rightarrow> bytes \<Rightarrow> bytes list" where
  "bench_pings hmac4 conn_id secret =
     map (\<lambda>i. let payload = ascii ''recycle-'' @ dec_text i;
                buf = (case encode (ping_header conn_id (of_nat i)) [new_frame_ref CH_RELIABLE_ORDERED 1 payload] [] of
                         Inr (out, _) \<Rightarrow> out | Inl _ \<Rightarrow> [])
            in buf @ hmac4 secret buf)
       [0..<3]"

definition interop_pings :: "(bytes \<Rightarrow> bytes \<Rightarrow> bytes) \<Rightarrow> u32 \<Rightarrow> bytes \<Rightarrow> u16 \<Rightarrow> bytes list option" where
  "interop_pings hmac4 conn_id secret count =
     those (map (\<lambda>i. ping_packet hmac4 conn_id secret (of_nat i) (ascii ''ping-'' @ dec_text i)) [0..<unat count])"

section \<open>Receiving\<close>

text \<open>The check of the HMAC; \<open>None\<close> drops the packet.\<close>

definition strip_mac :: "(bytes \<Rightarrow> bytes \<Rightarrow> bytes) \<Rightarrow> bytes \<Rightarrow> bytes \<Rightarrow> bytes option" where
  "strip_mac hmac4 secret raw =
     (if 20 \<le> length raw \<and> raw ! 3 AND FLAG_HMAC \<noteq> 0 then
        let d = take (length raw - 4) raw; m = drop (length raw - 4) raw
        in if hmac4 secret d \<noteq> m then None else Some d
      else Some raw)"

definition ack_packet :: "u32 \<Rightarrow> u16 \<times> u32 \<Rightarrow> bytes list" where
  "ack_packet conn_id ack =
     (case encode \<lparr>dh_version = VERSION, dh_flags = FLAG_PURE_ACK, dh_conn_id = conn_id, dh_seq = 0,
                   dh_ack = fst ack, dh_ack_bits = snd ack\<rparr> [] [] of
        Inr (out, _) \<Rightarrow> [out] | Inl _ \<Rightarrow> [])"

fun match_echoes :: "bytes \<Rightarrow> (nat \<Rightarrow> instant) \<Rightarrow> frame_ref list \<Rightarrow> (u16 \<times> instant) list \<Rightarrow> rat list
    \<Rightarrow> (u16 \<times> instant) list \<times> rat list" where
  "match_echoes prefix clk [] pending rtts = (pending, rtts)"
| "match_echoes prefix clk (f # fs) pending rtts =
     (let hit = (if fr_ch f = CH_RELIABLE_ORDERED then echo_seq prefix (fr_body f) else None);
          t0 = Option.bind hit (map_of pending)
      in case t0 of
           None \<Rightarrow> match_echoes prefix (\<lambda>i. clk (Suc i)) fs pending rtts
         | Some t \<Rightarrow> match_echoes prefix (\<lambda>i. clk (Suc i)) fs (AList.delete (the hit) pending)
             (rtts @ [f64_mul (as_secs_f64 (duration_since (clk 0) t)) 1000]))"

text \<open>The receive task of \<open>engineload.rs\<close>, for one packet; \<open>None\<close> would be a loop that does not return.\<close>

definition load_receive :: "(bytes \<Rightarrow> bytes \<Rightarrow> bytes) \<Rightarrow> load_client \<Rightarrow> bytes \<Rightarrow> (nat \<Rightarrow> instant)
    \<Rightarrow> (load_client \<times> bytes list) option" where
  "load_receive hmac4 c raw clk =
     (case strip_mac hmac4 (lc_secret c) (udp_recv raw) of
        None \<Rightarrow> Some (c, [])
      | Some data \<Rightarrow>
          (case decode data of
             Inl _ \<Rightarrow> Some (c, [])
           | Inr (h, frames) \<Rightarrow> do {
               let (pending, rtts) = match_echoes (ping_prefix (lc_id c)) clk frames (lc_pending c) (lc_rtts c);
               w \<leftarrow> window_note (lc_window c) (dh_seq h);
               Some (c\<lparr>lc_pending := pending, lc_rtts := rtts, lc_window := w\<rparr>,
                     ack_packet (dh_conn_id h) (window_ack w))
             }))"

text \<open>
  The receive task of the recycle scenario of \<open>bench.rs\<close>: it does not look at HMACs, and acknowledges
  the sequence number of every packet it can decode.
\<close>

definition bench_receive :: "bytes \<Rightarrow> bytes list" where
  "bench_receive raw = (case decode (udp_recv raw) of
     Inl _ \<Rightarrow> [] | Inr (h, _) \<Rightarrow> ack_packet (dh_conn_id h) (dh_seq h, 0))"

text \<open>Of \<open>interop.rs\<close>: the echoes of one packet counted, with the 16-bit counter of the code.\<close>

fun count_echoes :: "bool \<Rightarrow> frame_ref list \<Rightarrow> u16 \<times> nat list \<Rightarrow> (u16 \<times> nat list) option" where
  "count_echoes chk [] st = Some st"
| "count_echoes chk (f # fs) (echoed, ids) =
     (if fr_ch f = CH_RELIABLE_ORDERED \<and> take 5 (fr_body f) = ascii ''ping-'' then
        if chk \<and> echoed = - 1 then None
        else count_echoes chk fs (echoed + 1,
          ids @ [case parse_uint 16 (drop 5 (fr_body f)) of Some n \<Rightarrow> n | None \<Rightarrow> 0])
      else count_echoes chk fs (echoed, ids))"

fun interop_receive :: "bool \<Rightarrow> (bytes \<Rightarrow> bytes \<Rightarrow> bytes) \<Rightarrow> bytes \<Rightarrow> u16 \<Rightarrow> u16 \<times> nat list \<Rightarrow> bytes list
    \<Rightarrow> bytes list \<times> u16 outcome" where
  "interop_receive chk hmac4 secret target st [] = ([], Waits)"
| "interop_receive chk hmac4 secret target st (raw # raws) =
     (case strip_mac hmac4 secret (udp_recv raw) of
        None \<Rightarrow> interop_receive chk hmac4 secret target st raws
      | Some data \<Rightarrow>
          (case decode data of
             Inl _ \<Rightarrow> interop_receive chk hmac4 secret target st raws
           | Inr (h, frames) \<Rightarrow>
               (case count_echoes chk frames st of
                  None \<Rightarrow> ([], Panics)
                | Some st \<Rightarrow>
                    let acks = ack_packet (dh_conn_id h) (dh_seq h, 0);
                        (sent, r) = (if target \<le> fst st then ([], Returns (fst st))
                                     else interop_receive chk hmac4 secret target st raws)
                    in (acks @ sent, r))))"

section \<open>The echo server\<close>

text \<open>What it writes for one frame; \<open>None\<close> is a panic of one of its \<open>unwrap\<close> calls.\<close>

definition echo_frame :: "uds_frame \<Rightarrow> bytes option" where
  "echo_frame f =
     (if uf_ty f = FRAME_ENGINE_HELLO then
        (case logic_hello 1 0 [] of Inr out \<Rightarrow> Some out | Inl _ \<Rightarrow> None)
      else if uf_ty f = FRAME_DATA_UP then
        (case parse_data (uf_body f) of
           Inl _ \<Rightarrow> None
         | Inr (sid, ch, msg_id, payload) \<Rightarrow>
             if ch = CH_RELIABLE_ORDERED then
               (case write_frame (send sid ch msg_id payload) of Inr out \<Rightarrow> Some out | Inl _ \<Rightarrow> None)
             else Some [])
      else Some [])"

fun echo_frames :: "uds_frame list \<Rightarrow> bytes option" where
  "echo_frames [] = Some []"
| "echo_frames (f # fs) = do { out \<leftarrow> echo_frame f; outs \<leftarrow> echo_frames fs; Some (out @ outs) }"

text \<open>Over the reads of its socket: a read error is a panic, the end of the stream the end.\<close>

definition echo_logic :: "bytes list \<Rightarrow> bytes option" where
  "echo_logic reads = (case read_loop [] reads of
     (fs, None) \<Rightarrow> echo_frames fs | (_, Some _) \<Rightarrow> None)"

end
