(* ===== verification/Client_Handshake.thy ===== *)
theory Client_Handshake
  imports Client Inbound
begin

text \<open>
  The handshakes of the load tools run against the session table of the engine: every tool obtains a
  session, and what the retry loop of \<open>bench.rs\<close> does when a reply is lost.
\<close>

section \<open>The packets of a handshake\<close>

lemma token_lengths: "length LOAD_TOKEN = 10" "length BENCH_TOKEN = 17" "length INTEROP_TOKEN = 15"
  by (simp_all add: LOAD_TOKEN_def BENCH_TOKEN_def INTEROP_TOKEN_def ascii_def)

lemma hs_packet_short:
  "length body \<le> 100 \<Longrightarrow> hs_packet body = Some (client_packet handshake_header [new_frame_ref 0 0 body])"
  by (simp add: hs_packet_def encode_sendable sample_sendable)

lemma udp_recv_decoded: "decode b = Inr r \<Longrightarrow> udp_recv b = b"
  by (cases r) (simp add: udp_recv_def decode_InrD(2))

definition hs_tools :: "((inbox \<Rightarrow> bytes list \<times> (u32 \<times> bytes) outcome) \<times> bytes) set" where
  "hs_tools = {(load_handshake, LOAD_TOKEN), (bench_handshake, BENCH_TOKEN), (interop_handshake, INTEROP_TOKEN)}"

lemma tool_token: "(tool, token) \<in> hs_tools \<Longrightarrow> 10 \<le> length token \<and> length token \<le> 17"
  by (auto simp: hs_tools_def token_lengths)

text \<open>Every tool, over the replies it needs.\<close>

lemma tool_run:
  assumes "(tool, token) \<in> hs_tools"
    and "decode chal = Inr (h1, [new_frame_ref 0 0 c])" "length c = 8"
    and "decode secret = Inr (h2, [new_frame_ref 0 0 k])" "length k = 8"
  defines "req \<equiv> client_packet handshake_header [new_frame_ref 0 0 token]"
    and "resp \<equiv> client_packet handshake_header [new_frame_ref 0 0 (c @ token)]"
  shows "tool [] = ([req], Waits)" "tool [Some chal] = ([req, resp], Waits)"
    "tool [Some chal, Some secret] = ([req, resp], Returns (dh_conn_id h2, k))"
proof -
  have p: "hs_packet token = Some req" "hs_packet (c @ token) = Some resp"
    using tool_token [OF assms(1)] assms(3) by (simp_all add: hs_packet_short req_def resp_def)
  note u = udp_recv_decoded [OF assms(2)] udp_recv_decoded [OF assms(4)]
  note s = emit_def answer_challenge_def u assms(2-5) new_frame_ref_def
  have "tool [] = ([req], Waits) \<and> tool [Some chal] = ([req, resp], Waits)
      \<and> tool [Some chal, Some secret] = ([req, resp], Returns (dh_conn_id h2, k))"
    using assms(1) p unfolding hs_tools_def
    by (auto simp: s interop_handshake_def bench_handshake_def numeral_3_eq_3)
  then show "tool [] = ([req], Waits)" "tool [Some chal] = ([req, resp], Waits)"
    "tool [Some chal, Some secret] = ([req, resp], Returns (dh_conn_id h2, k))" by simp_all
qed

text \<open>
  C19. Every load tool gets its session: run against the session table, the tool's request is answered
  by a challenge, its answer to the challenge by the secret, and it returns exactly the connection id
  and the secret of the one session the engine has stored and reported to the logic server with the
  tool's token.
\<close>

theorem client_handshake_opens_session:
  assumes "(tool, token) \<in> hs_tools" "table_ok t" "st_pending t peer = None"
    and "duration_since now2 now1 < cfg_handshake_timeout (st_cfg t)"
  shows "\<exists>req resp chal secret t' conn_id.
    tool [] = ([req], Waits) \<and> tool [Some chal] = ([req, resp], Waits)
    \<and> tool [Some chal, Some secret] = ([req, resp], Returns (conn_id, le64 rnd2))
    \<and> datagrams chk hmac4 t [(peer, req, rnd1, clk1, now1), (peer, resp, rnd2, clk2, now2)]
        = Some (t', [(chal, peer), (secret, peer)], [EvOpen (st_next_sess_id t) peer token])
    \<and> table_get t' conn_id = Some (new_session conn_id (st_next_sess_id t) peer rnd2 token now2)"
proof -
  have sh: "shards_ok t" using assms(2) by (simp add: table_ok_def)
  have len: "10 \<le> length token" "length token \<le> 17" using tool_token [OF assms(1)] by simp_all
  have s: "sendable handshake_header [new_frame_ref 0 0 token]" "sendable handshake_header [new_frame_ref 0 0 (le64 rnd1 @ token)]"
    using len by (simp_all add: sample_sendable)
  have big: "28 \<le> HEADER_LEN + frames_size [new_frame_ref 0 0 token]" using len by (simp add: new_frame_ref_def HEADER_LEN_def)
  have body: "fr_body (new_frame_ref 0 0 (le64 rnd1 @ token)) = le64 rnd1 @ token" by (simp add: new_frame_ref_def)
  obtain t' chal secret where d:
      "datagrams chk hmac4 t [(peer, client_packet handshake_header [new_frame_ref 0 0 token], rnd1, clk1, now1),
         (peer, client_packet handshake_header [new_frame_ref 0 0 (le64 rnd1 @ token)], rnd2, clk2, now2)]
        = Some (t', [(chal, peer), (secret, peer)], [EvOpen (st_next_sess_id t) peer token])"
      "decode chal = Inr (\<lparr>dh_version = VERSION, dh_flags = FLAG_HANDSHAKE, dh_conn_id = 0, dh_seq = 0,
        dh_ack = 0, dh_ack_bits = 0\<rparr>, [new_frame_ref 0 0 (le64 rnd1)])"
      "decode secret = Inr (\<lparr>dh_version = VERSION, dh_flags = FLAG_HANDSHAKE,
        dh_conn_id = ucast (st_next_conn_id t), dh_seq = 0, dh_ack = 0, dh_ack_bits = 0\<rparr>, [new_frame_ref 0 0 (le64 rnd2)])"
      "table_get t' (ucast (st_next_conn_id t)) =
        Some (new_session (ucast (st_next_conn_id t)) (st_next_sess_id t) peer rnd2 token now2)"
    using handshake_completes_lemma [OF sh assms(3) s(1) sample_flags big s(2) sample_flags body assms(4),
        of chk hmac4 clk1 rnd2 clk2] by blast
  note r = tool_run [OF assms(1) d(2) _ d(3), simplified]
  show ?thesis using d(1,4) r
    by (intro exI [of _ "client_packet handshake_header [new_frame_ref 0 0 token]"]
      exI [of _ "client_packet handshake_header [new_frame_ref 0 0 (le64 rnd1 @ token)]"]
      exI [of _ chal] exI [of _ secret] exI [of _ t'] exI [of _ "ucast (st_next_conn_id t)"])
      (simp del: datagrams.simps)
qed

theorem client_handshake_opens_session_witness:
  "\<exists>req resp chal secret t' conn_id.
    load_handshake [Some chal, Some secret] = ([req, resp], Returns (conn_id, le64 88))
    \<and> datagrams True (\<lambda>_ _. []) (table_new default_config) [(V4 1 2, req, 77, 0, 0), (V4 1 2, resp, 88, 5, 5)]
        = Some (t', [(chal, V4 1 2), (secret, V4 1 2)], [EvOpen 1 (V4 1 2) LOAD_TOKEN])
    \<and> table_get t' conn_id = Some (new_session conn_id 1 (V4 1 2) 88 LOAD_TOKEN 5)"
proof -
  let ?t = "table_new default_config"
  have f: "st_pending ?t (V4 1 2) = None" "st_next_sess_id ?t = 1"
    "duration_since 5 0 < cfg_handshake_timeout (st_cfg ?t)"
    by (simp_all add: table_new_def default_config_def duration_since_def HANDSHAKE_TIMEOUT_def)
  have m: "(load_handshake, LOAD_TOKEN) \<in> hs_tools" by (simp add: hs_tools_def)
  show ?thesis
    using client_handshake_opens_session [OF m table_ok_new f(1,3), of 88 True "\<lambda>_ _. []" 77 0 5] unfolding f(2) by blast
qed

section \<open>Lost replies\<close>

lemma handshake_first:
  assumes "st_pending t peer = None" "sendable h (f # fs)" "dh_flags h AND FLAG_HANDSHAKE \<noteq> 0" "28 \<le> HEADER_LEN + frames_size (f # fs)"
  shows "\<exists>t' chal. handle_datagram chk hmac4 t peer (client_packet h (f # fs)) rnd clk now = Some (t', [(chal, peer)], [])
    \<and> st_pending t' peer = Some \<lparr>ph_challenge = le64 rnd, ph_created = now\<rparr> \<and> st_cfg t' = st_cfg t"
  using assms
  by (simp add: handle_datagram_handshake_packet handle_handshake_def purge_pending_def Let_def handshake_reply_eq
    buf_len_hint_eq length_client_packet new_frame_ref_def HEADER_LEN_def)

lemma handshake_again:
  assumes "st_pending t peer = Some rec" "duration_since now (ph_created rec) < cfg_handshake_timeout (st_cfg t)"
    and "sendable h (f # fs)" "dh_flags h AND FLAG_HANDSHAKE \<noteq> 0" "take 8 (fr_body f) \<noteq> ph_challenge rec"
  shows "\<exists>t'. handle_datagram chk hmac4 t peer (client_packet h (f # fs)) rnd clk now = Some (t', [], [])
    \<and> st_pending t' peer = Some rec \<and> st_cfg t' = st_cfg t"
  using assms by (simp add: handle_datagram_handshake_packet handle_handshake_def purge_pending_def Let_def)

text \<open>
  The retry loop of the benchmark cannot recover from a lost challenge: the engine keeps the pending
  handshake for its timeout (3 s by default; the three attempts of 800 ms are over before that) and
  answers none of the further requests, so that the tool panics after its third attempt, with the
  handshake still pending. (The challenge must not by chance begin the token.)
\<close>

theorem bench_retry_futile:
  assumes "st_pending t peer = None" "le64 rnd1 \<noteq> take 8 BENCH_TOKEN"
    and "duration_since now2 now1 < cfg_handshake_timeout (st_cfg t)"
    and "duration_since now3 now1 < cfg_handshake_timeout (st_cfg t)"
  shows "\<exists>req chal t'. bench_handshake [None, None, None] = ([req, req, req], Panics)
    \<and> datagrams chk hmac4 t [(peer, req, rnd1, clk1, now1), (peer, req, rnd2, clk2, now2), (peer, req, rnd3, clk3, now3)]
        = Some (t', [(chal, peer)], []) \<and> st_pending t' peer \<noteq> None"
proof -
  let ?f = "new_frame_ref 0 0 BENCH_TOKEN"
  let ?req = "client_packet handshake_header [?f]"
  have p: "hs_packet BENCH_TOKEN = Some ?req" by (simp add: hs_packet_short token_lengths)
  have b: "bench_handshake [None, None, None] = ([?req, ?req, ?req], Panics)"
    by (simp add: bench_handshake_def numeral_3_eq_3 p emit_def)
  have s: "sendable handshake_header [?f]" by (simp add: sample_sendable token_lengths)
  have big: "28 \<le> HEADER_LEN + frames_size [?f]" by (simp add: new_frame_ref_def HEADER_LEN_def token_lengths)
  have ne: "take 8 (fr_body ?f) \<noteq> le64 rnd1" using assms(2) by (auto simp: new_frame_ref_def)
  obtain t1 chal where 1: "handle_datagram chk hmac4 t peer ?req rnd1 clk1 now1 = Some (t1, [(chal, peer)], [])"
      "st_pending t1 peer = Some \<lparr>ph_challenge = le64 rnd1, ph_created = now1\<rparr>" "st_cfg t1 = st_cfg t"
    using handshake_first [OF assms(1) s sample_flags big] by blast
  have "\<exists>t'. handle_datagram chk hmac4 t1 peer ?req rnd2 clk2 now2 = Some (t', [], [])
      \<and> st_pending t' peer = Some \<lparr>ph_challenge = le64 rnd1, ph_created = now1\<rparr> \<and> st_cfg t' = st_cfg t1"
    using handshake_again [OF 1(2) _ s sample_flags] assms(3) ne 1(3) by simp
  then obtain t2 where 2: "handle_datagram chk hmac4 t1 peer ?req rnd2 clk2 now2 = Some (t2, [], [])"
      "st_pending t2 peer = Some \<lparr>ph_challenge = le64 rnd1, ph_created = now1\<rparr>" "st_cfg t2 = st_cfg t"
    using 1(3) by auto
  have "\<exists>t'. handle_datagram chk hmac4 t2 peer ?req rnd3 clk3 now3 = Some (t', [], [])
      \<and> st_pending t' peer = Some \<lparr>ph_challenge = le64 rnd1, ph_created = now1\<rparr> \<and> st_cfg t' = st_cfg t2"
    using handshake_again [OF 2(2) _ s sample_flags] assms(4) ne 2(3) by simp
  then obtain t3 where "handle_datagram chk hmac4 t2 peer ?req rnd3 clk3 now3 = Some (t3, [], [])"
      "st_pending t3 peer = Some \<lparr>ph_challenge = le64 rnd1, ph_created = now1\<rparr>"
    using 2(3) by auto
  with 1 2 b show ?thesis
    by (intro exI [of _ ?req] exI [of _ chal] exI [of _ t3]) simp
qed

theorem bench_retry_futile_witness:
  "\<exists>req chal t'. bench_handshake [None, None, None] = ([req, req, req], Panics)
    \<and> datagrams True (\<lambda>_ _. []) (table_new default_config)
        [(V4 1 2, req, 77, 0, 0), (V4 1 2, req, 78, 0, millis 800), (V4 1 2, req, 79, 0, millis 1600)]
      = Some (t', [(chal, V4 1 2)], []) \<and> st_pending t' (V4 1 2) \<noteq> None"
proof (rule bench_retry_futile)
  have "hd (le64 (77 :: u64)) = 77" "hd (take 8 BENCH_TOKEN) = 98"
    by (simp_all add: eval_simps BENCH_TOKEN_def ascii_def)
  then have "hd (le64 (77 :: u64)) \<noteq> hd (take 8 BENCH_TOKEN)" by simp
  then show "le64 77 \<noteq> take 8 BENCH_TOKEN" by (rule contrapos_nn) (rule arg_cong)
qed (simp_all add: table_new_def default_config_def duration_since_def HANDSHAKE_TIMEOUT_def)

end
