(* ===== verification/Client_Acks.thy ===== *)
theory Client_Acks
  imports Client_Handshake Engine
begin

text \<open>
  What the acknowledgements of the load tools confirm beyond what the tools have received: the constant
  acknowledgement in every ping, the sequence numbers of control packets, and the acknowledgement of a
  single packet by \<open>bench.rs\<close> and \<open>interop.rs\<close>; and what \<open>bench.rs\<close> makes of packets with an HMAC.
\<close>

section \<open>Packets on the client's side\<close>

lemma strip_signed:
  assumes "sendable h fs" "dh_flags h AND FLAG_HMAC \<noteq> 0" "length (hmac4 secret (client_packet h fs)) = 4"
  shows "strip_mac hmac4 secret (client_packet h fs @ hmac4 secret (client_packet h fs)) = Some (client_packet h fs)"
proof -
  have len: "16 \<le> length (client_packet h fs)" by (simp add: length_client_packet HEADER_LEN_def)
  then have "(client_packet h fs @ m) ! 3 = dh_flags h" for m
    using client_packet_flags [OF assms(1)] by (simp add: nth_append)
  then show ?thesis using assms(2,3) len by (simp add: strip_mac_def)
qed

lemma strip_plain:
  assumes "sendable h fs" "dh_flags h AND FLAG_HMAC = 0"
  shows "strip_mac hmac4 secret (client_packet h fs) = Some (client_packet h fs)"
  using client_packet_flags [OF assms(1)] assms(2) by (simp add: strip_mac_def)

lemma udp_recv_packet: "sendable h fs \<Longrightarrow> udp_recv (client_packet h fs) = client_packet h fs"
  by (rule udp_recv_decoded [OF decode_client_packet])

definition ack_header :: "u32 \<Rightarrow> u16 \<times> u32 \<Rightarrow> datagram_header" where
  "ack_header conn_id ack = \<lparr>dh_version = VERSION, dh_flags = FLAG_PURE_ACK, dh_conn_id = conn_id, dh_seq = 0,
     dh_ack = fst ack, dh_ack_bits = snd ack\<rparr>"

lemma sendable_ack: "sendable (ack_header conn_id ack) []"
  by (simp add: sendable_def ack_header_def HEADER_LEN_def MTU_def)

lemma ack_packet_eq: "ack_packet conn_id ack = [client_packet (ack_header conn_id ack) []]"
  using encode_sendable [OF sendable_ack [of conn_id ack]] by (simp add: ack_packet_def ack_header_def)

lemma sendable_ping: "length payload \<le> 1180 \<Longrightarrow> sendable (ping_header conn_id seq) [new_frame_ref CH_RELIABLE_ORDERED 1 payload]"
  by (simp add: sendable_def ping_header_def valid_frame_def new_frame_ref_def HEADER_LEN_def MTU_def ch_defs)

lemma ping_packet_eq:
  assumes "length payload \<le> 1180"
  shows "ping_packet hmac4 conn_id secret seq payload =
    (let b = client_packet (ping_header conn_id seq) [new_frame_ref CH_RELIABLE_ORDERED 1 payload] in Some (b @ hmac4 secret b))"
  using encode_sendable [OF sendable_ping [OF assms]] by (simp add: ping_packet_def Let_def)

lemma ping_flags: "dh_flags (ping_header conn_id seq) AND (FLAG_HANDSHAKE OR FLAG_HMAC) = FLAG_HMAC"
  by (simp add: ping_header_def flag_defs)

lemma length_dec_text: "n < 10 ^ k \<Longrightarrow> 0 < k \<Longrightarrow> length (dec_text n) \<le> k"
proof (induction k arbitrary: n)
  case (Suc k)
  show ?case
  proof (cases "n < 10")
    case False
    then have "0 < k" using Suc.prems(1) by (cases k) simp_all
    then have "length (dec_text (n div 10)) \<le> k" using Suc by (simp add: less_mult_imp_div_less mult.commute)
    then show ?thesis using False by (subst dec_text.simps) simp
  qed (subst dec_text.simps, simp)
qed simp

lemma length_ping_body: "i < 2 ^ 64 \<Longrightarrow> length (ping_body i seq) \<le> 31"
proof -
  assume "i < 2 ^ 64"
  then have "length (dec_text i) \<le> 20" by (intro length_dec_text) simp_all
  moreover have "length (dec_text (unat seq)) \<le> 5"
    using unsigned_less [of seq, where 'a = nat] by (intro length_dec_text) simp_all
  ultimately show ?thesis by (simp add: ping_body_def ascii_def)
qed

lemma load_ping_eq:
  assumes "lc_id c < 2 ^ 64"
  shows "load_ping hmac4 c now =
    (let b = client_packet (ping_header (lc_conn_id c) (lc_seq c)) [new_frame_ref CH_RELIABLE_ORDERED 1 (ping_body (lc_id c) (lc_seq c))]
     in Some (c\<lparr>lc_pending := note_ping (lc_pending c) (lc_seq c) now, lc_sent := lc_sent c + 1, lc_seq := lc_seq c + 1\<rparr>,
              b @ hmac4 (lc_secret c) b))"
  using length_ping_body [OF assms, of "lc_seq c"] by (simp add: load_ping_def ping_packet_eq Let_def)

section \<open>The acknowledgement in a ping\<close>

lemma is_acked_zero: "is_acked seq 0 0 \<longleftrightarrow> seq = 0 \<or> 32768 \<le> unat seq"
  by (auto simp: is_acked_dist seq_dist_def)

lemma on_ack_all:
  assumes "\<forall>p \<in> set (rq_entries q). is_acked (pp_seq p) ack bits" "on_ack chk q ack bits now = Some r"
  shows "rq_entries (ar_queue r) = []"
  using on_ack_SomeD(1) [OF assms(2)] assms(1) by simp

lemma process_acks_ch2:
  assumes "process_acks chk s st header now = Some (s', st', fast)"
  shows "\<exists>r. on_ack chk (se_retrans_ch2 s) (dh_ack header) (dh_ack_bits header) now = Some r \<and> se_retrans_ch2 s' = ar_queue r"
  using assms
  by (auto simp: process_acks_def ack_queue_def Let_def split: bind_splits dest!: apply_sample_SomeD)

lemma dispatch_frame_queues:
  assumes "dispatch_frame chk header now (s, st, need) f = Some ((s', st', need'), evs)"
  shows "se_retrans_ch2 s' = se_retrans_ch2 s \<and> se_retrans_ch3 s' = se_retrans_ch3 s"
proof -
  have "se_retrans_ch2 s' = se_retrans_ch2 s \<and> se_retrans_ch3 s' = se_retrans_ch3 s"
    if "handle_ch2 (s\<lparr>se_recv_seq := r, se_recv_bits := b\<rparr>) header f now = Some (s', evs)" for r b
    using ch2_core_fields [OF handle_ch2_core [OF that]] by simp
  then show ?thesis
    using assms by (auto simp: dispatch_frame_def Let_def split: bind_splits if_splits)
qed

lemma dispatch_frames_queues:
  "dispatch_frames chk header now (s, st, need) fs = Some ((s', st', need'), evs)
    \<Longrightarrow> se_retrans_ch2 s' = se_retrans_ch2 s \<and> se_retrans_ch3 s' = se_retrans_ch3 s"
proof (induction fs arbitrary: s st need evs)
  case (Cons f fs)
  obtain s1 st1 n1 e1 e2 where
    1: "dispatch_frame chk header now (s, st, need) f = Some ((s1, st1, n1), e1)" and
    2: "dispatch_frames chk header now (s1, st1, n1) fs = Some ((s', st', need'), e2)"
    using Cons.prems by (auto split: bind_splits)
  then show ?case using Cons.IH [OF 2] dispatch_frame_queues [OF 1] by simp
qed simp

text \<open>The session a packet from its own peer leaves behind, in an active session.\<close>

lemma handle_datagram_own:
  assumes "table_ok t" "table_get t (dh_conn_id h) = Some s" "se_state s = Active" "dh_conn_id h \<noteq> 0"
    and "verify_hmac hmac4 t raw = HmacOk buf" "decode buf = Inr (h, fs)" "dh_flags h AND FLAG_HANDSHAKE = 0"
  shows "\<exists>s1 st1 fast s2 st2 need evs t'.
      process_acks False (s\<lparr>se_last_rx := now\<rparr>) (pkt_in_update incr (st_stats t)) h now = Some (s1, st1, fast)
    \<and> dispatch_frames False h now (s1, st1, False) fs = Some ((s2, st2, need), evs)
    \<and> handle_datagram False hmac4 t (se_peer s) raw rnd clk now =
        Some (t', map (\<lambda>b. (b, se_peer s)) (fast @ (if need then pure_ack s2 else [])), evs)
    \<and> t' = table_put (t\<lparr>st_stats := st2\<rparr>) (dh_conn_id h) s2"
proof -
  have inv: "session_inv s" using table_ok_getD [OF assms(1,2)] by simp
  let ?s = "s\<lparr>se_last_rx := now\<rparr>" and ?st = "pkt_in_update incr (st_stats t)"
  obtain s1 st1 fast where 1: "process_acks False ?s ?st h now = Some (s1, st1, fast)"
    using process_acks_total [of False] by (metis prod_cases3)
  have "session_inv s1" using process_acks_SomeD(2) [OF 1] inv by (simp add: session_inv_def)
  then obtain s2 st2 need evs where 2: "dispatch_frames False h now (s1, st1, False) fs = Some ((s2, st2, need), evs)"
    using dispatch_frames_total [of False s1] by (metis prod_cases3 prod.collapse)
  show ?thesis
    using assms(2-7) 1 2
    by (intro exI [of _ s1] exI [of _ st1] exI [of _ fast] exI [of _ s2] exI [of _ st2] exI [of _ need] exI [of _ evs]
      exI [of _ "table_put (t\<lparr>st_stats := st2\<rparr>) (dh_conn_id h) s2"])
      (simp add: handle_datagram_def handle_session_packet_def Let_def)
qed

lemma ping_forgets:
  assumes "table_ok t" "cfg_enable_hmac (st_cfg t)" "table_get t conn_id = Some s" "conn_id \<noteq> 0"
    and "se_state s = Active" "length payload \<le> 1180" "\<And>k d. length (hmac4 k d) = 4"
    and "\<forall>p \<in> set (rq_entries (se_retrans_ch2 s)). pp_seq p = 0 \<or> 32768 \<le> unat (pp_seq p)"
    and "ping_packet hmac4 conn_id (le64 (se_secret s)) seq payload = Some pkt"
  shows "\<exists>t' ps evs s'. handle_datagram False hmac4 t (se_peer s) pkt rnd clk now = Some (t', ps, evs)
    \<and> table_get t' conn_id = Some s' \<and> rq_entries (se_retrans_ch2 s') = []"
proof -
  let ?h = "ping_header conn_id seq" and ?fs = "[new_frame_ref CH_RELIABLE_ORDERED 1 payload]"
  let ?b = "client_packet ?h ?fs"
  note snd = sendable_ping [OF assms(6), of conn_id seq]
  have pkt: "pkt = ?b @ hmac4 (le64 (se_secret s)) ?b" using assms(9) by (simp add: ping_packet_eq [OF assms(6)] Let_def)
  have id: "dh_conn_id ?h = conn_id" by (simp add: ping_header_def)
  have g: "table_get t (dh_conn_id ?h) = Some s" "dh_conn_id ?h \<noteq> 0" using assms(3,4) id by simp_all
  have v: "verify_hmac hmac4 t pkt = HmacOk ?b" unfolding pkt by (rule verify_signed [OF snd ping_flags g(1) assms(2,7)])
  have f: "dh_flags ?h AND FLAG_HANDSHAKE = 0" by (simp add: ping_header_def flag_defs)
  obtain s1 st1 fast s2 st2 need evs t' where d:
      "process_acks False (s\<lparr>se_last_rx := now\<rparr>) (pkt_in_update incr (st_stats t)) ?h now = Some (s1, st1, fast)"
      "dispatch_frames False ?h now (s1, st1, False) ?fs = Some ((s2, st2, need), evs)"
      "handle_datagram False hmac4 t (se_peer s) pkt rnd clk now =
        Some (t', map (\<lambda>b. (b, se_peer s)) (fast @ (if need then pure_ack s2 else [])), evs)"
      "t' = table_put (t\<lparr>st_stats := st2\<rparr>) (dh_conn_id ?h) s2"
    using handle_datagram_own [OF assms(1) g(1) assms(5) g(2) v decode_client_packet [OF snd] f] by blast
  obtain r where r: "on_ack False (se_retrans_ch2 s) 0 0 now = Some r" "se_retrans_ch2 s1 = ar_queue r"
    using process_acks_ch2 [OF d(1)] by (auto simp: ping_header_def)
  have "rq_entries (se_retrans_ch2 s2) = []"
    using on_ack_all [OF _ r(1)] assms(8) r(2) dispatch_frames_queues [OF d(2)] by (simp add: is_acked_zero)
  moreover have "table_get t' conn_id = Some s2"
    using assms(1) by (simp add: d(4) id table_get_put table_ok_def)
  ultimately show ?thesis using d(3) by simp
qed

text \<open>The pings of the three tools, by a client of the load tool, or with its connection id and secret.\<close>

definition tool_pings :: "(bytes \<Rightarrow> bytes \<Rightarrow> bytes) \<Rightarrow> load_client \<Rightarrow> bytes set" where
  "tool_pings hmac4 c =
     {pkt. \<exists>c' now. load_ping hmac4 c now = Some (c', pkt)}
     \<union> set (bench_pings hmac4 (lc_conn_id c) (lc_secret c))
     \<union> {pkt. \<exists>n pkts. interop_pings hmac4 (lc_conn_id c) (lc_secret c) n = Some pkts \<and> pkt \<in> set pkts}"

lemma those_SomeD: "those xs = Some ys \<Longrightarrow> y \<in> set ys \<Longrightarrow> Some y \<in> set xs"
  by (induction xs arbitrary: ys) (auto split: option.splits)

lemma tool_ping_packet:
  assumes "pkt \<in> tool_pings hmac4 c" "lc_id c < 2 ^ 64"
  shows "\<exists>seq payload. length payload \<le> 1180 \<and> ping_packet hmac4 (lc_conn_id c) (lc_secret c) seq payload = Some pkt"
proof -
  consider c' now where "load_ping hmac4 c now = Some (c', pkt)"
    | "pkt \<in> set (bench_pings hmac4 (lc_conn_id c) (lc_secret c))"
    | n pkts where "interop_pings hmac4 (lc_conn_id c) (lc_secret c) n = Some pkts" "pkt \<in> set pkts"
    using assms(1) by (auto simp: tool_pings_def)
  then show ?thesis
  proof cases
    case 1
    then show ?thesis
      using length_ping_body [OF assms(2), of "lc_seq c"]
      by (intro exI [of _ "lc_seq c"] exI [of _ "ping_body (lc_id c) (lc_seq c)"])
        (auto simp: load_ping_def split: bind_splits)
  next
    case 2
    then obtain i where i: "i < 3" "pkt = (let payload = ascii ''recycle-'' @ dec_text i;
        buf = (case encode (ping_header (lc_conn_id c) (of_nat i)) [new_frame_ref CH_RELIABLE_ORDERED 1 payload] [] of Inr (out, _) \<Rightarrow> out | Inl _ \<Rightarrow> [])
        in buf @ hmac4 (lc_secret c) buf)"
      by (auto simp: bench_pings_def)
    have "length (dec_text i) \<le> 1" using i(1) by (intro length_dec_text) simp_all
    then have l: "length (ascii ''recycle-'' @ dec_text i) \<le> 1180" by (simp add: ascii_def)
    then show ?thesis
      using encode_sendable [OF sendable_ping [OF l]] i(2)
      by (intro exI [of _ "of_nat i"] exI [of _ "ascii ''recycle-'' @ dec_text i"]) (simp add: ping_packet_eq [OF l] Let_def)
  next
    case 3
    then obtain i where i: "i < unat n" "ping_packet hmac4 (lc_conn_id c) (lc_secret c) (of_nat i) (ascii ''ping-'' @ dec_text i) = Some pkt"
      using those_SomeD [of _ pkts pkt] by (fastforce simp: interop_pings_def)
    have "unat n < 65536" using unsigned_less [of n, where 'a = nat] by simp
    then have "length (dec_text i) \<le> 5" using i(1) by (intro length_dec_text) simp_all
    then show ?thesis using i(2) by (intro exI [of _ "of_nat i"] exI [of _ "ascii ''ping-'' @ dec_text i"]) (simp add: ascii_def)
  qed
qed

text \<open>
  Every ping of the load tools takes back packets they never got: its header says \<open>ack = 0\<close> whatever
  was received, and the engine reads that as the confirmation of packet 0 and of every packet from
  32768 on. A session whose unconfirmed reliable messages carry such numbers (the first message of a
  session, or all in flight in the second half of the sequence space) forgets them all at the next
  ping; what the network lost of them is never sent again.
\<close>

theorem ping_confirms_unreceived:
  assumes "pkt \<in> tool_pings hmac4 c" "lc_id c < 2 ^ 64" "lc_secret c = le64 (se_secret s)" "\<And>k d. length (hmac4 k d) = 4"
    and "table_ok t" "cfg_enable_hmac (st_cfg t)" "table_get t (lc_conn_id c) = Some s" "lc_conn_id c \<noteq> 0" "se_state s = Active"
    and "\<forall>p \<in> set (rq_entries (se_retrans_ch2 s)). pp_seq p = 0 \<or> 32768 \<le> unat (pp_seq p)"
  shows "\<exists>t' ps evs s'. handle_datagram False hmac4 t (se_peer s) pkt rnd clk now = Some (t', ps, evs)
    \<and> table_get t' (lc_conn_id c) = Some s' \<and> rq_entries (se_retrans_ch2 s') = []"
  using tool_ping_packet [OF assms(1,2)] ping_forgets [OF assms(5-9) _ assms(4,10)] assms(3) by auto

theorem ping_confirms_unreceived_witness:
  "\<exists>c' pkt t' ps evs s'.
    load_ping (\<lambda>_ _. [1, 2, 3, 4]) (load_client_new 7 (1, le64 99)) 5 = Some (c', pkt)
    \<and> handle_datagram False (\<lambda>_ _. [1, 2, 3, 4]) (table_put (table_new default_config) 1 ((new_session 1 1 (V4 1 2) 99 [] 0)
        \<lparr>se_retrans_ch2 := \<lparr>rq_entries = [\<lparr>pp_seq = 0, pp_sent_at = 0, pp_datagram = [42]\<rparr>], rq_skip_count = Map.empty\<rparr>\<rparr>))
        (V4 1 2) pkt 0 0 0 = Some (t', ps, evs)
    \<and> table_get t' 1 = Some s' \<and> rq_entries (se_retrans_ch2 s') = []"
proof -
  let ?s = "(new_session 1 1 (V4 1 2) 99 [] 0)
    \<lparr>se_retrans_ch2 := \<lparr>rq_entries = [\<lparr>pp_seq = 0, pp_sent_at = 0, pp_datagram = [42]\<rparr>], rq_skip_count = Map.empty\<rparr>\<rparr>"
  let ?t = "table_put (table_new default_config) 1 ?s" and ?c = "load_client_new 7 (1, le64 99)"
  have "session_inv ?s" using session_inv_new [of 1 1 "V4 1 2" 99 "[]" 0] by (simp add: session_inv_def RETRANSMIT_QUEUE_CAP_def)
  then have ok: "table_ok ?t" by (intro table_ok_put table_ok_new) (simp_all add: new_session_def)
  have g: "table_get ?t (lc_conn_id ?c) = Some ?s"
    using table_ok_new by (simp add: table_get_put table_ok_def load_client_new_def)
  have f: "cfg_enable_hmac (st_cfg ?t)" "lc_conn_id ?c \<noteq> 0" "se_state ?s = Active" "lc_secret ?c = le64 (se_secret ?s)"
    "lc_id ?c < 2 ^ 64" "length [1, 2, 3, 4 :: u8] = 4" "se_peer ?s = V4 1 2" "lc_conn_id ?c = 1"
    by (simp_all add: load_client_new_def new_session_def default_config_def table_new_def)
  have q: "\<forall>p \<in> set (rq_entries (se_retrans_ch2 ?s)). pp_seq p = 0 \<or> 32768 \<le> unat (pp_seq p)" by simp
  obtain c' pkt where p: "load_ping (\<lambda>_ _. [1, 2, 3, 4]) ?c 5 = Some (c', pkt)"
    using load_ping_eq [OF f(5), of "\<lambda>_ _. [1, 2, 3, 4]" 5] unfolding Let_def by blast
  then have "pkt \<in> tool_pings (\<lambda>_ _. [1, 2, 3, 4]) ?c" by (auto simp: tool_pings_def)
  from ping_confirms_unreceived [OF this f(5,4,6) ok f(1) g f(2,3) q, of 0 0 0] p show ?thesis
    unfolding f(7,8) by blast
qed

section \<open>The sequence number of a control packet\<close>

lemma is_acked_below: "j < k \<Longrightarrow> k \<le> j + 32768 \<Longrightarrow> is_acked (of_nat j) (of_nat k - 1) bits"
proof -
  assume le: "j < k" "k \<le> j + 32768"
  have "of_nat j = (of_nat k - 1 :: u16) \<or> 32768 \<le> seq_dist (of_nat k - 1) (of_nat j)"
  proof (cases "of_nat j = (of_nat k - 1 :: u16)")
    case False
    then show ?thesis
      using seq_dist_sym [of "of_nat j" "of_nat k - 1"] ack_dist(2) [OF refl le(1)] le(2) by simp
  qed simp
  then show ?thesis by (auto simp: is_acked_dist)
qed

lemma win_note_new:
  assumes "win_at R k w"
  shows "\<exists>w' k'. window_note w (of_nat k) = Some w' \<and> rw_ack_pos w' = of_nat k' - 1 \<and> k < k' \<and> k' \<le> k + 128"
proof -
  obtain k' w' where w': "window_note w (of_nat k) = Some w'" "win_at (insert k R) k' w'"
    using window_note_step [OF assms, of k] by auto
  obtain ms ms' where ms: "win_list R k ms" "win_list (insert k R) k' ms'" "rw_ack_pos w' = of_nat k' - 1"
    using assms w'(2) by (auto simp: win_at_def)
  have s: "{..<k} \<subseteq> R" "R \<subseteq> {..<k + 128}" "{..<k'} \<subseteq> insert k R" "k' \<notin> insert k R" using ms by (auto simp: win_list_def)
  have "{..k} \<subseteq> insert k R" using s(1) by (auto simp: le_less)
  then have "k < k'" using s(4) by (metis atMost_iff linorder_not_le subsetD)
  moreover have "k' - 1 \<in> insert k R" using \<open>k < k'\<close> by (intro subsetD [OF s(3)]) simp
  then have "k' - 1 < k + 128" using s(2) by auto
  ultimately show ?thesis using w'(1) ms(3) by (intro exI [of _ w'] exI [of _ k']) simp
qed

text \<open>
  Control packets pass for data: the engine's pure acknowledgements and heartbeats carry the next
  sequence number without using it up, and the load tool enters it into its window. Having received
  every packet below \<open>k\<close> and not packet \<open>k\<close>, which the engine has not even sent, it answers with an
  acknowledgement that confirms \<open>k\<close>; if the data packet \<open>k\<close> that follows is lost, the engine drops it.
\<close>

theorem control_packet_confirms_next:
  assumes "win_at R k (lc_window c)" "se_send_seq s = of_nat k" "b \<in> set (pure_ack s) \<or> (b, peer) \<in> set (heartbeat_packet s)"
  shows "k \<notin> R \<and> (\<exists>c' reply h. load_receive hmac4 c b clk = Some (c', [reply]) \<and> decode reply = Inr (h, [])
    \<and> dh_conn_id h = se_conn_id s \<and> is_acked (se_send_seq s) (dh_ack h) (dh_ack_bits h))"
proof -
  obtain flags where b: "flags AND FLAG_HMAC = 0" "b = client_packet \<lparr>dh_version = VERSION, dh_flags = flags, dh_conn_id = se_conn_id s,
      dh_seq = se_send_seq s, dh_ack = fst (compute_ack s), dh_ack_bits = snd (compute_ack s)\<rparr> []"
  proof -
    have e: "encode \<lparr>dh_version = VERSION, dh_flags = fl, dh_conn_id = a, dh_seq = q, dh_ack = x, dh_ack_bits = y\<rparr> [] [] =
        Inr (client_packet \<lparr>dh_version = VERSION, dh_flags = fl, dh_conn_id = a, dh_seq = q, dh_ack = x, dh_ack_bits = y\<rparr> [], 16)"
      for fl a q x y by (subst encode_sendable) (simp_all add: sendable_def HEADER_LEN_def MTU_def)
    show ?thesis
      using assms(3) that [of FLAG_PURE_ACK] that [of 0]
      by (auto simp: pure_ack_def heartbeat_packet_def e case_prod_beta flag_defs)
  qed
  let ?h = "\<lparr>dh_version = VERSION, dh_flags = flags, dh_conn_id = se_conn_id s, dh_seq = se_send_seq s,
    dh_ack = fst (compute_ack s), dh_ack_bits = snd (compute_ack s)\<rparr>"
  have snd: "sendable ?h []" by (simp add: sendable_def HEADER_LEN_def MTU_def)
  have strip: "strip_mac hmac4 (lc_secret c) (udp_recv b) = Some b"
    using strip_plain [OF snd] b udp_recv_packet [OF snd] by simp
  obtain w' k' where w': "window_note (lc_window c) (of_nat k) = Some w'" "rw_ack_pos w' = of_nat k' - 1" "k < k'" "k' \<le> k + 128"
    using win_note_new [OF assms(1)] by blast
  have d: "decode b = Inr (?h, [])" using decode_client_packet [OF snd] b(2) by simp
  let ?c = "c\<lparr>lc_pending := lc_pending c, lc_rtts := lc_rtts c, lc_window := w'\<rparr>"
    and ?r = "client_packet (ack_header (se_conn_id s) (window_ack w')) []"
  have 1: "load_receive hmac4 c b clk = Some (?c, [?r])"
    using w'(1) assms(2) by (simp add: load_receive_def strip d ack_packet_eq)
  have 2: "decode ?r = Inr (ack_header (se_conn_id s) (window_ack w'), [])" by (rule decode_client_packet [OF sendable_ack])
  have 3: "is_acked (of_nat k) (of_nat k' - 1) bits" for bits using w'(3,4) by (intro is_acked_below) simp_all
  have "k \<notin> R" using assms(1) by (auto simp: win_at_def win_list_def)
  moreover have "dh_conn_id (ack_header (se_conn_id s) (window_ack w')) = se_conn_id s"
    "is_acked (se_send_seq s) (dh_ack (ack_header (se_conn_id s) (window_ack w'))) (dh_ack_bits (ack_header (se_conn_id s) (window_ack w')))"
    using 3 by (simp_all add: ack_header_def window_ack_def w'(2) assms(2))
  ultimately show ?thesis using 1 2 by blast
qed

theorem control_packet_confirms_next_witness:
  "\<exists>c' reply h. load_receive (\<lambda>_ _. []) (load_client_new 7 (1, [])) (hd (pure_ack (new_session 1 1 (V4 1 2) 99 [] 0))) (\<lambda>_. 0)
      = Some (c', [reply]) \<and> decode reply = Inr (h, []) \<and> is_acked 0 (dh_ack h) (dh_ack_bits h)"
proof -
  let ?s = "new_session 1 1 (V4 1 2) 99 [] 0" and ?c = "load_client_new 7 (1, [])"
  have w: "win_at {} 0 (lc_window ?c)" using win_at_new by (simp add: load_client_new_def)
  have s: "se_send_seq ?s = of_nat 0" by (simp add: new_session_def)
  obtain b where "pure_ack ?s = [b]"
    by (simp add: pure_ack_def encode_sendable sendable_def HEADER_LEN_def MTU_def case_prod_beta)
  then have "hd (pure_ack ?s) \<in> set (pure_ack ?s) \<or> (hd (pure_ack ?s), V4 1 2) \<in> set (heartbeat_packet ?s)" by simp
  from control_packet_confirms_next [OF w s this, of "\<lambda>_ _. []" "\<lambda>_. 0"] show ?thesis by (auto simp: new_session_def)
qed

section \<open>Acknowledging a single packet\<close>

lemma is_acked_behind: "i \<le> 32768 \<Longrightarrow> is_acked (seq - of_nat i) seq bits"
proof -
  assume i: "i \<le> 32768"
  have "seq_dist (seq - of_nat i) seq = i" using i seq_dist_add [of "seq - of_nat i" i] by simp
  then show ?thesis
    using i seq_dist_sym [of "seq - of_nat i" seq] by (cases "i = 0") (auto simp: is_acked_dist)
qed

text \<open>
  The benchmark and the interoperability test acknowledge the sequence number of the packet
  they just got, with no bits: the engine takes that for the end of a gapless prefix, so that every
  packet that overtakes others confirms those others too, up to half the sequence space back.
\<close>

theorem single_ack_confirms_all_earlier:
  assumes "sendable h fs" "dh_flags h AND FLAG_HMAC = 0" "i \<le> 32768"
    and "count_echoes chk fs st = Some st'" "target \<le> fst st'"
  shows "\<exists>reply h'. bench_receive (client_packet h fs) = [reply]
    \<and> interop_receive chk hmac4 secret target st [client_packet h fs] = ([reply], Returns (fst st'))
    \<and> decode reply = Inr (h', []) \<and> is_acked (dh_seq h - of_nat i) (dh_ack h') (dh_ack_bits h')"
proof -
  let ?b = "client_packet h fs" and ?a = "ack_header (dh_conn_id h) (dh_seq h, 0)"
  note d = decode_client_packet [OF assms(1)]
  have "bench_receive ?b = [client_packet ?a []]"
    by (simp add: bench_receive_def udp_recv_packet [OF assms(1)] d ack_packet_eq)
  moreover have "interop_receive chk hmac4 secret target st [?b] = ([client_packet ?a []], Returns (fst st'))"
    using assms(4,5) by (simp add: udp_recv_packet [OF assms(1)] strip_plain [OF assms(1,2)] d ack_packet_eq)
  moreover have "is_acked (dh_seq h - of_nat i) (dh_ack ?a) (dh_ack_bits ?a)"
    using is_acked_behind [OF assms(3)] by (simp add: ack_header_def)
  ultimately show ?thesis using decode_client_packet [OF sendable_ack] by blast
qed

section \<open>The benchmark and authenticated packets\<close>

lemma decode_frames_prefix:
  assumes "drop pos buf = concat (map encode_frame fs) @ rest" "\<forall>f \<in> set fs. valid_frame f" "length buf < 2 ^ 63"
  shows "decode_frames buf pos acc = decode_frames buf (pos + frames_size fs) (acc @ fs)"
  using assms
proof (induction fs arbitrary: pos acc)
  case (Cons f fs)
  have d: "drop pos buf = encode_frame f @ (concat (map encode_frame fs) @ rest)" using Cons.prems(1) by simp
  have "drop (pos + 4 + length (fr_body f)) buf = drop (4 + length (fr_body f)) (drop pos buf)" by (simp add: add_ac)
  also have "\<dots> = concat (map encode_frame fs) @ rest" by (simp add: d length_encode_frame [symmetric] del: length_encode_frame)
  finally show ?case
    using Cons.IH [of "pos + 4 + length (fr_body f)" "acc @ [f]"] Cons.prems(2,3) decode_frames_encoded [OF d] by (simp add: add_ac)
qed simp

lemma of_le_zero: "(of_le [a, b] :: u16) = 0 \<longleftrightarrow> a = 0 \<and> b = 0"
proof -
  have "(of_le [a, b] :: u16) = 0 \<longleftrightarrow> le16 (of_le [a, b]) = le16 0" by (simp only: le16.enc_inject)
  also have "\<dots> \<longleftrightarrow> [a, b] = [0, 0]" using le16.enc_dec [of "[a, b]"] by (simp add: eval_simps)
  finally show ?thesis by simp
qed

lemma decode_with_trailer:
  assumes "sendable h fs" "length m = 4"
  shows "(\<exists>r. decode (client_packet h fs @ m) = Inr r) \<longleftrightarrow>
    HEADER_LEN + frames_size fs \<le> 1196 \<and> (of_le [m ! 0, m ! 1] :: u16) AND 0x000F \<le> 3 \<and> m ! 2 = 0 \<and> m ! 3 = 0"
proof -
  define buf where "buf = client_packet h fs @ m"
  have ver: "dh_version h = VERSION" and fs: "\<forall>f \<in> set fs. valid_frame f" using assms(1) by (simp_all add: sendable_def)
  have len: "length buf = HEADER_LEN + frames_size fs + 4" using assms(2) by (simp add: buf_def length_client_packet)
  have n: "buf ! (HEADER_LEN + frames_size fs + i) = m ! i" for i
    by (simp add: buf_def nth_append length_client_packet)
  have n0: "buf ! (HEADER_LEN + frames_size fs) = m ! 0" "buf ! Suc (HEADER_LEN + frames_size fs) = m ! 1"
    "buf ! Suc (Suc (HEADER_LEN + frames_size fs)) = m ! 2" using n [of 0] n [of 1] n [of 2] by simp_all
  have hd: "[buf ! 0, buf ! 1] = le16 MAGIC" "buf ! 2 = VERSION"
    by (simp_all add: buf_def client_packet_def encode_header_def nth_append ver eval_simps)
  then have magic: "of_le [buf ! 0, buf ! 1] = MAGIC" by (simp only: le16.dec_enc)
  have d: "drop HEADER_LEN buf = concat (map encode_frame fs) @ m" by (simp add: buf_def client_packet_def)
  let ?e = "of_le [m ! 2, m ! 3] :: u16"
  have step: "decode_frames buf (HEADER_LEN + frames_size fs) fs =
      (if 3 < (ucast ((of_le [m ! 0, m ! 1] :: u16) AND 0x000F) :: u8) then proto_err (BadChannel (ucast ((of_le [m ! 0, m ! 1] :: u16) AND 0x000F)))
       else if ?e = 0 then Inr (fs @ [new_frame_ref (ucast ((of_le [m ! 0, m ! 1] :: u16) AND 0x000F)) (drop_bit 4 (of_le [m ! 0, m ! 1])) []])
       else proto_err (BodyOutOfBounds (unat ?e) 0))" if small: "HEADER_LEN + frames_size fs \<le> 1196"
  proof -
    have "unat ?e < 65536" using unsigned_less [of ?e, where 'a = nat] by simp
    then have c: "usize_checked_add (HEADER_LEN + frames_size fs + 4) (unat ?e) = Some (HEADER_LEN + frames_size fs + 4 + unat ?e)"
      using small by (intro usize_checked_add_small) simp
    have z: "decode_frames buf (HEADER_LEN + frames_size fs + 4) acc = Inr acc" for acc
      by (subst decode_frames.simps) (simp add: len)
    have b: "subslice buf p p = []" for p by (simp add: subslice_def)
    have p: "unat ?e = 0 \<longleftrightarrow> ?e = 0" by (simp only: unat_eq_0)
    show ?thesis
      by (subst decode_frames.simps) (simp add: len n n0 Let_def c z b p [symmetric] del: unat_eq_0)
  qed
  show ?thesis
  proof (cases "HEADER_LEN + frames_size fs \<le> 1196")
    case False
    then show ?thesis using len unfolding buf_def [symmetric] by (simp add: decode_def MTU_def HEADER_LEN_def)
  next
    case True
    have l: "\<not> length buf < HEADER_LEN" "\<not> MTU < length buf" "length buf < 2 ^ 63" using True len by (simp_all add: MTU_def)
    have fr: "decode_frames buf HEADER_LEN [] = decode_frames buf (HEADER_LEN + frames_size fs) fs"
      using decode_frames_prefix [OF d fs l(3)] by simp
    have "(\<exists>r. decode buf = Inr r) \<longleftrightarrow> (\<exists>r. decode_frames buf (HEADER_LEN + frames_size fs) fs = Inr r)"
      unfolding decode_def Let_def magic hd(2) fr
      using l(1,2) by (cases "decode_frames buf (HEADER_LEN + frames_size fs) fs") simp_all
    also have "\<dots> \<longleftrightarrow> \<not> 3 < (ucast ((of_le [m ! 0, m ! 1] :: u16) AND 0x000F) :: u8) \<and> ?e = 0"
      unfolding step [OF True] by simp
    also have "\<dots> \<longleftrightarrow> (of_le [m ! 0, m ! 1] :: u16) AND 0x000F \<le> 3 \<and> m ! 2 = 0 \<and> m ! 3 = 0"
    proof -
      have "(of_le [m ! 0, m ! 1] :: u16) AND 0x000F \<le> 0x000F" by (rule word_and_le1)
      then have "unat (ucast ((of_le [m ! 0, m ! 1] :: u16) AND 0x000F) :: u8) = unat ((of_le [m ! 0, m ! 1] :: u16) AND 0x000F)"
        by (simp add: unsigned_ucast_eq take_bit_nat_def word_le_nat_alt)
      then show ?thesis by (simp add: of_le_zero word_le_nat_alt word_less_nat_alt not_less)
    qed
    finally show ?thesis using True unfolding buf_def by simp
  qed
qed

text \<open>
  The benchmark cannot read the engine's data packets: its receive task decodes a packet with its
  HMAC still attached, and takes the four bytes for the head of one more frame. So it drops, and never
  acknowledges, every authenticated packet, unless two bytes of the HMAC are zero and four bits of the
  others small (one packet in \<open>2^18\<close>); then it sees a frame that nobody sent.
\<close>

theorem bench_cannot_read_hmac:
  assumes "sendable h fs" "length m = 4" "HEADER_LEN + frames_size fs + 4 \<le> MTU"
  shows "bench_receive (client_packet h fs @ m) \<noteq> []
    \<longleftrightarrow> (of_le [m ! 0, m ! 1] :: u16) AND 0x000F \<le> 3 \<and> m ! 2 = 0 \<and> m ! 3 = 0"
proof -
  have "udp_recv (client_packet h fs @ m) = client_packet h fs @ m"
    using assms(2,3) by (simp add: udp_recv_def length_client_packet)
  then have "bench_receive (client_packet h fs @ m) \<noteq> [] \<longleftrightarrow> (\<exists>r. decode (client_packet h fs @ m) = Inr r)"
    by (auto simp: bench_receive_def ack_packet_eq split: sum.splits)
  then show ?thesis using decode_with_trailer [OF assms(1,2)] assms(3) by (simp add: MTU_def)
qed

theorem bench_cannot_read_hmac_witness:
  "bench_receive (client_packet (ping_header 1 0) [new_frame_ref CH_RELIABLE_ORDERED 1 [7]] @ [1, 2, 3, 4]) = []"
  using bench_cannot_read_hmac [of "ping_header 1 0" "[new_frame_ref CH_RELIABLE_ORDERED 1 [7]]" "[1, 2, 3, 4]"]
    sendable_ping [of "[7]" 1 0]
  by (simp add: HEADER_LEN_def MTU_def new_frame_ref_def)

end
