(* ===== verification/Client_Engine.thy ===== *)
theory Client_Engine
  imports Client_Acks End_To_End
begin

text \<open>
  The load tool, the engine and the echo server together: a ping travels from the client through the
  engine to the echo server and back, and the client counts it as answered.
\<close>

section \<open>A ping reaches the table\<close>

lemma rx_at_frame:
  assumes "rx_at M k H s" "se_ch2_next s' = se_ch2_next s" "se_delivered_max s' = se_delivered_max s"
    and "se_delivered_seqs s' = se_delivered_seqs s" "se_reorder s' = se_reorder s"
  shows "rx_at M k H s'"
  using assms by (simp add: rx_at_def)

lemma rx_at_empty: "rx_at M k {} s \<longleftrightarrow> rx_at M' k {} s"
  by (simp add: rx_at_def)

lemma handle_ch2_next:
  assumes "rx_at M k {} s" "dh_flags header AND FLAG_FRAGMENT = 0" "dh_seq header = of_nat k"
  shows "\<exists>s'. handle_ch2 s header f now = Some (s', data_event s (fr_msg_id f, fr_body f)) \<and> rx_at M (Suc k) {} s'"
proof -
  let ?M = "\<lambda>_. (fr_msg_id f, fr_body f)"
  have w: "rx_at ?M k {} s" "k < k + WINDOW" "k \<notin> {}" using assms(1) rx_at_empty by (blast, simp_all add: WINDOW_def)
  have f: "(fr_msg_id f, fr_body f) = ?M k" by simp
  note rx = handle_ch2_rx [of ?M k "{}" s k header f now, OF w(1) w(3) le_add1 w(2) assms(2,3) f]
  obtain k' H' s' where h: "handle_ch2 s header f now = Some (s', concat (map (\<lambda>i. data_event s (?M i)) [k..<k']))"
      "k \<le> k'" "rx_at ?M k' H' s'" "k' \<notin> H'" "{..<k'} \<union> H' = insert k ({..<k} \<union> {})"
    using rx by (elim exE conjE) (rule that)
  have e: "{..<k'} \<union> H' = {..k}" using h(5) by (simp only: Un_empty_right lessThan_Suc [symmetric] lessThan_Suc_atMost)
  have "k' = Suc k"
  proof (rule antisym)
    have "k' \<notin> {..k}" using h(4) unfolding e [symmetric] by simp
    then show "Suc k \<le> k'" by simp
    have "k' - 1 \<in> {..k} \<or> k' = 0" unfolding e [symmetric] by (cases k') simp_all
    then show "k' \<le> Suc k" by auto
  qed
  moreover have "H' = {}"
  proof -
    have "H' \<subseteq> {k'..}" using h(3) by (auto simp: rx_at_def)
    moreover have "H' \<subseteq> {..k}" using Un_upper2 [of H' "{..<k'}"] by (simp only: e)
    ultimately show ?thesis using \<open>k' = Suc k\<close> by fastforce
  qed
  ultimately have "rx_at M (Suc k) {} s'" using h(3) rx_at_empty by blast
  moreover have "[k..<Suc k] = [k]" by simp
  ultimately show ?thesis using h(1) \<open>k' = Suc k\<close> by auto
qed

lemma process_acks_frame:
  assumes "process_acks chk s st header now = Some (s', st', fast)"
  shows "se_ch2_next s' = se_ch2_next s" "se_delivered_max s' = se_delivered_max s" "se_delivered_seqs s' = se_delivered_seqs s"
    "se_reorder s' = se_reorder s" "se_send_seq s' = se_send_seq s" "se_budget_kbps s' = se_budget_kbps s"
    "length (rq_entries (se_retrans_ch2 s')) \<le> length (rq_entries (se_retrans_ch2 s))"
proof -
  obtain r where "on_ack chk (se_retrans_ch2 s) (dh_ack header) (dh_ack_bits header) now = Some r" "se_retrans_ch2 s' = ar_queue r"
    using process_acks_ch2 [OF assms] by blast
  then show "length (rq_entries (se_retrans_ch2 s')) \<le> length (rq_entries (se_retrans_ch2 s))"
    using on_ack_SomeD(1) by (simp add: length_dropWhile_le)
qed (use assms in \<open>auto simp: process_acks_def Let_def split: bind_splits dest!: apply_sample_SomeD\<close>)

lemma ch2_core_budget: "ch2_core s' = ch2_core s \<Longrightarrow> se_budget_kbps s' = se_budget_kbps s"
proof -
  have e: "se_budget_kbps (ch2_core s) = se_budget_kbps s" for s by (simp add: ch2_core_def)
  assume "ch2_core s' = ch2_core s"
  then show ?thesis using e [of s] e [of s'] by simp
qed

text \<open>The next ping of a client, in order, becomes one event and leaves the session ready for the one after.\<close>

lemma next_ping_received:
  assumes "table_inv t" "cfg_enable_hmac (st_cfg t)" "table_get t c = Some s" "c \<noteq> 0" "se_state s = Active"
    and "\<And>k d. length (hmac4 k d) = 4" "rx_at M k {} s" "length payload \<le> 1180"
    and "ping_packet hmac4 c (le64 (se_secret s)) (of_nat k) payload = Some pkt"
  shows "\<exists>t' ps s'. handle_datagram False hmac4 t (se_peer s) pkt rnd clk now =
      Some (t', ps, [EvData (se_sess_id s) CH_RELIABLE_ORDERED 1 payload])
    \<and> table_inv t' \<and> table_get t' c = Some s' \<and> rx_at M (Suc k) {} s' \<and> st_cfg t' = st_cfg t \<and> keeps_ids s s'
    \<and> se_budget_kbps s' = se_budget_kbps s \<and> se_send_seq s' = se_send_seq s
    \<and> length (rq_entries (se_retrans_ch2 s')) \<le> length (rq_entries (se_retrans_ch2 s))"
proof -
  let ?h = "ping_header c (of_nat k)" and ?f = "new_frame_ref CH_RELIABLE_ORDERED 1 payload"
  let ?b = "client_packet ?h [?f]"
  note snd = sendable_ping [OF assms(8), of c "of_nat k"]
  have ok: "table_ok t" "ids_fresh t" using assms(1) by (simp_all add: table_inv_def)
  have pkt: "pkt = ?b @ hmac4 (le64 (se_secret s)) ?b" using assms(9) by (simp add: ping_packet_eq [OF assms(8)] Let_def)
  have h: "dh_conn_id ?h = c" "dh_seq ?h = of_nat k" "dh_flags ?h AND FLAG_FRAGMENT = 0" "dh_flags ?h AND FLAG_HANDSHAKE = 0"
    by (simp_all add: ping_header_def flag_defs)
  have g: "table_get t (dh_conn_id ?h) = Some s" "dh_conn_id ?h \<noteq> 0" using assms(3,4) h(1) by simp_all
  have v: "verify_hmac hmac4 t pkt = HmacOk ?b" unfolding pkt by (rule verify_signed [OF snd ping_flags g(1) assms(2,6)])
  obtain s1 st1 fast s2 st2 need evs t' where d:
      "process_acks False (s\<lparr>se_last_rx := now\<rparr>) (pkt_in_update incr (st_stats t)) ?h now = Some (s1, st1, fast)"
      "dispatch_frames False ?h now (s1, st1, False) [?f] = Some ((s2, st2, need), evs)"
      "handle_datagram False hmac4 t (se_peer s) pkt rnd clk now =
        Some (t', map (\<lambda>b. (b, se_peer s)) (fast @ (if need then pure_ack s2 else [])), evs)"
      "t' = table_put (t\<lparr>st_stats := st2\<rparr>) (dh_conn_id ?h) s2"
    using handle_datagram_own [OF ok(1) g(1) assms(5) g(2) v decode_client_packet [OF snd] h(4)] by blast
  note p = process_acks_frame [OF d(1), simplified]
  have id: "keeps_ids s s1" using process_acks_SomeD(1) [OF d(1)] by (simp add: keeps_ids_def)
  obtain r b where rb: "record_seq False (se_recv_seq s1) (se_recv_bits s1) (dh_seq ?h) = Some (r, b)"
    using record_seq_total [of False] by blast
  let ?s1 = "s1\<lparr>se_recv_seq := r, se_recv_bits := b\<rparr>"
  have "rx_at M k {} ?s1" by (rule rx_at_frame [OF assms(7)]) (simp_all add: p)
  then obtain s' where s': "handle_ch2 ?s1 ?h ?f now = Some (s', data_event ?s1 (fr_msg_id ?f, fr_body ?f))" "rx_at M (Suc k) {} s'"
    using handle_ch2_next [of M k ?s1 ?h ?f now] h(2,3) by blast
  have ev: "data_event ?s1 (fr_msg_id ?f, fr_body ?f) = [EvData (se_sess_id s) CH_RELIABLE_ORDERED 1 payload]"
    using id by (simp add: data_event_def new_frame_ref_def keeps_ids_def)
  note core = handle_ch2_core [OF s'(1)]
  have "fr_ch ?f = CH_RELIABLE_ORDERED" by (simp add: new_frame_ref_def)
  then have "s2 = s' \<and> evs = [EvData (se_sess_id s) CH_RELIABLE_ORDERED 1 payload]"
    using d(2) s'(1) ev rb by (auto simp: dispatch_frame_def Let_def ch_defs)
  moreover have "table_get t' c = Some s2" using ok(1) by (simp add: d(4) h(1) table_get_put table_ok_def)
  moreover have "keeps_ids s s'" using id ch2_core_fields [OF core] by (simp add: keeps_ids_def)
  moreover have "se_budget_kbps s' = se_budget_kbps s" using ch2_core_budget [OF core] p by simp
  moreover have "se_retrans_ch2 s' = se_retrans_ch2 s1" "se_send_seq s' = se_send_seq s1" using ch2_core_fields [OF core] by simp_all
  moreover have "table_inv t'"
  proof -
    have "se_sess_id s2 = se_sess_id s" using calculation(1,3) by (simp add: keeps_ids_def)
    then have "ids_fresh t'" using ok assms(3) h(1) by (auto simp: d(4) intro!: ids_fresh_put)
    then show ?thesis using handle_datagram_ok [OF d(3) ok(1)] assms(1) d(4) by (simp add: table_inv_def)
  qed
  ultimately show ?thesis using d(3,4) s'(2) p by simp
qed

section \<open>The event reaches the echo server, and its echo the engine\<close>

lemma push_ups_one:
  assumes "queued sh = []" "0 < room sh"
  shows "\<exists>q. push_ups sh [ev] clk = sh\<lparr>sh_up_tx := Some q\<rparr> \<and> uc_frames q = [event_frame ev]"
proof (cases "sh_up_tx sh")
  case None
  then show ?thesis using assms(2) by (simp add: room_def)
next
  case (Some q)
  then have q: "uc_frames q = []" "\<not> uc_closed q" using assms by (simp_all add: queued_def room_def split: if_splits)
  show ?thesis
    by (rule exI [of _ "q\<lparr>uc_frames := [event_frame ev]\<rparr>"]) (simp add: push_up_def push_frame_def Some q UP_QUEUE_CAP_def)
qed

lemma write_loop_one:
  assumes "uc_frames q = [f]" "frame_ok f"
  shows "\<exists>q'. logic_write_loop (sh\<lparr>sh_up_tx := Some q\<rparr>) = (sh\<lparr>sh_up_tx := Some q'\<rparr>, frame_bytes f, Inr ())"
proof -
  have w: "write_frame f = Inr (frame_bytes f)" using assms(2) by (simp add: write_frame_Inr_iff)
  have "logic_write_loop (sh\<lparr>sh_up_tx := Some (q\<lparr>uc_frames := []\<rparr>)\<rparr>) = (sh\<lparr>sh_up_tx := Some (q\<lparr>uc_frames := []\<rparr>)\<rparr>, [], Inr ())"
    by (subst logic_write_loop.simps) (simp add: write_step_def)
  then show ?thesis
    by (intro exI [of _ "q\<lparr>uc_frames := []\<rparr>"]) (subst logic_write_loop.simps, simp add: write_step_def assms(1) w)
qed

lemma read_loop_one:
  assumes "frame_ok f" "[] \<notin> set reads" "concat reads = frame_bytes f"
  shows "read_loop [] reads = ([f], None)"
proof -
  have "frame_bytes f \<noteq> []" by (simp add: frame_bytes_def)
  then show ?thesis using assms read_loop_stream [of "[f]" reads f "[]" "frame_bytes f" "[]"] by simp
qed

lemma echo_logic_data:
  assumes "length payload \<le> 1100" "[] \<notin> set reads" "concat reads = frame_bytes (event_frame (EvData i CH_RELIABLE_ORDERED m payload))"
  shows "echo_logic reads = Some (frame_bytes (send i CH_RELIABLE_ORDERED m payload))"
proof -
  have f: "frame_ok (event_frame (EvData i CH_RELIABLE_ORDERED m payload))" using assms(1) by (intro frame_event [THEN conjunct2]) (simp add: event_fits_def)
  have s: "frame_ok (send i CH_RELIABLE_ORDERED m payload)"
    using assms(1) by (simp add: frame_ok_def send_def into_send_def data_up_def new_frame_def MAX_FRAME_BODY_def)
  have e: "echo_frame (event_frame (EvData i CH_RELIABLE_ORDERED m payload)) = Some (frame_bytes (send i CH_RELIABLE_ORDERED m payload))"
    using s parse_data_build [of i CH_RELIABLE_ORDERED m payload]
    by (simp add: echo_frame_def event_frame_def data_up_def new_frame_def FRAME_DATA_UP_def FRAME_ENGINE_HELLO_def write_frame_Inr_iff [THEN iffD2])
  show ?thesis by (simp add: echo_logic_def read_loop_one [OF f assms(2,3)] e)
qed

section \<open>The echo reaches the client\<close>

lemma echo_sent:
  assumes "table_inv (sh_sessions sh)" "table_get (sh_sessions sh) c = Some s" "se_state s = Active" "length payload \<le> 1100" "m \<le> 0x0FFF"
    and "length (rq_entries (se_retrans_ch2 s)) < 64" "se_budget_kbps s = None"
    and "sh_udp sh" "\<not> tcp_is_virtual_peer (se_peer s)" "\<not> ws_is_virtual_peer (se_peer s)" "udp_ok = (\<lambda>_ _. True)"
    and "[] \<notin> set reads" "concat reads = frame_bytes (send (se_sess_id s) CH_RELIABLE_ORDERED m payload)"
  shows "\<exists>frames sh'. read_loop [] reads = (frames, None)
    \<and> logic_read_loop chk hmac4 udp_ok sh clk frames = Some (sh',
        [(ViaUdp, out_packet hmac4 (st_cfg (sh_sessions sh)) s (compute_ack s) 0 CH_RELIABLE_ORDERED m payload, se_peer s)], Inr ())"
proof -
  let ?f = "send (se_sess_id s) CH_RELIABLE_ORDERED m payload"
    and ?pkt = "out_packet hmac4 (st_cfg (sh_sessions sh)) s (compute_ack s) 0 CH_RELIABLE_ORDERED m payload"
  have "frame_ok ?f" using assms(4) by (simp add: frame_ok_def send_def into_send_def data_up_def new_frame_def MAX_FRAME_BODY_def)
  from read_loop_one [OF this assms(12,13)] have r: "read_loop [] reads = ([?f], None)" .
  have f: "find_session (sh_sessions sh) (se_sess_id s) = Some (shard (sh_sessions sh) c, c, s)"
    using find_session_unique [OF _ _ assms(2)] assms(1) by (simp add: table_inv_def)
  have q: "length (rq_entries q) < 64" if "queue_for CH_RELIABLE_ORDERED s = Some q" for q
    using that assms(6) by (simp add: queue_for_def)
  have l: "CH_RELIABLE_ORDERED \<le> 3" "length payload \<le> 1180" using assms(4) by (simp_all add: ch_defs)
  obtain t where o: "send_outbound chk hmac4 udp_ok sh (clk 0 0) (clk 0 1) (se_sess_id s) CH_RELIABLE_ORDERED m payload =
      Some (route_packets udp_ok (sh\<lparr>sh_sessions := t\<rparr>) [(?pkt, se_peer s)])"
    using send_outbound_one [OF assms(1) f assms(3) l(1) assms(5) l(2) assms(4) q assms(7)] by blast
  have rt: "route_packets udp_ok (sh\<lparr>sh_sessions := t\<rparr>) [(?pkt, se_peer s)] = (sh\<lparr>sh_sessions := t\<rparr>, [(ViaUdp, ?pkt, se_peer s)])"
    using assms(8-11) by (simp add: route_packet_def)
  have pd: "parse_data (uf_body ?f) = Inr (se_sess_id s, CH_RELIABLE_ORDERED, m, payload)"
    using parse_data_build by (simp add: send_def into_send_def new_frame_def)
  have ty: "uf_ty ?f = FRAME_SEND" "FRAME_SEND \<noteq> FRAME_LOGIC_HELLO"
    by (simp_all add: send_def into_send_def new_frame_def FRAME_SEND_def FRAME_LOGIC_HELLO_def)
  show ?thesis
    using r o by (intro exI [of _ "[?f]"] exI [of _ "sh\<lparr>sh_sessions := t\<rparr>"]) (simp add: handle_logic_frame_def ty pd rt del: route_packets.simps)
qed

lemma echo_received:
  assumes "cfg_enable_hmac cfg" "\<And>k d. length (hmac4 k d) = 4" "lc_secret c = le64 (se_secret s)" "length (rw_seen (lc_window c)) \<le> 512"
    and "map_of (lc_pending c) seq = Some t0" "length (ping_body (lc_id c) seq) \<le> 1100" "m \<le> 0x0FFF"
  shows "\<exists>c' acks. load_receive hmac4 c (out_packet hmac4 cfg s ack 0 CH_RELIABLE_ORDERED m (ping_body (lc_id c) seq)) clk = Some (c', acks)
    \<and> lc_pending c' = AList.delete seq (lc_pending c)
    \<and> lc_rtts c' = lc_rtts c @ [f64_mul (as_secs_f64 (duration_since (clk 0) t0)) 1000]"
proof -
  let ?f = "new_frame_ref CH_RELIABLE_ORDERED m (ping_body (lc_id c) seq)" and ?h = "out_header cfg s 0 ack (se_send_seq s)"
  let ?b = "client_packet ?h [?f]"
  have l: "CH_RELIABLE_ORDERED \<le> 3" "length (ping_body (lc_id c) seq) \<le> 1180" using assms(6) by (simp_all add: ch_defs)
  note snd = encode_out(1) [OF l(1) assms(7) l(2), of cfg s 0 ack "se_send_seq s"]
  have pkt: "out_packet hmac4 cfg s ack 0 CH_RELIABLE_ORDERED m (ping_body (lc_id c) seq) = ?b @ hmac4 (lc_secret c) ?b"
    using assms(1,3) by (simp add: out_packet_def attach_hmac_def)
  have "length (?b @ hmac4 (lc_secret c) ?b) \<le> MTU"
    using assms(2,6) by (simp add: length_client_packet HEADER_LEN_def MTU_def new_frame_ref_def)
  then have u: "udp_recv (?b @ hmac4 (lc_secret c) ?b) = ?b @ hmac4 (lc_secret c) ?b" by (simp add: udp_recv_def)
  have st: "strip_mac hmac4 (lc_secret c) (?b @ hmac4 (lc_secret c) ?b) = Some ?b"
    by (rule strip_signed [OF snd]) (simp_all add: assms(2) out_header_def assms(1) flag_defs)
  have m: "match_echoes (ping_prefix (lc_id c)) clk [?f] (lc_pending c) (lc_rtts c) =
      (AList.delete seq (lc_pending c), lc_rtts c @ [f64_mul (as_secs_f64 (duration_since (clk 0) t0)) 1000])"
    using assms(5) by (simp add: new_frame_ref_def echo_seq_ping)
  obtain w where "window_note (lc_window c) (dh_seq ?h) = Some w" using window_note_total [OF assms(4)] by blast
  then show ?thesis unfolding pkt load_receive_def u st using decode_client_packet [OF snd] by (simp add: m del: match_echoes.simps)
qed

section \<open>There and back\<close>

lemma map_of_note_ping:
  assumes "length pending < 512"
  shows "map_of (note_ping pending seq now) seq = Some now"
proof -
  have "length (AList.update seq now pending) \<le> Suc (length pending)"
    by (induction pending) (auto split: prod.split)
  then show ?thesis using assms by (simp add: note_ping_def Let_def update_conv)
qed

lemma ping_to_link:
  assumes "table_inv (sh_sessions sh)" "cfg_enable_hmac (st_cfg (sh_sessions sh))" "\<forall>x d. length (hmac4 x d) = 4"
    and "table_get (sh_sessions sh) (lc_conn_id c) = Some s" "lc_conn_id c \<noteq> 0" "se_state s = Active"
    and "lc_secret c = le64 (se_secret s)" "lc_seq c = of_nat k" "rx_at M k {} s" "lc_id c < 2 ^ 64"
    and "queued sh = []" "0 < room sh"
  shows "\<exists>c1 ping t' ps q1 q2 s'. load_ping hmac4 c t0 = Some (c1, ping)
    \<and> c1 = c\<lparr>lc_pending := note_ping (lc_pending c) (lc_seq c) t0, lc_sent := lc_sent c + 1, lc_seq := lc_seq c + 1\<rparr>
    \<and> on_packet False hmac4 sh (se_peer s) ping rnd now now' clks = Some (sh\<lparr>sh_sessions := t', sh_up_tx := Some q1\<rparr>, ps)
    \<and> logic_write_loop (sh\<lparr>sh_sessions := t', sh_up_tx := Some q1\<rparr>) = (sh\<lparr>sh_sessions := t', sh_up_tx := Some q2\<rparr>,
        frame_bytes (event_frame (EvData (se_sess_id s) CH_RELIABLE_ORDERED 1 (ping_body (lc_id c) (lc_seq c)))), Inr ())
    \<and> table_inv t' \<and> table_get t' (lc_conn_id c) = Some s' \<and> st_cfg t' = st_cfg (sh_sessions sh) \<and> keeps_ids s s'
    \<and> se_budget_kbps s' = se_budget_kbps s \<and> length (rq_entries (se_retrans_ch2 s')) \<le> length (rq_entries (se_retrans_ch2 s))"
proof -
  let ?p = "ping_body (lc_id c) (lc_seq c)" and ?id = "se_sess_id s"
  let ?ev = "EvData ?id CH_RELIABLE_ORDERED 1 ?p"
  have len: "length ?p \<le> 31" by (rule length_ping_body [OF assms(10)])
  obtain c1 ping where lp: "load_ping hmac4 c t0 = Some (c1, ping)"
      "c1 = c\<lparr>lc_pending := note_ping (lc_pending c) (lc_seq c) t0, lc_sent := lc_sent c + 1, lc_seq := lc_seq c + 1\<rparr>"
      "ping_packet hmac4 (lc_conn_id c) (le64 (se_secret s)) (of_nat k) ?p = Some ping"
    using len assms(7,8) by (simp add: load_ping_def ping_packet_eq Let_def)
  obtain t' ps s' where d: "handle_datagram False hmac4 (sh_sessions sh) (se_peer s) ping rnd now now' = Some (t', ps, [?ev])"
      "table_inv t' \<and> table_get t' (lc_conn_id c) = Some s' \<and> st_cfg t' = st_cfg (sh_sessions sh) \<and> keeps_ids s s'
        \<and> se_budget_kbps s' = se_budget_kbps s \<and> length (rq_entries (se_retrans_ch2 s')) \<le> length (rq_entries (se_retrans_ch2 s))"
    using next_ping_received [OF assms(1,2,4-6) assms(3) [rule_format] assms(9) _ lp(3)] len by fastforce
  let ?sh = "sh\<lparr>sh_sessions := t'\<rparr>"
  have q: "queued ?sh = []" "0 < room ?sh" using assms(11,12) by (simp_all add: queued_def room_def)
  obtain q1 where q1: "push_ups ?sh [?ev] clks = ?sh\<lparr>sh_up_tx := Some q1\<rparr>" "uc_frames q1 = [event_frame ?ev]"
    using push_ups_one [OF q] by blast
  have up: "on_packet False hmac4 sh (se_peer s) ping rnd now now' clks = Some (?sh\<lparr>sh_up_tx := Some q1\<rparr>, ps)"
    using q1(1) by (simp add: on_packet_def d(1) del: push_ups.simps)
  have "frame_ok (event_frame ?ev)" using len by (intro frame_event [THEN conjunct2]) (simp add: event_fits_def)
  from write_loop_one [OF q1(2) this] obtain q2 where
    "logic_write_loop (?sh\<lparr>sh_up_tx := Some q1\<rparr>) = (?sh\<lparr>sh_up_tx := Some q2\<rparr>, frame_bytes (event_frame ?ev), Inr ())" by blast
  with lp(1,2) up d(2) show ?thesis by blast
qed

lemma echo_to_client:
  assumes "table_inv (sh_sessions sh)" "cfg_enable_hmac (st_cfg (sh_sessions sh))" "\<And>x d. length (hmac4 x d) = 4"
    and "table_get (sh_sessions sh) (lc_conn_id c) = Some s" "se_state s = Active" "se_budget_kbps s = None"
    and "lc_secret c = le64 (se_secret s)" "length (rq_entries (se_retrans_ch2 s)) < 64" "lc_id c < 2 ^ 64"
    and "length (rw_seen (lc_window c)) \<le> 512" "map_of (lc_pending c) seq = Some t0"
    and "sh_udp sh" "udp_ok = (\<lambda>_ _. True)" "\<not> tcp_is_virtual_peer (se_peer s)" "\<not> ws_is_virtual_peer (se_peer s)"
    and "[] \<notin> set downs" "concat downs = frame_bytes (send (se_sess_id s) CH_RELIABLE_ORDERED 1 (ping_body (lc_id c) seq))"
  shows "\<exists>frames sh3 pong c2 acks. read_loop [] downs = (frames, None)
      \<and> logic_read_loop chk hmac4 udp_ok sh clk2 frames = Some (sh3, [(ViaUdp, pong, se_peer s)], Inr ())
      \<and> load_receive hmac4 c pong clk3 = Some (c2, acks) \<and> lc_pending c2 = AList.delete seq (lc_pending c)
      \<and> lc_rtts c2 = lc_rtts c @ [f64_mul (as_secs_f64 (duration_since (clk3 0) t0)) 1000]"
proof -
  let ?p = "ping_body (lc_id c) seq"
  let ?pong = "out_packet hmac4 (st_cfg (sh_sessions sh)) s (compute_ack s) 0 CH_RELIABLE_ORDERED 1 ?p"
  have l: "length ?p \<le> 1100" "(1 :: u16) \<le> 0x0FFF" using length_ping_body [OF assms(9), of seq] by simp_all
  obtain frames sh3 where s: "read_loop [] downs = (frames, None)"
      "logic_read_loop chk hmac4 udp_ok sh clk2 frames = Some (sh3, [(ViaUdp, ?pong, se_peer s)], Inr ())"
    using echo_sent [OF assms(1,4,5) l assms(8,6,12,14,15,13,16,17), of chk hmac4 clk2] by auto
  have "\<exists>c' acks. load_receive hmac4 c ?pong clk3 = Some (c', acks) \<and> lc_pending c' = AList.delete seq (lc_pending c)
      \<and> lc_rtts c' = lc_rtts c @ [f64_mul (as_secs_f64 (duration_since (clk3 0) t0)) 1000]"
    by (rule echo_received) (use assms(2,3,7,10,11) l in simp_all)
  then show ?thesis using s by blast
qed

text \<open>
  C8. A ping comes back: a client of the load tool that has sent \<open>k\<close> pings, all of them received, over
  UDP to an engine with HMAC, with the logic server's link up and the echo server in its place. Its
  next ping passes the engine and becomes one frame on the link; however the stream is cut, the echo
  server answers with one frame; however that is cut, the engine sends the client one packet, which
  the client takes for the echo of that ping: it removes the ping from the pending ones and adds the
  time since it was sent, in milliseconds, to its round-trip times.
\<close>

theorem ping_echo_round_trip:
  assumes "table_inv (sh_sessions sh)" "cfg_enable_hmac (st_cfg (sh_sessions sh))" "\<And>x d. length (hmac4 x d) = 4"
    and "table_get (sh_sessions sh) (lc_conn_id c) = Some s" "lc_conn_id c \<noteq> 0" "se_state s = Active" "se_budget_kbps s = None"
    and "lc_secret c = le64 (se_secret s)" "lc_seq c = of_nat k" "rx_at M k {} s" "length (rq_entries (se_retrans_ch2 s)) < 64"
    and "lc_id c < 2 ^ 64" "length (lc_pending c) < 512" "length (rw_seen (lc_window c)) \<le> 512"
    and "queued sh = []" "0 < room sh" "sh_udp sh" "\<And>b p. udp_ok b p"
    and "\<not> tcp_is_virtual_peer (se_peer s)" "\<not> ws_is_virtual_peer (se_peer s)"
  shows "\<exists>c1 ping sh1 replies sh2 up down. load_ping hmac4 c t0 = Some (c1, ping)
    \<and> on_packet False hmac4 sh (se_peer s) ping rnd now now' clks = Some (sh1, replies)
    \<and> logic_write_loop sh1 = (sh2, up, Inr ()) \<and> up \<noteq> [] \<and> down \<noteq> []
    \<and> (\<forall>ups. [] \<notin> set ups \<and> concat ups = up \<longrightarrow> echo_logic ups = Some down)
    \<and> (\<forall>downs. [] \<notin> set downs \<and> concat downs = down \<longrightarrow> (\<exists>frames sh3 pong c2 acks.
        read_loop [] downs = (frames, None)
      \<and> logic_read_loop chk hmac4 udp_ok sh2 clk2 frames = Some (sh3, [(ViaUdp, pong, se_peer s)], Inr ())
      \<and> load_receive hmac4 c1 pong clk3 = Some (c2, acks)
      \<and> lc_pending c2 = AList.delete (lc_seq c) (lc_pending c1)
      \<and> lc_rtts c2 = lc_rtts c @ [f64_mul (as_secs_f64 (duration_since (clk3 0) t0)) 1000]))"
proof -
  let ?p = "ping_body (lc_id c) (lc_seq c)" and ?id = "se_sess_id s"
  let ?up = "frame_bytes (event_frame (EvData ?id CH_RELIABLE_ORDERED 1 ?p))" and ?down = "frame_bytes (send ?id CH_RELIABLE_ORDERED 1 ?p)"
  have mac: "\<forall>x d. length (hmac4 x d) = 4" using assms(3) by blast
  obtain c1 ping t' ps q1 q2 s' where u: "load_ping hmac4 c t0 = Some (c1, ping)"
      "c1 = c\<lparr>lc_pending := note_ping (lc_pending c) (lc_seq c) t0, lc_sent := lc_sent c + 1, lc_seq := lc_seq c + 1\<rparr>"
      "on_packet False hmac4 sh (se_peer s) ping rnd now now' clks = Some (sh\<lparr>sh_sessions := t', sh_up_tx := Some q1\<rparr>, ps)"
      "logic_write_loop (sh\<lparr>sh_sessions := t', sh_up_tx := Some q1\<rparr>) = (sh\<lparr>sh_sessions := t', sh_up_tx := Some q2\<rparr>, ?up, Inr ())"
      "table_inv t'" "table_get t' (lc_conn_id c) = Some s'" "st_cfg t' = st_cfg (sh_sessions sh)" "keeps_ids s s'"
      "se_budget_kbps s' = se_budget_kbps s" "length (rq_entries (se_retrans_ch2 s')) \<le> length (rq_entries (se_retrans_ch2 s))"
    using ping_to_link [OF assms(1,2) mac assms(4-6,8-10,12,15,16)] by blast
  have ids: "se_peer s' = se_peer s" "se_sess_id s' = ?id" "se_secret s' = se_secret s" "se_state s' = Active"
    using u(8) assms(6) by (simp_all add: keeps_ids_def)
  have echo: "echo_logic ups = Some ?down" if "[] \<notin> set ups" "concat ups = ?up" for ups
    using echo_logic_data [OF _ that] length_ping_body [OF assms(12), of "lc_seq c"] by simp
  have c1: "map_of (lc_pending c1) (lc_seq c) = Some t0" "lc_id c1 = lc_id c" "lc_rtts c1 = lc_rtts c"
    using map_of_note_ping [OF assms(13)] u(2) by simp_all
  have udp: "udp_ok = (\<lambda>_ _. True)" using assms(18) by (simp add: fun_eq_iff)
  have pong: "\<exists>frames sh3 pong c2 acks. read_loop [] downs = (frames, None)
      \<and> logic_read_loop chk hmac4 udp_ok (sh\<lparr>sh_sessions := t', sh_up_tx := Some q2\<rparr>) clk2 frames = Some (sh3, [(ViaUdp, pong, se_peer s)], Inr ())
      \<and> load_receive hmac4 c1 pong clk3 = Some (c2, acks) \<and> lc_pending c2 = AList.delete (lc_seq c) (lc_pending c1)
      \<and> lc_rtts c2 = lc_rtts c @ [f64_mul (as_secs_f64 (duration_since (clk3 0) t0)) 1000]"
    if "[] \<notin> set downs" "concat downs = ?down" for downs
    unfolding ids(1) [symmetric] c1(3) [symmetric]
    by (rule echo_to_client) (use assms u ids c1 udp that in simp_all)
  have "?up \<noteq> []" "?down \<noteq> []" by (simp_all add: frame_bytes_def)
  then show ?thesis using u(1,3,4) echo pong by blast
qed

theorem ping_echo_round_trip_witness:
  "\<exists>c1 ping sh1 replies sh2 up down frames sh3 pong c2 acks.
    load_ping (\<lambda>_ _. [1, 2, 3, 4]) (load_client_new 7 (1, le64 7)) (millis 5) = Some (c1, ping)
    \<and> on_packet False (\<lambda>_ _. [1, 2, 3, 4]) (link_open (engine_start (engine_config_default 4) (shared_new one_session 0))) (V4 1 2)
        ping 0 (millis 6) (millis 6) (\<lambda>_. millis 6) = Some (sh1, replies)
    \<and> logic_write_loop sh1 = (sh2, up, Inr ()) \<and> echo_logic [up] = Some down \<and> read_loop [] [down] = (frames, None)
    \<and> logic_read_loop True (\<lambda>_ _. [1, 2, 3, 4]) (\<lambda>_ _. True) sh2 (\<lambda>_ _. millis 7) frames = Some (sh3, [(ViaUdp, pong, V4 1 2)], Inr ())
    \<and> load_receive (\<lambda>_ _. [1, 2, 3, 4]) c1 pong (\<lambda>_. millis 8) = Some (c2, acks)
    \<and> lc_rtts c2 = [f64_mul (as_secs_f64 (millis 3)) 1000]"
proof -
  let ?s = "new_session 1 1 (V4 1 2) 7 [] 0" and ?c = "load_client_new 7 (1, le64 7)"
    and ?sh = "link_open (engine_start (engine_config_default 4) (shared_new one_session 0))"
  have t: "sh_sessions ?sh = one_session" "sh_udp ?sh" "queued ?sh = []" "0 < room ?sh"
    by (simp_all add: link_open_def Let_def engine_start_def shared_new_def queued_def room_def UP_QUEUE_CAP_def)
  have inv: "table_inv (sh_sessions ?sh)" unfolding t(1) by (simp add: table_inv_def)
  have e: "cfg_enable_hmac (st_cfg (sh_sessions ?sh))" unfolding t(1) by (simp add: default_config_def)
  have c: "lc_conn_id ?c = 1" "lc_secret ?c = le64 (se_secret ?s)" "lc_seq ?c = of_nat 0" "lc_id ?c < 2 ^ 64"
    "length (lc_pending ?c) < 512" "length (rw_seen (lc_window ?c)) \<le> 512" "lc_conn_id ?c \<noteq> 0" "lc_rtts ?c = []"
    by (simp_all add: load_client_new_def window_new_def new_session_def)
  have g: "table_get (sh_sessions ?sh) (lc_conn_id ?c) = Some ?s" unfolding t(1) c(1) by simp
  have s: "se_state ?s = Active" "se_budget_kbps ?s = None" "length (rq_entries (se_retrans_ch2 ?s)) < 64" "se_peer ?s = V4 1 2"
    by (simp_all add: new_session_def rq_new_def)
  have v: "\<not> tcp_is_virtual_peer (se_peer ?s)" "\<not> ws_is_virtual_peer (se_peer ?s)"
    unfolding s(4) by (simp_all add: tcp_is_virtual_peer_def ws_is_virtual_peer_def TCP_VIRTUAL_IP_def WS_VIRTUAL_IP_def eval_simps)
  have h: "length [1, 2, 3, 4 :: u8] = 4" by simp
  have d: "duration_since (millis 8) (millis 5) = millis 3" by (simp add: duration_since_def)
  obtain c1 ping sh1 replies sh2 up down where r:
      "load_ping (\<lambda>_ _. [1, 2, 3, 4]) ?c (millis 5) = Some (c1, ping)"
      "on_packet False (\<lambda>_ _. [1, 2, 3, 4]) ?sh (V4 1 2) ping 0 (millis 6) (millis 6) (\<lambda>_. millis 6) = Some (sh1, replies)"
      "logic_write_loop sh1 = (sh2, up, Inr ())" "up \<noteq> []" "down \<noteq> []"
      "\<forall>ups. [] \<notin> set ups \<and> concat ups = up \<longrightarrow> echo_logic ups = Some down"
      "\<forall>downs. [] \<notin> set downs \<and> concat downs = down \<longrightarrow> (\<exists>frames sh3 pong c2 acks. read_loop [] downs = (frames, None)
        \<and> logic_read_loop True (\<lambda>_ _. [1, 2, 3, 4]) (\<lambda>_ _. True) sh2 (\<lambda>_ _. millis 7) frames = Some (sh3, [(ViaUdp, pong, V4 1 2)], Inr ())
        \<and> load_receive (\<lambda>_ _. [1, 2, 3, 4]) c1 pong (\<lambda>_. millis 8) = Some (c2, acks)
        \<and> lc_pending c2 = AList.delete (lc_seq ?c) (lc_pending c1)
        \<and> lc_rtts c2 = lc_rtts ?c @ [f64_mul (as_secs_f64 (duration_since (millis 8) (millis 5))) 1000])"
    using ping_echo_round_trip [OF inv e h g c(7) s(1,2) c(2,3) rx_at_new [of undefined] s(3) c(4-6) t(3,4,2) TrueI v,
        of "millis 5" 0 "millis 6" "millis 6" "\<lambda>_. millis 6" True "\<lambda>_ _. millis 7" "\<lambda>_. millis 8"]
    unfolding s(4) by blast
  have "echo_logic [up] = Some down" using r(4,6) by simp
  moreover have "[] \<notin> set [down] \<and> concat [down] = down" using r(5) by simp
  from r(7) [THEN spec, THEN mp, OF this, unfolded d c(8) append_Nil] obtain frames sh3 pong c2 acks where
    "read_loop [] [down] = (frames, None)"
    "logic_read_loop True (\<lambda>_ _. [1, 2, 3, 4]) (\<lambda>_ _. True) sh2 (\<lambda>_ _. millis 7) frames = Some (sh3, [(ViaUdp, pong, V4 1 2)], Inr ())"
    "load_receive (\<lambda>_ _. [1, 2, 3, 4]) c1 pong (\<lambda>_. millis 8) = Some (c2, acks)"
    "lc_rtts c2 = [f64_mul (as_secs_f64 (millis 3)) 1000]"
    by (elim exE conjE) (rule that)
  ultimately show ?thesis using r(1-3) by (intro exI conjI)
qed

end
