(* ===== verification/Packet_Types.thy ===== *)
theory Packet_Types
  imports Client_Acks Engine_Run
begin

text \<open>
  A typing of the datagrams the engine sends: what a packet of a session and a handshake reply look
  like, and the invariant that the retransmission queues of every stored session hold only packets of
  that session, each with the sequence number it is queued under. It follows that everything the
  engine puts on the wire can be read by the client it is sent to.
\<close>

section \<open>Typed packets\<close>

definition session_packet :: "(bytes \<Rightarrow> bytes \<Rightarrow> bytes) \<Rightarrow> u32 \<Rightarrow> u64 \<Rightarrow> u16 \<Rightarrow> bytes \<Rightarrow> bool" where
  "session_packet hmac4 c secret seq pkt \<longleftrightarrow> (\<exists>h fs. sendable h fs \<and> dh_conn_id h = c \<and> dh_seq h = seq
     \<and> dh_flags h AND FLAG_HANDSHAKE = 0
     \<and> pkt = client_packet h fs @ (if dh_flags h AND FLAG_HMAC \<noteq> 0 then hmac4 (le64 secret) (client_packet h fs) else []))"

definition queues_typed :: "(bytes \<Rightarrow> bytes \<Rightarrow> bytes) \<Rightarrow> session \<Rightarrow> bool" where
  "queues_typed hmac4 s \<longleftrightarrow> (\<forall>p \<in> set (rq_entries (se_retrans_ch2 s)) \<union> set (rq_entries (se_retrans_ch3 s)).
     session_packet hmac4 (se_conn_id s) (se_secret s) (pp_seq p) (pp_datagram p))"

definition table_typed :: "(bytes \<Rightarrow> bytes \<Rightarrow> bytes) \<Rightarrow> session_table \<Rightarrow> bool" where
  "table_typed hmac4 t \<longleftrightarrow> table_ok t \<and> sessions.all_values (\<lambda>_. queues_typed hmac4) t"

text \<open>What may be sent to an address: a packet of a stored session of that address, or a handshake reply.\<close>

definition sent_typed :: "(bytes \<Rightarrow> bytes \<Rightarrow> bytes) \<Rightarrow> session_table \<Rightarrow> bytes \<times> socket_addr \<Rightarrow> bool" where
  "sent_typed hmac4 t p \<longleftrightarrow>
     (\<exists>c s seq. table_get t c = Some s \<and> se_peer s = snd p \<and> session_packet hmac4 c (se_secret s) seq (fst p))
   \<or> (\<exists>c body. length body = 8 \<and> handshake_reply c body = Inr (fst p, 28))"

lemma sent_typedI: "table_get t c = Some s \<Longrightarrow> session_packet hmac4 c (se_secret s) seq b \<Longrightarrow> sent_typed hmac4 t (b, se_peer s)"
  by (auto simp: sent_typed_def)

text \<open>Sessions of one table that another still has, with the same identity.\<close>

definition keeps_sessions :: "session_table \<Rightarrow> session_table \<Rightarrow> bool" where
  "keeps_sessions t t' \<longleftrightarrow> (\<forall>c s. table_get t c = Some s \<longrightarrow>
     (\<exists>s'. table_get t' c = Some s' \<and> se_secret s' = se_secret s \<and> se_peer s' = se_peer s))"

lemma sent_typed_keeps: "sent_typed hmac4 t p \<Longrightarrow> keeps_sessions t t' \<Longrightarrow> sent_typed hmac4 t' p"
  unfolding sent_typed_def keeps_sessions_def by metis

lemma keeps_sessions_refl [simp]: "keeps_sessions t t"
  by (simp add: keeps_sessions_def)

lemma keeps_sessions_trans: "keeps_sessions t t' \<Longrightarrow> keeps_sessions t' t'' \<Longrightarrow> keeps_sessions t t''"
  unfolding keeps_sessions_def by metis

lemma keeps_sessions_put:
  assumes "shards_ok t" "table_get t c = Some s" "se_secret s' = se_secret s" "se_peer s' = se_peer s"
  shows "keeps_sessions t (table_put t c s')"
  using assms by (auto simp: keeps_sessions_def table_get_put)

lemma table_typed_upd [simp]:
  "table_typed hmac4 (t\<lparr>st_stats := st\<rparr>) = table_typed hmac4 t"
  by (simp add: table_typed_def sessions.all_values_def)

lemma table_typed_getD: "table_typed hmac4 t \<Longrightarrow> table_get t c = Some s \<Longrightarrow> se_conn_id s = c \<and> queues_typed hmac4 s"
  by (auto simp: table_typed_def dest: table_ok_getD sessions.all_values_get)

lemma table_typed_shards: "table_typed hmac4 t \<Longrightarrow> shards_ok t"
  by (simp add: table_typed_def table_ok_def)

lemma table_typed_put:
  "table_typed hmac4 t \<Longrightarrow> queues_typed hmac4 s \<Longrightarrow> se_conn_id s = c \<Longrightarrow> session_inv s \<Longrightarrow> table_typed hmac4 (table_put t c s)"
  using table_typed_shards by (auto simp: table_typed_def intro!: table_ok_put sessions.all_values_put)

lemma table_typed_sweep:
  assumes "table_typed hmac4 t" "\<And>s. se_conn_id (f s) = se_conn_id s" "\<And>s. session_inv s \<Longrightarrow> session_inv (f s)"
    and "\<And>s. queues_typed hmac4 s \<Longrightarrow> queues_typed hmac4 (f s)"
  shows "table_typed hmac4 (sweep P f t)"
  using assms sweep_ok [of t f P] table_typed_shards [OF assms(1)]
  by (auto simp: table_typed_def sessions.all_values_def table_get_sweep split: option.splits if_splits)

section \<open>Packets of a session\<close>

lemma control_packet:
  assumes "flags AND FLAG_HANDSHAKE = 0" "flags AND FLAG_HMAC = 0"
    and "Inr (out, n) = encode \<lparr>dh_version = VERSION, dh_flags = flags, dh_conn_id = c, dh_seq = q, dh_ack = a, dh_ack_bits = b\<rparr> [] []"
  shows "session_packet hmac4 c secret q out"
proof -
  let ?h = "\<lparr>dh_version = VERSION, dh_flags = flags, dh_conn_id = c, dh_seq = q, dh_ack = a, dh_ack_bits = b\<rparr>"
  have s: "sendable ?h []" by (simp add: sendable_def HEADER_LEN_def MTU_def)
  then have "out = client_packet ?h []" using encode_sendable [OF s] assms(3) by simp
  then show ?thesis using s assms(1,2) unfolding session_packet_def by (intro exI [of _ ?h] exI [of _ "[]"]) simp
qed

lemma pure_ack_typed: "b \<in> set (pure_ack s) \<Longrightarrow> session_packet hmac4 (se_conn_id s) (se_secret s) (se_send_seq s) b"
  using control_packet [of FLAG_PURE_ACK] by (auto simp: pure_ack_def case_prod_beta flag_defs split: sum.splits)

lemma heartbeat_typed: "p \<in> set (heartbeat_packet s) \<Longrightarrow>
    session_packet hmac4 (se_conn_id s) (se_secret s) (se_send_seq s) (fst p) \<and> snd p = se_peer s"
  using control_packet [of 0] by (auto simp: heartbeat_packet_def case_prod_beta split: sum.splits)

lemma on_ack_typed:
  assumes "on_ack chk q ack bits now = Some r" "\<forall>p \<in> set (rq_entries q). P (pp_seq p) (pp_datagram p)"
  shows "(\<forall>p \<in> set (rq_entries (ar_queue r)). P (pp_seq p) (pp_datagram p)) \<and> (\<forall>b \<in> set (ar_fast r). \<exists>seq. P seq b)"
proof -
  obtain q' where q': "skip_head chk q ack bits = Some (q', ar_fast r)" using on_ack_SomeE [OF assms(1)] by blast
  have "\<forall>b \<in> set (ar_fast r). \<exists>seq. P seq b" using q' assms(2) by (cases rule: skip_head_cases) auto
  then show ?thesis using on_ack_SomeD(1) [OF assms(1)] assms(2) by (auto dest: set_dropWhileD)
qed

lemma process_acks_typed:
  assumes "process_acks chk s st header now = Some (s', st', fast)" "queues_typed hmac4 s"
  shows "queues_typed hmac4 s' \<and> (\<forall>b \<in> set fast. \<exists>seq. session_packet hmac4 (se_conn_id s) (se_secret s) seq b)"
proof -
  obtain r0 r1 e where r: "on_ack chk (se_retrans_ch2 s) (dh_ack header) (dh_ack_bits header) now = Some r0"
      "on_ack chk (se_retrans_ch3 s) (dh_ack header) (dh_ack_bits header) now = Some r1"
      "s' = s\<lparr>se_retrans_ch2 := ar_queue r0, se_retrans_ch3 := ar_queue r1, se_rtt := e\<rparr>" "fast = ar_fast r0 @ ar_fast r1"
    using assms(1)
    by (auto simp: process_acks_def ack_queue_def Let_def split: bind_splits dest!: apply_sample_SomeD)
  let ?P = "session_packet hmac4 (se_conn_id s) (se_secret s)"
  have "\<forall>p \<in> set (rq_entries (se_retrans_ch2 s)). ?P (pp_seq p) (pp_datagram p)"
    "\<forall>p \<in> set (rq_entries (se_retrans_ch3 s)). ?P (pp_seq p) (pp_datagram p)"
    using assms(2) by (simp_all add: queues_typed_def)
  from on_ack_typed [OF r(1) this(1)] on_ack_typed [OF r(2) this(2)] show ?thesis
    using r(3,4) by (auto simp: queues_typed_def)
qed

lemma queues_typed_cong:
  assumes "se_retrans_ch2 s' = se_retrans_ch2 s" "se_retrans_ch3 s' = se_retrans_ch3 s" "se_conn_id s' = se_conn_id s" "se_secret s' = se_secret s"
  shows "queues_typed hmac4 s' = queues_typed hmac4 s"
  using assms by (simp add: queues_typed_def)

lemma send_one_typed:
  assumes "send_one hmac4 cfg ack now flags ch msg_id s body = (s', r)" "queues_typed hmac4 s"
    and "flags AND FLAG_HANDSHAKE = 0" "flags AND FLAG_HMAC = 0"
  shows "queues_typed hmac4 s' \<and> (\<forall>p. r = Inr p \<longrightarrow>
    session_packet hmac4 (se_conn_id s) (se_secret s) (se_send_seq s) (fst p) \<and> snd p = se_peer s)"
proof -
  let ?h = "out_header cfg s flags ack (se_send_seq s)" and ?fs = "[new_frame_ref ch msg_id body]"
    and ?s = "s\<lparr>se_send_seq := se_send_seq s + 1\<rparr>"
  have q: "queues_typed hmac4 ?s" using assms(2) queues_typed_cong [of ?s s] by simp
  have h: "out_header cfg ?s flags ack (se_send_seq s) = ?h" by (simp add: out_header_def)
  show ?thesis
  proof (cases "encode ?h ?fs []")
    case (Inl e)
    then have "s' = ?s" "r = Inl e" using assms(1) by (auto simp: send_one_def Let_def h)
    then show ?thesis using q by simp
  next
    case (Inr x)
    let ?b = "attach_hmac hmac4 cfg s (client_packet ?h ?fs)"
    have snd: "sendable ?h ?fs" and x: "x = (client_packet ?h ?fs, HEADER_LEN + frames_size ?fs)"
      using Inr by (auto simp: encode_Inr_iff sendable_def client_packet_def)
    have fl: "dh_flags ?h AND FLAG_HANDSHAKE = 0" "dh_flags ?h AND FLAG_HMAC \<noteq> 0 \<longleftrightarrow> cfg_enable_hmac cfg"
      using assms(3,4) by (simp_all add: out_header_def flag_defs bit.conj_disj_distrib2)
    have "?b = client_packet ?h ?fs @ (if dh_flags ?h AND FLAG_HMAC \<noteq> 0 then hmac4 (le64 (se_secret s)) (client_packet ?h ?fs) else [])"
      unfolding fl(2) by (simp add: attach_hmac_def)
    then have b: "session_packet hmac4 (se_conn_id s) (se_secret s) (se_send_seq s) ?b"
      using snd fl(1) unfolding session_packet_def by (intro exI [of _ ?h] exI [of _ ?fs]) (simp add: out_header_def)
    have a: "attach_hmac hmac4 cfg ?s (client_packet ?h ?fs) = ?b" by (simp add: attach_hmac_def)
    show ?thesis
      using assms(1) b q
      by (auto simp: send_one_def Let_def h Inr x a rq_push_def queue_for_def set_queue_for_def queues_typed_def
        split: option.splits if_splits)
  qed
qed

lemma send_all_typed:
  assumes "send_all hmac4 cfg ack now flags ch msg_id s parts = (s', r)" "queues_typed hmac4 s"
    and "flags AND FLAG_HANDSHAKE = 0" "flags AND FLAG_HMAC = 0"
  shows "queues_typed hmac4 s' \<and> keeps_ids s s' \<and> (\<forall>ps. r = Inr ps \<longrightarrow> (\<forall>p \<in> set ps.
    (\<exists>seq. session_packet hmac4 (se_conn_id s) (se_secret s) seq (fst p)) \<and> snd p = se_peer s))"
  using assms(1,2)
proof (induction parts arbitrary: s s' r)
  case (Cons part parts)
  obtain s1 r1 where 1: "send_one hmac4 cfg ack now flags ch msg_id s part = (s1, r1)" by force
  obtain s2 r2 where 2: "send_all hmac4 cfg ack now flags ch msg_id s1 parts = (s2, r2)" by force
  define P where "P p \<longleftrightarrow> (\<exists>seq. session_packet hmac4 (se_conn_id s) (se_secret s) seq (fst p)) \<and> snd p = se_peer s" for p
  note k1 = send_one_frame(1) [OF 1]
  have t1: "queues_typed hmac4 s1 \<and> (\<forall>p. r1 = Inr p \<longrightarrow> P p)"
    using send_one_typed [OF 1 Cons.prems(2) assms(3,4)] unfolding P_def by blast
  have t2: "queues_typed hmac4 s2 \<and> keeps_ids s1 s2 \<and> (\<forall>ps. r2 = Inr ps \<longrightarrow> (\<forall>p \<in> set ps. P p))"
    using Cons.IH [OF 2] t1 k1 by (simp add: keeps_ids_def P_def)
  have "queues_typed hmac4 s' \<and> keeps_ids s s' \<and> (\<forall>ps. r = Inr ps \<longrightarrow> (\<forall>p \<in> set ps. P p))"
  proof (cases r1)
    case (Inl e)
    then show ?thesis using Cons.prems(1) 1 t1 k1 by auto
  next
    case (Inr p)
    then show ?thesis using Cons.prems(1) 1 2 t1 t2 keeps_ids_trans [OF k1] by (cases r2) auto
  qed
  then show ?case unfolding P_def .
qed simp

lemma pack_session_typed:
  assumes "pack_session hmac4 cfg now ch msg_id payload s = Some (s', r)" "queues_typed hmac4 s"
  shows "queues_typed hmac4 s' \<and> keeps_ids s s' \<and> (\<forall>ps. r = Inr ps \<longrightarrow> (\<forall>p \<in> set ps.
    (\<exists>seq. session_packet hmac4 (se_conn_id s) (se_secret s) seq (fst p)) \<and> snd p = se_peer s))"
proof (cases "ch = CH_RELIABLE_ORDERED \<and> FRAGMENT_THRESHOLD < length payload")
  case True
  let ?s = "s\<lparr>se_frag_group_id := se_frag_group_id s + 1\<rparr>"
  obtain parts where p: "send_all hmac4 cfg (compute_ack s) now FLAG_FRAGMENT ch msg_id ?s parts = (s', r)"
    using assms(1) True by (auto simp: pack_session_def Let_def split: bind_splits)
  have "queues_typed hmac4 ?s" using assms(2) queues_typed_cong [of ?s s] by simp
  from send_all_typed [OF p this] show ?thesis by (simp add: flag_defs keeps_ids_def)
next
  case False
  then have p: "send_all hmac4 cfg (compute_ack s) now 0 ch msg_id s [payload] = (s', r)"
    using assms(1) by (simp add: pack_session_def Let_def del: send_all.simps split: if_splits)
  from send_all_typed [OF p assms(2)] show ?thesis by simp
qed

section \<open>Operations of the table\<close>

lemma store_typed:
  assumes "table_typed hmac4 t" "find_session t sess_id = Some (i, c, s)" "queues_typed hmac4 s'" "keeps_ids s s'"
    and "session_inv s \<Longrightarrow> session_inv s'"
  shows "table_typed hmac4 (store_at t i c s') \<and> keeps_sessions t (store_at t i c s')
    \<and> table_get (store_at t i c s') c = Some s' \<and> se_conn_id s = c"
proof -
  have sh: "shards_ok t" by (rule table_typed_shards [OF assms(1)])
  have g: "table_get t c = Some s" using find_session_SomeD(1) [OF sh assms(2)] .
  have c: "se_conn_id s = c" "session_inv s" using assms(1) g table_ok_getD by (auto simp: table_typed_def)
  have "table_typed hmac4 (table_put t c s')" using assms c by (intro table_typed_put) (simp_all add: keeps_ids_def)
  then show ?thesis
    using store_at_eq [OF sh assms(2)] keeps_sessions_put [OF sh g, of s'] assms(4) c(1) by (simp add: keeps_ids_def table_get_put [OF sh])
qed

lemma pack_outbound_typed:
  assumes "pack_outbound hmac4 t now sess_id ch msg_id payload = Some (t', r)" "table_typed hmac4 t"
  shows "table_typed hmac4 t' \<and> keeps_sessions t t' \<and> (\<forall>ps. r = Inr ps \<longrightarrow> (\<forall>p \<in> set ps. sent_typed hmac4 t' p))"
proof (cases "\<exists>i c s. ch \<le> 3 \<and> find_session t sess_id = Some (i, c, s) \<and> is_active s")
  case False
  then have "t' = t \<and> (\<exists>e. r = Inl e)"
    using assms(1) by (auto simp: pack_outbound_def not_less split: if_splits option.splits)
  then show ?thesis using assms(2) by auto
next
  case True
  then obtain i c s where f: "ch \<le> 3" "find_session t sess_id = Some (i, c, s)" "is_active s" by blast
  obtain s' r' where p: "pack_session hmac4 (st_cfg t) now ch msg_id payload s = Some (s', r')"
    using assms(1) f by (auto simp: pack_outbound_def not_less [symmetric] split: bind_splits)
  obtain st where t': "t' = (store_at t i c s')\<lparr>st_stats := st\<rparr>" "r = r'"
  proof (cases r')
    case (Inl e)
    show ?thesis using assms(1) f p Inl by (intro that [of "st_stats (store_at t i c s')"]) (auto simp: pack_outbound_def not_less [symmetric])
  next
    case (Inr ps)
    show ?thesis using assms(1) f p Inr that by (auto simp: pack_outbound_def not_less [symmetric] Let_def)
  qed
  have "queues_typed hmac4 s"
    using table_typed_getD [OF assms(2)] find_session_SomeD(1) [OF table_typed_shards [OF assms(2)] f(2)] by blast
  note pt = pack_session_typed [OF p this]
  have st: "table_typed hmac4 (store_at t i c s') \<and> keeps_sessions t (store_at t i c s')
      \<and> table_get (store_at t i c s') c = Some s' \<and> se_conn_id s = c"
    using pt pack_session_SomeD [OF p] by (intro store_typed [OF assms(2) f(2)]) simp_all
  have "sent_typed hmac4 t' p" if "r = Inr ps" "p \<in> set ps" for ps p
    using pt st that t' unfolding sent_typed_def keeps_ids_def by (intro disjI1 exI [of _ c] exI [of _ s']) auto
  then show ?thesis using st t'(1) by (auto simp: keeps_sessions_def)
qed

lemma check_budget_typed:
  assumes "check_budget chk t sess_id n now = Some (t', ok)" "table_typed hmac4 t"
  shows "table_typed hmac4 t' \<and> keeps_sessions t t'"
proof (cases "find_session t sess_id")
  case None
  then show ?thesis using assms by (simp add: check_budget_def)
next
  case (Some x)
  obtain i c s where x: "find_session t sess_id = Some (i, c, s)" using Some by (cases x) auto
  obtain s' where s': "budget_step chk s n now = Some (s', ok)" "t' = store_at t i c s'"
    using assms(1) x by (auto simp: check_budget_def split: bind_splits)
  have k: "keeps_ids s s'" "session_inv s \<Longrightarrow> session_inv s'" "queues_typed hmac4 s' = queues_typed hmac4 s"
    using s'(1) by (auto simp: budget_step_def Let_def session_inv_def keeps_ids_def queues_typed_def split: option.splits if_splits)
  have "queues_typed hmac4 s"
    using table_typed_getD [OF assms(2)] find_session_SomeD(1) [OF table_typed_shards [OF assms(2)] x] by blast
  then show ?thesis using store_typed [OF assms(2) x _ k(1,2)] k(3) s'(2) by simp
qed

lemma set_budget_typed: "table_typed hmac4 t \<Longrightarrow> table_typed hmac4 (set_budget t sess_id kbps)"
proof -
  assume t: "table_typed hmac4 t"
  have "table_typed hmac4 (store_at t i c (s\<lparr>se_budget_kbps := Some kbps\<rparr>))" if x: "find_session t sess_id = Some (i, c, s)" for i c s
  proof -
    have "queues_typed hmac4 s" using table_typed_getD [OF t] find_session_SomeD(1) [OF table_typed_shards [OF t] x] by blast
    then show ?thesis
      using store_typed [OF t x, of "s\<lparr>se_budget_kbps := Some kbps\<rparr>"] by (simp add: queues_typed_def keeps_ids_def session_inv_def)
  qed
  then show ?thesis using t by (auto simp: set_budget_def split: option.split)
qed

lemma kick_typed:
  assumes "kick_session t sess_id reason = (t', r)" "table_typed hmac4 t"
  shows "table_typed hmac4 t'"
proof (cases "find_session t sess_id")
  case None
  then show ?thesis using assms by (simp add: kick_session_def)
next
  case (Some x)
  obtain i c s where x: "find_session t sess_id = Some (i, c, s)" using Some by (cases x) auto
  note sh = table_typed_shards [OF assms(2)]
  have "t' = (table_remove t c)\<lparr>st_stats := sessions_active_update decr (st_stats t)\<rparr>"
    using assms(1) x find_session_SomeD(3) [OF sh x] by (auto simp: kick_session_def table_remove_def)
  moreover have "table_typed hmac4 (table_remove t c)"
    using assms(2) sh by (auto simp: table_typed_def table_ok_def shards_ok_remove intro: sessions.all_values_remove)
  ultimately show ?thesis by simp
qed

lemma handshake_reply_typed: "length body = 8 \<Longrightarrow> \<exists>out. handshake_reply c body = Inr (out, 28)"
  by (simp add: handshake_reply_def encode_Inr_iff valid_frame_def new_frame_ref_def HEADER_LEN_def MTU_def)

lemma table_typed_field [simp]:
  "table_typed hmac4 (t\<lparr>st_pending := q\<rparr>) = table_typed hmac4 t"
  "table_typed hmac4 (t\<lparr>st_next_conn_id := a\<rparr>) = table_typed hmac4 t"
  "table_typed hmac4 (t\<lparr>st_next_sess_id := b\<rparr>) = table_typed hmac4 t"
  "table_typed hmac4 (purge_pending t now) = table_typed hmac4 t"
  by (simp_all add: table_typed_def sessions.all_values_def purge_pending_def)

lemma queues_typed_new: "queues_typed hmac4 (new_session c i peer rnd token now)"
  by (simp add: queues_typed_def new_session_def rq_new_def)

lemma handshake_typed:
  assumes "handle_handshake t peer frames rnd now = (t', ps, evs)" "table_typed hmac4 t"
  shows "table_typed hmac4 t' \<and> (\<forall>p \<in> set ps. sent_typed hmac4 t' p)"
proof -
  have r: "sent_typed hmac4 u (b, p)" if "handshake_reply c (le64 rnd) = Inr (b, n)" for u b p c n
    using handshake_reply_typed [of "le64 rnd" c] that by (auto simp: sent_typed_def)
  have n: "table_typed hmac4 (table_put u c (new_session c i peer rnd token now))" if "table_typed hmac4 u" for u c i token
    using that session_inv_new queues_typed_new by (intro table_typed_put) (simp_all add: new_session_def [THEN arg_cong [of _ _ se_conn_id]])
  show ?thesis
    using assms by (auto simp: handle_handshake_def Let_def split: list.splits option.splits if_splits sum.splits prod.splits intro!: n dest: r sym)
qed

lemma session_packet_typed:
  assumes "handle_session_packet chk t peer header frames clk now = Some (t', ps, evs)" "table_typed hmac4 t"
  shows "table_typed hmac4 t' \<and> (\<forall>p \<in> set ps. sent_typed hmac4 t' p)"
proof (cases "table_get t (dh_conn_id header)")
  case None
  then show ?thesis using assms by (auto simp: handle_session_packet_def Let_def)
next
  case (Some s)
  note sh = table_typed_shards [OF assms(2)] and q = table_typed_getD [OF assms(2) Some]
  have i: "session_inv s" using assms(2) Some table_ok_getD by (auto simp: table_typed_def)
  let ?s = "s\<lparr>se_peer := peer\<rparr>" and ?c = "dh_conn_id header"
  have e: "(if se_peer s \<noteq> peer then s\<lparr>se_peer := peer\<rparr> else s) = ?s" by simp
  note h = assms(1) [unfolded handle_session_packet_def Let_def Some option.case e]
  show ?thesis
  proof (cases "se_state s")
    case (Grace since)
    have "table_typed hmac4 (table_put (t\<lparr>st_stats := st\<rparr>) ?c (?s\<lparr>se_state := Active, se_last_rx := now\<rparr>))" for st
      using assms(2) q i queues_typed_cong [of "?s\<lparr>se_state := Active, se_last_rx := now\<rparr>" s]
      by (intro table_typed_put) (simp_all add: session_inv_def)
    then show ?thesis using h Grace by auto
  next
    case Active
    obtain st s1 st1 fast s2 st2 need where d:
        "process_acks chk (?s\<lparr>se_last_rx := now\<rparr>) st header now = Some (s1, st1, fast)"
        "dispatch_frames chk header now (s1, st1, False) frames = Some ((s2, st2, need), evs)"
        "t' = table_put (t\<lparr>st_stats := st2\<rparr>) ?c s2" "ps = map (\<lambda>b. (b, peer)) (fast @ (if need then pure_ack s2 else []))"
      using h Active by (auto split: bind_splits)
    have "queues_typed hmac4 (?s\<lparr>se_last_rx := now\<rparr>)" using q queues_typed_cong [of "?s\<lparr>se_last_rx := now\<rparr>" s] by simp
    note p = process_acks_typed [OF d(1) this] and k1 = process_acks_SomeD [OF d(1)] and k2 = dispatch_frames_SomeD [OF d(2)]
    have ids: "se_conn_id s2 = ?c" "se_secret s2 = se_secret s" "se_peer s2 = peer" "session_inv s2"
      using k1 k2 q i by (simp_all add: keeps_ids_def session_inv_def)
    have q2: "queues_typed hmac4 s2"
      using p k1(1) k2 dispatch_frames_queues [OF d(2)] queues_typed_cong [of s2 s1] by (simp add: keeps_ids_def)
    have g: "table_get t' ?c = Some s2" using sh by (simp add: d(3) table_get_put)
    have "sent_typed hmac4 t' (b, peer)" if "b \<in> set fast \<or> b \<in> set (pure_ack s2)" for b
    proof -
      have "\<exists>seq. session_packet hmac4 ?c (se_secret s) seq b"
        using that p pure_ack_typed [of b s2 hmac4] ids(1,2) q by auto
      then show ?thesis using sent_typedI [OF g] ids(2,3) by auto
    qed
    moreover have "table_typed hmac4 t'" unfolding d(3) using assms(2) q2 ids by (intro table_typed_put) simp_all
    ultimately show ?thesis using d(4) by (auto split: if_splits)
  qed
qed

lemma datagram_typed:
  assumes "handle_datagram chk hmac4 t peer raw rnd clk now = Some (t', ps, evs)" "table_typed hmac4 t"
  shows "table_typed hmac4 t' \<and> (\<forall>p \<in> set ps. sent_typed hmac4 t' p)"
  using assms handshake_typed [of "count_in (pkt_in_update incr) t" peer _ rnd now t' ps evs hmac4]
    session_packet_typed [of chk "count_in (pkt_in_update incr) t" peer _ _ clk now t' ps evs hmac4]
  by (auto simp: handle_datagram_def Let_def split: option.splits sum.splits if_splits prod.splits hmac_result.splits)

section \<open>Maintenance\<close>

lemma maintain_typed:
  assumes "maintain t now = Some (t', evs)" "table_typed hmac4 t" "cfg_ok (st_cfg t)"
  shows "table_typed hmac4 t'"
proof -
  obtain st where "t' = (sweep (\<lambda>s. \<not> closing (st_cfg t) now s) (aged (st_cfg t) now) t)\<lparr>st_stats := st\<rparr>"
    using maintain_eq [OF assms(3), of now] assms(1) by auto
  then show ?thesis
    using table_typed_sweep [OF assms(2), of "aged (st_cfg t) now"] by (simp add: aged_def queues_typed_def session_inv_def)
qed

lemma reliable_session_typed:
  assumes "queues_typed hmac4 s"
  shows "queues_typed hmac4 (fst (reliable_session now s))
    \<and> (\<forall>b \<in> set (snd (reliable_session now s)). \<exists>seq. session_packet hmac4 (se_conn_id s) (se_secret s) seq b)"
  using assms by (auto simp: reliable_session_def Let_def retransmit_due_def queues_typed_def)

lemma reliable_session_ids:
  "se_secret (fst (reliable_session now s)) = se_secret s" "se_peer (fst (reliable_session now s)) = se_peer s"
  by (simp_all add: reliable_session_def Let_def case_prod_beta)

lemma in_set_concat_map: "y \<in> set (concat (map g xs)) \<longleftrightarrow> (\<exists>x \<in> set xs. y \<in> set (g x))"
  by auto

lemma reliable_typed:
  assumes "maintain_reliable t now = (t', ps)" "table_typed hmac4 t"
  shows "table_typed hmac4 t' \<and> (\<forall>p \<in> set ps. sent_typed hmac4 t' p)"
proof -
  let ?f = "\<lambda>s. fst (reliable_session now s)"
  note sh = table_typed_shards [OF assms(2)]
  obtain st where t': "t' = (sweep (\<lambda>_. True) ?f t)\<lparr>st_stats := st\<rparr>"
    using assms(1) by (auto simp: maintain_reliable_def Let_def sweep_def case_prod_beta)
  have "table_typed hmac4 (sweep (\<lambda>_. True) ?f t)"
    by (rule table_typed_sweep [OF assms(2)]) (use reliable_session_fields reliable_session_typed in auto)
  moreover have "sent_typed hmac4 t' p" if pin: "p \<in> set ps" for p
  proof -
    define g where "g = (\<lambda>(c :: u32, s). map (\<lambda>b. (b, se_peer s)) (snd (reliable_session now s)))"
    have ps: "ps = concat (map g (concat (st_shards t)))"
      using assms(1) by (simp add: maintain_reliable_def Let_def g_def)
    obtain x where x: "x \<in> set (concat (st_shards t))" "p \<in> set (g x)"
      using pin unfolding ps in_set_concat_map by blast
    then obtain c s b where p: "(c, s) \<in> set (concat (st_shards t))" "b \<in> set (snd (reliable_session now s))" "p = (b, se_peer s)"
      by (cases x) (auto simp: g_def)
    have get: "table_get t c = Some s" using entries_iff [OF sh] p(1) by blast
    have "table_get t' c = Some (?f s)" by (simp add: t' table_get_sweep [OF sh] get)
    moreover obtain seq where "session_packet hmac4 c (se_secret s) seq b"
      using reliable_session_typed p(2) table_typed_getD [OF assms(2) get] by blast
    ultimately show ?thesis using sent_typedI [of t' c "?f s" hmac4 seq b] reliable_session_ids p(3) by simp
  qed
  ultimately show ?thesis using t' by simp
qed

lemma heartbeats_typed:
  assumes "p \<in> set (heartbeats now (for_each_session t))" "table_typed hmac4 t"
  shows "sent_typed hmac4 t p"
proof -
  obtain s where s': "s \<in> snd ` set (concat (st_shards t))" "p \<in> set (heartbeat_packet s)"
    using assms(1) unfolding heartbeats_def for_each_session_def set_map [symmetric] in_set_concat_map by auto
  then obtain c where s: "(c, s) \<in> set (concat (st_shards t))" "p \<in> set (heartbeat_packet s)"
    by (metis imageE prod.collapse)
  then have g: "table_get t c = Some s" using entries_iff [OF table_typed_shards [OF assms(2)]] by blast
  then show ?thesis using heartbeat_typed [OF s(2)] table_typed_getD [OF assms(2) g] unfolding sent_typed_def by metis
qed

section \<open>The engine\<close>

lemma push_frame_sessions [simp]: "sh_sessions (push_frame sh f d now) = sh_sessions sh"
  by (simp add: push_frame_def notify_overload_def split: option.split)

lemma push_frames_sessions: "sh_sessions (push_frames sh fs d clk) = sh_sessions sh"
  by (induction sh fs d clk rule: push_frames.induct) simp_all

lemma second_tick_sessions: "sh_sessions (second_tick sh clks now) = sh_sessions sh"
  by (simp add: second_tick_def Let_def push_frames_sessions)

lemma push_ups_sessions: "sh_sessions (push_ups sh evs clk) = sh_sessions sh"
  by (induction sh evs clk rule: push_ups.induct) (simp_all add: push_up_def)

lemma send_outbound_typed:
  assumes "send_outbound chk hmac4 udp_ok sh clk1 clk2 sess_id ch msg_id payload = Some (sh', out)" "table_typed hmac4 (sh_sessions sh)"
  shows "table_typed hmac4 (sh_sessions sh') \<and> keeps_sessions (sh_sessions sh) (sh_sessions sh')
    \<and> (\<forall>(via, p) \<in> set out. sent_typed hmac4 (sh_sessions sh') p)"
proof -
  have rt: "(\<forall>(via, q) \<in> set (snd (route_packets udp_ok u ps)). q \<in> set ps)" for u ps
  proof (induction ps arbitrary: u)
    case (Cons p ps)
    have "\<forall>(via, q) \<in> set (snd (route_packet udp_ok u p)). q = p"
      by (auto simp: route_packet_def Let_def split: prod.splits if_splits)
    then show ?case using Cons [of "fst (route_packet udp_ok u p)"] by (auto simp: Let_def case_prod_beta)
  qed simp
  obtain t r where 1: "pack_outbound hmac4 (sh_sessions sh) clk1 sess_id ch msg_id payload = Some (t, r)"
    using assms(1) by (auto simp: send_outbound_def split: bind_splits)
  note p = pack_outbound_typed [OF 1 assms(2)]
  show ?thesis
  proof (cases r)
    case (Inl e)
    then show ?thesis using assms(1) p by (auto simp: send_outbound_def 1)
  next
    case (Inr packets)
    let ?n = "of_nat (sum_list (map (length \<circ> fst) packets))"
    obtain t2 ok where 2: "check_budget chk t sess_id ?n clk2 = Some (t2, ok)"
      "(sh', out) = (if ok then route_packets udp_ok (sh\<lparr>sh_sessions := t2\<rparr>) packets
        else (count_up (dropped_down_update (incr_by ?n)) (sh\<lparr>sh_sessions := t2\<rparr>), []))"
      using assms(1) 1 Inr by (auto simp: send_outbound_def Let_def split: bind_splits if_splits)
    note b = check_budget_typed [OF 2(1), of hmac4]
    have sh': "sh_sessions sh' = t2"
      using 2(2) route_packets_fields [of udp_ok "sh\<lparr>sh_sessions := t2\<rparr>" packets] by (cases ok) (auto dest: sym)
    have "sent_typed hmac4 t2 q" if "(via, q) \<in> set out" for via q
    proof -
      have "q \<in> set packets"
      proof (cases ok)
        case True
        then have "out = snd (route_packets udp_ok (sh\<lparr>sh_sessions := t2\<rparr>) packets)" using 2(2) by (simp add: prod_eq_iff)
        then show ?thesis using that rt [of "sh\<lparr>sh_sessions := t2\<rparr>" packets] by auto
      qed (use that 2(2) in simp)
      then show ?thesis using p b Inr sent_typed_keeps by blast
    qed
    then show ?thesis using p b sh' keeps_sessions_trans by blast
  qed
qed

lemma send_each_typed:
  "send_each chk hmac4 udp_ok sh clk ids ch msg_id payload = Some (sh', out) \<Longrightarrow> table_typed hmac4 (sh_sessions sh)
    \<Longrightarrow> table_typed hmac4 (sh_sessions sh') \<and> keeps_sessions (sh_sessions sh) (sh_sessions sh')
      \<and> (\<forall>(via, p) \<in> set out. sent_typed hmac4 (sh_sessions sh') p)"
proof (induction ids arbitrary: sh clk out)
  case (Cons i ids)
  obtain sh1 o1 o2 where 1: "send_outbound chk hmac4 udp_ok sh (clk 0) (clk 1) i ch msg_id payload = Some (sh1, o1)"
      "send_each chk hmac4 udp_ok sh1 (\<lambda>n. clk (n + 2)) ids ch msg_id payload = Some (sh', o2)" "out = o1 @ o2"
    using Cons.prems(1) by (auto split: bind_splits)
  note a = send_outbound_typed [OF 1(1) Cons.prems(2)]
  then have b: "table_typed hmac4 (sh_sessions sh') \<and> keeps_sessions (sh_sessions sh1) (sh_sessions sh')
      \<and> (\<forall>(via, p) \<in> set o2. sent_typed hmac4 (sh_sessions sh') p)"
    using Cons.IH [OF 1(2)] by blast
  then have "\<forall>(via, p) \<in> set o1. sent_typed hmac4 (sh_sessions sh') p" using a sent_typed_keeps by blast
  then show ?case using a b 1(3) keeps_sessions_trans by auto
qed simp

lemma logic_frame_typed:
  assumes "handle_logic_frame chk hmac4 udp_ok sh clks frame = Some (sh', out, r)" "table_typed hmac4 (sh_sessions sh)"
  shows "table_typed hmac4 (sh_sessions sh') \<and> (\<forall>(via, p) \<in> set out. sent_typed hmac4 (sh_sessions sh') p)"
  using assms
  by (auto simp: handle_logic_frame_def Let_def set_budget_typed split: if_splits sum.splits bind_splits prod.splits
    dest: send_outbound_typed send_each_typed dest!: kick_typed)

lemma tick_typed:
  assumes "maintenance_tick sh now clks = Some (sh', out)" "table_typed hmac4 (sh_sessions sh)" "cfg_ok (st_cfg (sh_sessions sh))"
  shows "table_typed hmac4 (sh_sessions sh') \<and> (\<forall>(via, p) \<in> set out. sent_typed hmac4 (sh_sessions sh') p)"
proof -
  obtain t evs t2 ps where d: "maintain (sh_sessions sh) now = Some (t, evs)" "maintain_reliable t now = (t2, ps)" "sh_sessions sh' = t2"
      "set out \<subseteq> (\<lambda>(b, p). (ViaUdp, b, p)) ` (set ps \<union> set (heartbeats now (for_each_session t2)))"
  proof -
    obtain t evs where 1: "maintain (sh_sessions sh) now = Some (t, evs)"
      using assms(1) by (auto simp: maintenance_tick_def split: bind_splits)
    obtain t2 ps where 2: "maintain_reliable t now = (t2, ps)" by force
    show thesis using assms(1) by (intro that [OF 1 2]) (auto simp: maintenance_tick_def 1 2 Let_def push_ups_sessions)
  qed
  have t2: "table_typed hmac4 t2 \<and> (\<forall>p \<in> set ps. sent_typed hmac4 t2 p)"
    using reliable_typed [OF d(2) maintain_typed [OF d(1) assms(2,3)]] .
  then have "sent_typed hmac4 t2 p" if "(via, p) \<in> set out" for via p
    using that d(4) heartbeats_typed [of p now t2 hmac4] by auto
  then show ?thesis using t2 d(3) by blast
qed

lemma engine_step_typed:
  assumes "engine_step chk hmac4 udp_ok sh evs sh'" "table_typed hmac4 (sh_sessions sh)" "cfg_ok (st_cfg (sh_sessions sh))"
  shows "table_typed hmac4 (sh_sessions sh')"
  using assms
proof (cases rule: engine_step.cases)
  case (es_packet peer data rnd clk now t sent clks)
  then show ?thesis using datagram_typed [OF es_packet(1) assms(2)] by (auto simp: on_packet_def push_ups_sessions)
next
  case (es_logic clks frame out r)
  then show ?thesis using logic_frame_typed [OF es_logic(2) assms(2)] by blast
next
  case (es_tick now t clks out)
  then show ?thesis using tick_typed [OF es_tick(2) assms(2,3)] by blast
next
  case (es_drain t clks)
  have "\<exists>st. t = (sweep (\<lambda>_. False) id (sh_sessions sh))\<lparr>st_stats := st\<rparr>"
    using es_drain(2) by (auto simp: shutdown_all_def Let_def sweep_def case_prod_beta)
  then have "table_typed hmac4 t" using table_typed_sweep [OF assms(2), of id "\<lambda>_. False"] by auto
  then show ?thesis using es_drain by (simp add: drain_def push_ups_sessions)
qed (use second_tick_sessions link_fields write_step_fields in auto)

lemma engine_run_typed:
  "run (engine_step chk hmac4 udp_ok) sh evs sh' \<Longrightarrow> table_typed hmac4 (sh_sessions sh) \<Longrightarrow> engine_inv sh
    \<Longrightarrow> table_typed hmac4 (sh_sessions sh') \<and> engine_inv sh'"
proof (induction rule: run.induct)
  case (run_step evs s' es s'')
  have i: "table_typed hmac4 (sh_sessions s') \<and> engine_inv s'" using run_step by blast
  then have "cfg_ok (st_cfg (sh_sessions s'))" by (simp add: engine_inv_def table_inv_def)
  then show ?case
    using engine_step_typed [OF run_step.hyps(2)] engine.step_inv [OF _ run_step.hyps(2)] i by blast
qed simp

lemma engine_boot_typed:
  "cfg_ok (ec_session cfg) \<Longrightarrow> table_typed hmac4 (sh_sessions (engine_start cfg (engine_new cfg clk)))
     \<and> engine_inv (engine_start cfg (engine_new cfg clk))"
  using table_inv_new [of "ec_session cfg"]
  by (simp add: engine_inv_def engine_boot queued_def table_typed_def table_ok_new)
    (simp add: sessions.all_values_def table_get_def table_new_def shard_def)

text \<open>
  What the client of a session needs of a packet: past the check of its HMAC it decodes, and names the
  session; or it is the answer to a handshake packet, one frame of eight bytes.
\<close>

definition readable :: "(bytes \<Rightarrow> bytes \<Rightarrow> bytes) \<Rightarrow> session_table \<Rightarrow> bytes \<times> socket_addr \<Rightarrow> bool" where
  "readable hmac4 t p \<longleftrightarrow>
     (\<exists>c s body h fs. table_get t c = Some s \<and> se_peer s = snd p \<and> strip_mac hmac4 (le64 (se_secret s)) (fst p) = Some body
        \<and> decode body = Inr (h, fs) \<and> dh_conn_id h = c \<and> dh_flags h AND FLAG_HANDSHAKE = 0)
   \<or> (\<exists>h f. decode (fst p) = Inr (h, [f]) \<and> dh_flags h = FLAG_HANDSHAKE \<and> length (fr_body f) = 8)"

lemma sent_readable:
  assumes "sent_typed hmac4 t p" "\<And>k d. length (hmac4 k d) = 4"
  shows "readable hmac4 t p"
proof -
  consider (packet) c s seq where "table_get t c = Some s" "se_peer s = snd p" "session_packet hmac4 c (se_secret s) seq (fst p)"
    | (handshake) c body where "length body = 8" "handshake_reply c body = Inr (fst p, 28)"
    using assms(1) by (auto simp: sent_typed_def)
  then show ?thesis
  proof cases
    case packet
    obtain h fs where h: "sendable h fs" "dh_conn_id h = c" "dh_flags h AND FLAG_HANDSHAKE = 0"
        "fst p = client_packet h fs @ (if dh_flags h AND FLAG_HMAC \<noteq> 0 then hmac4 (le64 (se_secret s)) (client_packet h fs) else [])"
      using packet(3) by (auto simp: session_packet_def)
    have "strip_mac hmac4 (le64 (se_secret s)) (fst p) = Some (client_packet h fs)"
      using strip_signed [OF h(1), of hmac4 "le64 (se_secret s)"] strip_plain [OF h(1)] assms(2)
      by (cases "dh_flags h AND FLAG_HMAC = 0") (simp_all add: h(4))
    then show ?thesis using packet(1,2) decode_client_packet [OF h(1)] h(2,3) unfolding readable_def by blast
  next
    case handshake
    let ?h = "\<lparr>dh_version = VERSION, dh_flags = FLAG_HANDSHAKE, dh_conn_id = c, dh_seq = 0, dh_ack = 0, dh_ack_bits = 0\<rparr>"
    have "sendable ?h [new_frame_ref 0 0 body]" "fst p = client_packet ?h [new_frame_ref 0 0 body]"
      using handshake by (simp_all add: handshake_reply_def encode_Inr_iff sendable_def client_packet_def)
    then have "decode (fst p) = Inr (?h, [new_frame_ref 0 0 body])" using decode_client_packet by simp
    then show ?thesis using handshake(1) unfolding readable_def by (auto simp: new_frame_ref_def)
  qed
qed


lemma sample_on_packet:
  defines "sh \<equiv> engine_start (engine_config_default 4) (engine_new (engine_config_default 4) 0)"
  shows "\<exists>t b. on_packet False m sh peer sample_request 77 0 0 (\<lambda>_. 0) = Some (sh\<lparr>sh_sessions := t\<rparr>, [(b, peer)])"
proof -
  let ?fs = "[new_frame_ref 0 0 [1, 2, 3, 4, 5, 6, 7, 8]]" and ?t = "count_in (pkt_in_update incr) (sh_sessions sh)"
  have t: "sh_sessions sh = table_new (ec_session (engine_config_default 4))" unfolding sh_def by (rule engine_boot)
  have d: "handle_datagram False m (sh_sessions sh) peer sample_request 77 0 0 = Some (handle_handshake ?t peer ?fs 77 0)"
    unfolding sample_request_def by (rule handle_datagram_handshake [OF decode_client_packet [OF sample_sendable] sample_flags]) simp
  have "\<exists>t' b. handle_handshake ?t peer ?fs 77 0 = (t', [(b, peer)], [])"
    by (simp add: handle_handshake_def t table_new_def purge_pending_def Let_def handshake_reply_eq new_frame_ref_def
      buf_len_hint_def length_client_packet HEADER_LEN_def)
  then show ?thesis by (auto simp: on_packet_def d)
qed


end
