(* ===== verification/Load_Tools.thy ===== *)
theory Load_Tools
  imports Client_Acks Maintenance
begin

text \<open>
  The rest of the load tools: their arguments, the statistics they print, the windows \<open>bench.rs\<close>
  configures the engine with, and what their measurements are worth: the count of lost pings, echoes
  counted twice, and the time the engine takes to reap a silent session on a fast network.
\<close>

section \<open>Arguments\<close>

record load_args =
  la_clients :: nat
  la_pps :: nat
  la_duration :: nat
  la_addr :: "bytes option"

definition load_args_default :: load_args where
  "load_args_default = \<lparr>la_clients = 4, la_pps = 20, la_duration = 5, la_addr = None\<rparr>"

definition parse_or :: "nat \<Rightarrow> bytes \<Rightarrow> nat \<Rightarrow> nat" where
  "parse_or width v d = (case parse_uint width v of Some n \<Rightarrow> n | None \<Rightarrow> d)"

fun load_parse_args :: "bytes list \<Rightarrow> load_args \<Rightarrow> load_args" where
  "load_parse_args [] a = a"
| "load_parse_args (k # rest) a =
     (let v = (case rest of [] \<Rightarrow> [] | v # _ \<Rightarrow> v);
          a = (if k = ascii ''--clients'' then a\<lparr>la_clients := parse_or 64 v 4\<rparr>
               else if k = ascii ''--pps'' then a\<lparr>la_pps := parse_or 64 v 20\<rparr>
               else if k = ascii ''--duration'' then a\<lparr>la_duration := parse_or 64 v 5\<rparr>
               else if k = ascii ''--addr'' then a\<lparr>la_addr := Some v\<rparr>
               else a)
      in load_parse_args (tl rest) a)"

record interop_args =
  ia_uds :: bytes
  ia_count :: u16

definition interop_args_default :: interop_args where
  "interop_args_default = \<lparr>ia_uds = ascii ''/tmp/soup-interop.sock'', ia_count = 5\<rparr>"

fun interop_parse_args :: "bytes list \<Rightarrow> interop_args \<Rightarrow> interop_args" where
  "interop_parse_args [] a = a"
| "interop_parse_args (k # rest) a =
     (let v = (case rest of [] \<Rightarrow> [] | v # _ \<Rightarrow> v);
          a = (if k = ascii ''--uds'' then a\<lparr>ia_uds := v\<rparr>
               else if k = ascii ''--count'' then a\<lparr>ia_count := of_nat (parse_or 16 v 5)\<rparr>
               else a)
      in interop_parse_args (tl rest) a)"

lemma parse_or_dec_text: "parse_or width (dec_text n) d = (if n < 2 ^ width then n else d)"
  by (simp add: parse_or_def parse_uint_dec_text)

text \<open>The command line of the tool's own documentation, and an option that swallows the next one.\<close>

lemma load_parse_args_example:
  "load_parse_args [ascii ''--clients'', dec_text c, ascii ''--pps'', dec_text p, ascii ''--duration'', dec_text d] load_args_default
     = \<lparr>la_clients = (if c < 2 ^ 64 then c else 4), la_pps = (if p < 2 ^ 64 then p else 20),
        la_duration = (if d < 2 ^ 64 then d else 5), la_addr = None\<rparr>"
  by (simp add: parse_or_dec_text load_args_default_def ascii_def)

lemma load_parse_args_swallows:
  "load_parse_args (ascii ''--verbose'' # k # rest) a = load_parse_args rest a"
  by (simp add: ascii_def)

section \<open>Statistics\<close>

text \<open>The medians and 99th percentiles \<open>engineload.rs\<close> prints, and \<open>pct\<close> of \<open>bench.rs\<close>.\<close>

definition load_percentiles :: "rat list \<Rightarrow> rat \<times> rat" where
  "load_percentiles rtts =
     (let s = sort rtts; n = length s in
      if 0 < n then (s ! (n div 2), s ! min (f64_as_uint 64 (f64_mul (f64_round (of_nat n)) (f64_round (99 / 100)))) (n - 1))
      else (0, 0))"

definition pct :: "rat list \<Rightarrow> rat \<Rightarrow> rat" where
  "pct s p = (if s = [] then 0
     else s ! min (f64_as_uint 64 (f64_div (f64_mul (f64_round (of_nat (length s))) p) 100)) (length s - 1))"

lemma half_index:
  assumes "int n \<le> 2 ^ 53"
  shows "n div 2 \<le> f64_as_uint 64 (f64_mul (f64_round (of_nat n)) (f64_round (99 / 100)))"
proof -
  have n: "f64_round (of_nat n) = of_nat n" using f64_round_int [of "int n"] assms by simp
  have "f64_round (1 / 2) \<le> f64_round (99 / 100)" by (rule f64_round_mono) simp
  then have c: "1 / 2 \<le> f64_round (99 / 100)" using f64_round_quarters [of 4] by simp
  have "f64_round (of_nat (n div 2)) \<le> f64_round (of_nat n * f64_round (99 / 100))"
  proof (rule f64_round_mono)
    have "(of_nat (n div 2) :: rat) * 2 \<le> of_nat n"
    proof -
      have "n div 2 * 2 \<le> n" by simp
      then show ?thesis by (metis of_nat_le_iff of_nat_mult of_nat_numeral)
    qed
    moreover have "(of_nat n :: rat) * (1 / 2) \<le> of_nat n * f64_round (99 / 100)" using c by (intro mult_left_mono) simp_all
    ultimately show "of_nat (n div 2) \<le> of_nat n * f64_round (99 / 100)" by simp
  qed
  moreover have "f64_round (of_nat (n div 2)) = of_nat (n div 2)" using f64_round_int [of "int (n div 2)"] assms by simp
  ultimately have "of_nat (n div 2) \<le> f64_mul (f64_round (of_nat n)) (f64_round (99 / 100))" by (simp add: f64_mul_def n)
  then have "int (n div 2) \<le> \<lfloor>f64_mul (f64_round (of_nat n)) (f64_round (99 / 100))\<rfloor>" by (simp add: le_floor_iff)
  then have "n div 2 \<le> nat \<lfloor>f64_mul (f64_round (of_nat n)) (f64_round (99 / 100))\<rfloor>" by simp
  moreover have "n div 2 \<le> 2 ^ 64 - 1" using assms by simp
  ultimately show ?thesis by (simp add: f64_as_uint_def)
qed

text \<open>
  The printed round-trip times are samples, none when there are none, and the median is never above
  the 99th percentile; the indices are in range, so that printing them cannot panic.
\<close>

theorem percentiles_are_samples:
  assumes "rtts \<noteq> []" "length rtts \<le> 2 ^ 53"
  shows "fst (load_percentiles rtts) \<in> set rtts \<and> snd (load_percentiles rtts) \<in> set rtts
    \<and> fst (load_percentiles rtts) \<le> snd (load_percentiles rtts) \<and> pct (sort rtts) p \<in> set rtts"
proof -
  let ?s = "sort rtts" and ?n = "length rtts"
  let ?i = "f64_as_uint 64 (f64_mul (f64_round (of_nat ?n)) (f64_round (99 / 100)))"
  have n: "0 < ?n" "length ?s = ?n" using assms(1) by simp_all
  have "int ?n \<le> 2 ^ 53" using assms(2) by (metis of_nat_le_iff of_nat_numeral of_nat_power)
  then have "?n div 2 \<le> ?i" by (rule half_index)
  then have i: "?n div 2 \<le> min ?i (?n - 1)" "min ?i (?n - 1) < ?n" "?n div 2 < ?n" using n(1) by (auto simp: min_less_iff_disj)
  have "0 < length ?s" using assms(1) by simp
  then have ne: "?s \<noteq> []" by (rule length_greater_0_conv [THEN iffD1])
  have p: "load_percentiles rtts = (?s ! (?n div 2), ?s ! min ?i (?n - 1))" using n(1) ne by (simp add: load_percentiles_def Let_def)
  have m: "?s ! j \<in> set rtts" if "j < ?n" for j using that nth_mem [of j ?s] n(2) by simp
  have "?s ! (?n div 2) \<le> ?s ! min ?i (?n - 1)" using i n(2) by (intro sorted_nth_mono) simp_all
  moreover have "pct ?s p \<in> set rtts" using n(1) ne by (simp add: pct_def m min_less_iff_disj)
  ultimately show ?thesis using i m unfolding p by simp
qed

section \<open>Lost pings\<close>

lemma update_new: "k \<notin> fst ` set al \<Longrightarrow> AList.update k v al = al @ [(k, v)]"
  by (induction al) auto

lemma length_update: "length (AList.update k v al) \<le> Suc (length al)"
  by (induction al) (auto split: prod.split)

lemma length_delete: "k \<in> fst ` set al \<Longrightarrow> length (AList.delete k al) < length al"
proof -
  assume "k \<in> fst ` set al"
  then obtain x where "x \<in> set al" "fst x = k" by auto
  then show ?thesis unfolding AList.delete_eq by (intro length_filter_less [of x]) auto
qed

lemma length_note_ping: "length pending \<le> 512 \<Longrightarrow> length (note_ping pending seq now) \<le> 512"
proof -
  assume "length pending \<le> 512"
  then have l: "length (AList.update seq now pending) \<le> 513" using length_update [of seq now pending] by simp
  let ?p = "AList.update seq now pending"
  have "length (AList.delete (Min (fst ` set ?p)) ?p) < length ?p" if "512 < length ?p"
  proof (rule length_delete, rule Min_in)
    show "fst ` set ?p \<noteq> {}" using that by auto
  qed simp
  then show ?thesis using l by (fastforce simp: note_ping_def Let_def)
qed

text \<open>
  What \<open>engineload.rs\<close> counts: with a client number below \<open>2^64\<close> its main loop sends one ping per
  turn without a panic, counts them all (modulo \<open>2^64\<close>) and numbers them consecutively through any
  number of wraps; but a client never reports more than 512 pings as lost, however many of them were
  never answered.
\<close>

theorem load_run_counts:
  assumes "lc_id c < 2 ^ 64" "length (lc_pending c) \<le> 512"
  shows "\<exists>c' pkts. load_run hmac4 dur start c clks = Some (c', pkts)
    \<and> length pkts = length (takeWhile (\<lambda>(t, _). duration_since t start < dur) clks)
    \<and> lc_sent c' = lc_sent c + of_nat (length pkts) \<and> lc_seq c' = lc_seq c + of_nat (length pkts)
    \<and> length (lc_pending c') \<le> 512"
  using assms
proof (induction clks arbitrary: c)
  case (Cons k clks)
  obtain t now where k: "k = (t, now)" by force
  show ?case
  proof (cases "duration_since t start < dur")
    case True
    obtain c1 pkt where 1: "load_ping hmac4 c now = Some (c1, pkt)"
        "c1 = c\<lparr>lc_pending := note_ping (lc_pending c) (lc_seq c) now, lc_sent := lc_sent c + 1, lc_seq := lc_seq c + 1\<rparr>"
      using load_ping_eq [OF Cons.prems(1), of hmac4 now] by (simp add: Let_def)
    have "lc_id c1 < 2 ^ 64" "length (lc_pending c1) \<le> 512"
      using Cons.prems length_note_ping by (simp_all add: 1(2))
    from Cons.IH [OF this] show ?thesis using True by (auto simp: k 1(1)) (auto simp: 1(2))
  qed (use Cons.prems k in simp)
qed simp

theorem load_run_counts_witness:
  "\<exists>c' pkts. load_run (\<lambda>_ _. []) (secs 1) 0 (load_client_new 7 (1, [])) [(0, 1), (millis 500, millis 501), (secs 1, 0)] = Some (c', pkts)
    \<and> length pkts = 2 \<and> lc_sent c' = 2 \<and> length (lc_pending c') \<le> 512"
  using load_run_counts [of "load_client_new 7 (1, [])" "\<lambda>_ _. []" "secs 1" 0 "[(0, 1), (millis 500, millis 501), (secs 1, 0)]"]
  by (simp add: load_client_new_def duration_since_def) force

text \<open>
  The eviction that keeps the pending pings at 512 means the oldest and takes the one with the least
  number: just after a wrap of the sequence number that is the ping it has just sent, whose echo is
  then nobody's.
\<close>

theorem eviction_after_wrap:
  assumes "length pending = 512" "distinct (map fst pending)" "\<forall>k \<in> fst ` set pending. seq < k"
  shows "map_of (note_ping pending seq now) seq = None"
proof -
  have "seq \<notin> fst ` set pending" using assms(3) by auto
  note u = update_new [OF this, of now]
  have "Min (insert seq (fst ` set pending)) = seq" using assms(3) by (intro Min_eqI) (auto simp: less_imp_le)
  then show ?thesis using assms(1) by (simp add: note_ping_def Let_def u delete_conv')
qed

section \<open>Echoes counted twice\<close>

text \<open>
  The interoperability test takes copies for echoes: fed with one and the same echo of one ping
  (retransmitted by the engine because the test acknowledges no duplicates away, or duplicated by the
  network) it counts every copy, and reports as many echoes as pings were sent.
\<close>

theorem interop_counts_duplicates:
  assumes "strip_mac hmac4 secret (udp_recv raw) = Some data" "decode data = Inr (h, [f])"
    and "fr_ch f = CH_RELIABLE_ORDERED" "take 5 (fr_body f) = ascii ''ping-''" "0 < target"
  shows "snd (interop_receive chk hmac4 secret target (0, []) (replicate (unat target) raw)) = Returns target"
proof -
  have "snd (interop_receive chk hmac4 secret target (e, ids) (replicate n raw)) = Returns target"
    if "unat e + n = unat target" "0 < n" for n e ids
    using that
  proof (induction n arbitrary: e ids)
    case (Suc n)
    have b: "unat e + 1 < 65536" using Suc.prems(1) unsigned_less [of target, where 'a = nat] by simp
    then have e: "e \<noteq> - 1" by (auto simp: unsigned_minus_1_eq_mask mask_eq_exp_minus_1)
    have s: "unat (e + 1) = Suc (unat e)" using b by (simp add: unat_word_ariths)
    show ?case
    proof (cases n)
      case 0
      then have "e + 1 = target" using Suc.prems(1) s by (simp add: word_unat_eq_iff)
      then show ?thesis using assms(1-4) e by (simp add: 0 Let_def)
    next
      case (Suc m)
      have "\<not> target \<le> e + 1" using Suc.prems(1) s by (simp add: Suc word_le_nat_alt)
      then show ?thesis
        using assms(1-4) e Suc.IH [of "e + 1"] Suc.prems(1) s by (simp add: Suc Let_def case_prod_beta)
    qed
  qed simp
  from this [of 0 "unat target" "[]"] show ?thesis using assms(5) by (simp add: word_less_nat_alt)
qed

theorem interop_counts_duplicates_witness:
  "snd (interop_receive True (\<lambda>_ _. [1, 2, 3, 4]) [] 5 (0, []) (replicate 5
     (client_packet (ping_header 1 0) [new_frame_ref CH_RELIABLE_ORDERED 1 (ascii ''ping-0'')] @ [1, 2, 3, 4]))) = Returns 5"
proof -
  let ?h = "ping_header 1 0" and ?f = "new_frame_ref CH_RELIABLE_ORDERED 1 (ascii ''ping-0'')"
  have s: "sendable ?h [?f]" by (rule sendable_ping) (simp add: ascii_def)
  have f: "fr_ch ?f = CH_RELIABLE_ORDERED" "take 5 (fr_body ?f) = ascii ''ping-''" "(0 :: u16) < 5"
    by (simp_all add: new_frame_ref_def ascii_def)
  have "length (client_packet ?h [?f] @ [1, 2, 3, 4]) \<le> MTU"
    by (simp add: length_client_packet HEADER_LEN_def MTU_def new_frame_ref_def ascii_def)
  then have u: "udp_recv (client_packet ?h [?f] @ [1, 2, 3, 4]) = client_packet ?h [?f] @ [1, 2, 3, 4]" by (simp add: udp_recv_def)
  have m: "strip_mac (\<lambda>_ _. [1, 2, 3, 4]) [] (udp_recv (client_packet ?h [?f] @ [1, 2, 3, 4])) = Some (client_packet ?h [?f])"
    unfolding u by (rule strip_signed [OF s]) (simp_all add: ping_header_def flag_defs)
  have "unat (5 :: u16) = 5" by simp
  then show ?thesis using interop_counts_duplicates [OF m decode_client_packet [OF s] f, of True] by simp
qed

section \<open>The windows of the benchmark\<close>

text \<open>\<open>Duration::from_secs_f64\<close> rounds to the nearest nanosecond; \<open>None\<close> is its panic. \<open>mul_f64\<close> goes through it.\<close>

definition from_secs_f64 :: "rat \<Rightarrow> duration option" where
  "from_secs_f64 x = (if x < 0 \<or> 2 ^ 64 \<le> x then None else Some (nat (round_half_even (x * 1000000000))))"

definition duration_mul_f64 :: "duration \<Rightarrow> rat \<Rightarrow> duration option" where
  "duration_mul_f64 d x = from_secs_f64 (f64_mul x (as_secs_f64 d))"

text \<open>The session configuration of \<open>local_engine\<close>, for the scale given as \<open>--grace-scale\<close>.\<close>

definition bench_config :: "rat \<Rightarrow> table_config option" where
  "bench_config grace_scale = do {
     scale \<leftarrow> from_secs_f64 (if 0 < grace_scale then grace_scale else 1);
     let s = min (as_secs_f64 scale) 1;
     timeout_min \<leftarrow> duration_mul_f64 (millis 1500) s;
     timeout_max \<leftarrow> duration_mul_f64 (secs 5) s;
     reconnect_min \<leftarrow> duration_mul_f64 (secs 5) s;
     reconnect_max \<leftarrow> duration_mul_f64 (secs 20) s;
     Some (default_config\<lparr>cfg_timeout_min := max timeout_min (millis 100), cfg_timeout_max := timeout_max,
            cfg_reconnect_min := reconnect_min, cfg_reconnect_max := reconnect_max\<rparr>)
   }"

lemma as_secs_whole: "n \<le> 2 ^ 53 \<Longrightarrow> as_secs_f64 (secs n) = of_nat n"
proof -
  assume "n \<le> 2 ^ 53"
  then have "int n \<le> 2 ^ 53" by (metis of_nat_le_iff of_nat_numeral of_nat_power)
  then have "f64_round (of_nat n) = of_nat n" using f64_round_int [of "int n"] by simp
  then show ?thesis by (simp add: as_secs_f64_def f64_defs)
qed

lemma as_secs_1500: "as_secs_f64 (millis 1500) = 3 / 2"
proof -
  have h: "f64_round (1 / 2) = 1 / 2" "f64_round (1 + 1 / 2) = 3 / 2" "f64_round 1 = 1"
    using f64_round_quarters [of 4] f64_round_quarters [of 12] f64_round_int [of 1] by simp_all
  have "as_secs_f64 (millis 1500) = f64_round (f64_round 1 + f64_round (1 / 2))" by (simp add: as_secs_f64_def f64_defs)
  then show ?thesis by (simp only: h)
qed

lemma as_secs_mono:
  assumes "d \<le> 1000000000" "d \<le> e"
  shows "min (as_secs_f64 d) 1 \<le> min (as_secs_f64 e) 1"
proof (cases "e < 1000000000")
  case True
  then have "f64_round (f64_round (of_nat d / 1000000000)) \<le> f64_round (f64_round (of_nat e / 1000000000))"
    using assms by (intro f64_round_mono) (simp add: divide_right_mono)
  then show ?thesis using True assms by (simp add: as_secs_f64_def f64_defs)
next
  case False
  define q where "q = e div 1000000000"
  have "0 < q" unfolding q_def div_greater_zero_iff using False by simp
  then have "(1 :: rat) \<le> of_nat q" by simp
  then have "f64_round 1 \<le> f64_round (of_nat q)" by (rule f64_round_mono)
  moreover have one: "f64_round 1 = 1" using f64_round_int [of 1] by simp
  moreover have "0 \<le> f64_div (of_nat (e mod 1000000000)) 1000000000" by (simp add: f64_defs f64_round_nonneg)
  ultimately have "1 \<le> f64_round (of_nat q) + f64_div (of_nat (e mod 1000000000)) 1000000000" by simp
  from f64_round_mono [OF this] have "1 \<le> as_secs_f64 e" unfolding as_secs_f64_def f64_add_def q_def one .
  then show ?thesis by simp
qed

lemma as_secs_nonneg: "0 \<le> as_secs_f64 d"
  by (simp add: as_secs_f64_def f64_defs f64_round_nonneg)

lemma f64_round_fraction: "\<bar>m\<bar> \<le> 2 ^ 53 \<Longrightarrow> f64_round (of_int m / 1099511627776) = of_int m / 1099511627776"
proof -
  assume "\<bar>m\<bar> \<le> 2 ^ 53"
  moreover have "(2 :: rat) powi - 40 = 1 / 1099511627776" by (simp only: power_int_minus power_int_numeral) simp
  ultimately show ?thesis using f64_round_exact [of m "- 40"] by simp
qed

lemma round_half_even_above: "of_int n - 1 / 2 < x \<Longrightarrow> n \<le> round_half_even x"
proof -
  assume x: "of_int n - 1 / 2 < x"
  show ?thesis
  proof (cases "n \<le> \<lfloor>x\<rfloor>")
    case False
    then have f: "\<lfloor>x\<rfloor> = n - 1" using x by linarith
    then have "1 / 2 < x - of_int \<lfloor>x\<rfloor>" using x by simp
    then show ?thesis by (simp add: round_half_even_def Let_def f)
  qed (simp add: round_half_even_def Let_def)
qed

lemma mul_f64_scaled:
  assumes "0 \<le> s" "s \<le> 1" "as_secs_f64 d = x" "0 \<le> x" "x \<le> of_int n" "\<bar>n\<bar> \<le> 100"
  shows "duration_mul_f64 d s = Some (nat (round_half_even (f64_mul s x * 1000000000)))"
proof -
  have "s * x \<le> 1 * x" using assms by (intro mult_right_mono) simp_all
  then have "f64_mul s x \<le> f64_round (of_int n)" unfolding f64_mul_def using assms by (intro f64_round_mono) simp
  moreover have "f64_round (of_int n) = of_int n" using assms(6) by (intro f64_round_int) simp
  moreover have "(of_int n :: rat) \<le> of_int 100" using assms(6) by (simp only: of_int_le_iff)
  moreover have "0 \<le> f64_mul s x" using assms by (simp add: f64_mul_def f64_round_nonneg)
  ultimately show ?thesis by (simp add: duration_mul_f64_def from_secs_f64_def assms(3))
qed

lemma scaled_mono:
  assumes "0 \<le> s" "x \<le> y"
  shows "nat (round_half_even (f64_mul s x * 1000000000)) \<le> nat (round_half_even (f64_mul s y * 1000000000))"
proof -
  have "s * x \<le> s * y" using assms by (intro mult_left_mono)
  then have "f64_mul s x * 1000000000 \<le> f64_mul s y * 1000000000" unfolding f64_mul_def by (intro mult_right_mono f64_round_mono) simp_all
  then show ?thesis by (intro nat_mono round_half_even_mono)
qed

lemma bench_config_eq:
  assumes "0 < g" "g < 2 ^ 64"
  defines "s \<equiv> min (as_secs_f64 (nat (round_half_even (g * 1000000000)))) 1"
  defines "w x \<equiv> nat (round_half_even (f64_mul s x * 1000000000))"
  shows "bench_config g = Some (default_config\<lparr>cfg_timeout_min := max (w (3 / 2)) (millis 100), cfg_timeout_max := w 5,
    cfg_reconnect_min := w 5, cfg_reconnect_max := w 20\<rparr>)" and "0 \<le> s" "s \<le> 1"
proof -
  show s: "0 \<le> s" "s \<le> 1" using as_secs_nonneg by (simp_all add: s_def)
  have "duration_mul_f64 (millis 1500) s = Some (w (3 / 2))"
    using mul_f64_scaled [OF s as_secs_1500, of 2] by (simp add: w_def)
  moreover have "duration_mul_f64 (secs 5) s = Some (w 5)" "duration_mul_f64 (secs 20) s = Some (w 20)"
    using mul_f64_scaled [OF s as_secs_whole [of 5], of 5] mul_f64_scaled [OF s as_secs_whole [of 20], of 20] by (simp_all add: w_def)
  moreover have "from_secs_f64 g = Some (nat (round_half_even (g * 1000000000)))" using assms(1,2) by (simp add: from_secs_f64_def)
  ultimately show "bench_config g = Some (default_config\<lparr>cfg_timeout_min := max (w (3 / 2)) (millis 100), cfg_timeout_max := w 5,
      cfg_reconnect_min := w 5, cfg_reconnect_max := w 20\<rparr>)"
    using assms(1) unfolding bench_config_def Let_def by (simp add: s_def [symmetric])
qed

text \<open>
  The windows of the benchmark: every scale from 0.02 up (and below \<open>2^64\<close>) gives the engine a sound
  configuration; a smaller positive one does not, since the least timeout is kept at 100 ms while
  the largest shrinks below it.
\<close>

theorem bench_scale_windows:
  assumes "0 < g" "g < 2 ^ 64"
  shows "\<exists>cfg. bench_config g = Some cfg \<and> (1 / 50 \<le> g \<longrightarrow> cfg_ok cfg) \<and> (g \<le> 199 / 10000 \<longrightarrow> \<not> cfg_ok cfg)"
proof -
  define s where "s = min (as_secs_f64 (nat (round_half_even (g * 1000000000)))) 1"
  define w where "w x = nat (round_half_even (f64_mul s x * 1000000000))" for x
  note b = bench_config_eq [OF assms, folded s_def, folded w_def]
  have d: "f64_round (21990232555 / 1099511627776) = 21990232555 / 1099511627776"
    "f64_round (109951162775 / 1099511627776) = 109951162775 / 1099511627776"
    "f64_round (21935256975 / 1099511627776) = 21935256975 / 1099511627776"
    "f64_round (109676284875 / 1099511627776) = 109676284875 / 1099511627776"
    by (rule f64_round_fraction [of 21990232555, unfolded of_int_numeral], simp,
        rule f64_round_fraction [of 109951162775, unfolded of_int_numeral], simp,
        rule f64_round_fraction [of 21935256975, unfolded of_int_numeral], simp,
        rule f64_round_fraction [of 109676284875, unfolded of_int_numeral], simp)
  have big: "cfg_ok (default_config\<lparr>cfg_timeout_min := max (w (3 / 2)) (millis 100), cfg_timeout_max := w 5,
      cfg_reconnect_min := w 5, cfg_reconnect_max := w 20\<rparr>)" if g: "1 / 50 \<le> g"
  proof -
    have "of_int 20000000 \<le> g * 1000000000" using g by simp
    from round_half_even_ge_int [OF this] have "20000000 \<le> nat (round_half_even (g * 1000000000))" by simp
    then have m: "min (as_secs_f64 20000000) 1 \<le> s" unfolding s_def by (intro as_secs_mono) simp_all
    have "21990232555 / 1099511627776 \<le> f64_round (1 / 50)" by (subst d(1) [symmetric]) (rule f64_round_mono, simp)
    then have "21990232555 / 1099511627776 \<le> f64_round (f64_round (1 / 50))" by (subst d(1) [symmetric]) (rule f64_round_mono)
    then have "21990232555 / 1099511627776 \<le> min (as_secs_f64 20000000) 1" by (simp add: as_secs_f64_def f64_defs)
    then have "21990232555 / 1099511627776 \<le> s" using m by (rule order.trans)
    then have "109951162775 / 1099511627776 \<le> s * 5" by simp
    then have "109951162775 / 1099511627776 \<le> f64_mul s 5" unfolding f64_mul_def by (subst d(2) [symmetric]) (rule f64_round_mono)
    then have "of_int 100000000 - 1 / 2 < f64_mul s 5 * 1000000000" by simp
    then have "100000000 \<le> round_half_even (f64_mul s 5 * 1000000000)" by (rule round_half_even_above)
    then have "millis 100 \<le> w 5" by (simp add: w_def)
    then show ?thesis using scaled_mono [OF b(2), of "3 / 2" 5] scaled_mono [OF b(2), of 5 20] by (simp add: cfg_ok_def w_def)
  qed
  have small: "w 5 < millis 100" if g: "g \<le> 199 / 10000"
  proof -
    have "g * 1000000000 \<le> of_int 19900000" using g by simp
    from round_half_even_le_int [OF this] have "nat (round_half_even (g * 1000000000)) \<le> 19900000" by simp
    then have m: "s \<le> min (as_secs_f64 19900000) 1" unfolding s_def by (intro as_secs_mono) simp_all
    have "f64_round (199 / 10000) \<le> 21935256975 / 1099511627776" by (subst d(3) [symmetric]) (rule f64_round_mono, simp)
    then have "f64_round (f64_round (199 / 10000)) \<le> 21935256975 / 1099511627776" by (subst d(3) [symmetric]) (rule f64_round_mono)
    then have "as_secs_f64 19900000 \<le> 21935256975 / 1099511627776" by (simp add: as_secs_f64_def f64_defs)
    then have "s * 5 \<le> 109676284875 / 1099511627776" using m by simp
    then have "f64_mul s 5 \<le> 109676284875 / 1099511627776" unfolding f64_mul_def by (subst d(4) [symmetric]) (rule f64_round_mono)
    then have "f64_mul s 5 * 1000000000 \<le> of_int 99760000" by simp
    from round_half_even_le_int [OF this] show ?thesis by (simp add: w_def)
  qed
  have "\<not> cfg_ok (default_config\<lparr>cfg_timeout_min := max (w (3 / 2)) (millis 100), cfg_timeout_max := w 5,
      cfg_reconnect_min := w 5, cfg_reconnect_max := w 20\<rparr>)" if "g \<le> 199 / 10000"
    using small [OF that] by (simp add: cfg_ok_def)
  then show ?thesis using big b(1) by blast
qed

theorem bench_scale_windows_witness:
  "(\<exists>cfg. bench_config (1 / 2) = Some cfg \<and> cfg_ok cfg) \<and> (\<exists>cfg. bench_config (1 / 100) = Some cfg \<and> \<not> cfg_ok cfg)"
  using bench_scale_windows [of "1 / 2"] bench_scale_windows [of "1 / 100"] by auto

lemma those_None: "None \<in> set xs \<Longrightarrow> those xs = None"
  by (induction xs) (auto split: option.split)

text \<open>
  With such a configuration the engine stops reaping: once one active session has measured a
  round-trip time of a millisecond or more, every pass of maintenance panics, in a release build as
  well, for \<open>clamp\<close> refuses a lower bound above the upper one; no session is ever closed again.
\<close>

theorem unsound_windows_panic:
  assumes "cfg_timeout_max (st_cfg t) < cfg_timeout_min (st_cfg t)" "cfg_dynamic_timeouts (st_cfg t)"
    and "shards_ok t" "table_get t c = Some s" "se_state s = Active" "1 \<le> re_srtt_ms (se_rtt s)"
  shows "maintain t now = None"
proof -
  have "1 \<le> \<lfloor>min (re_srtt_ms (se_rtt s)) 65535\<rfloor>" using assms(6) by (simp add: le_floor_iff)
  then have "srtt_ms (se_rtt s) \<noteq> 0" by (simp add: srtt_ms_def f64_as_uint_def)
  then have "idle_grace_for (st_cfg t) s = None"
    using assms(1,2) by (simp add: idle_grace_for_def clamp_duration_def Let_def)
  then have m: "maintain_session (st_cfg t) now s = None" by (simp add: maintain_session_def assms(5))
  obtain sh where sh: "sh \<in> set (st_shards t)" "(c, s) \<in> set sh"
    using entries_iff [OF assms(3), of c s] assms(4) by auto
  have "None \<in> set (map (\<lambda>(c, s). map_option (Pair c) (maintain_session (st_cfg t) now s)) sh)"
    using sh(2) m by force
  note n = those_None [OF this]
  have "maintain_shard (st_cfg t) now sh = None" unfolding maintain_shard_def n by simp
  then have "None \<in> set (map (maintain_shard (st_cfg t) now) (st_shards t))" using sh(1) by force
  from those_None [OF this] show ?thesis by (simp add: maintain_def)
qed

theorem unsound_windows_panic_witness:
  "maintain ((table_put one_session 1 ((new_session 1 1 (V4 1 2) 7 [] 0)\<lparr>se_rtt := rtt_new\<lparr>re_srtt_ms := 3, re_sample_count := 1\<rparr>\<rparr>))
     \<lparr>st_cfg := default_config\<lparr>cfg_timeout_min := millis 100, cfg_timeout_max := millis 50\<rparr>\<rparr>) (secs 1) = None"
proof -
  let ?s = "(new_session 1 1 (V4 1 2) 7 [] 0)\<lparr>se_rtt := rtt_new\<lparr>re_srtt_ms := 3, re_sample_count := 1\<rparr>\<rparr>"
  let ?u = "table_put one_session 1 ?s" and ?cfg = "default_config\<lparr>cfg_timeout_min := millis 100, cfg_timeout_max := millis 50\<rparr>"
  have sh: "shards_ok one_session" using one_session_simps(1) by (simp only: table_ok_def)
  have g: "table_get (?u\<lparr>st_cfg := ?cfg\<rparr>) 1 = Some ?s"
    using table_get_put [OF sh, of 1 ?s 1] by (simp add: table_get_def shard_def)
  have ok: "shards_ok (?u\<lparr>st_cfg := ?cfg\<rparr>)" using shards_ok_put [OF sh, of 1 ?s] by (simp add: shards_ok_def)
  show ?thesis
    by (rule unsound_windows_panic [OF _ _ ok g]) (simp_all add: default_config_def new_session_def)
qed

section \<open>A fast network\<close>

lemma f64_sixteenths: "\<bar>m\<bar> \<le> 100 \<Longrightarrow> f64_round (of_int m / 16) = of_int m / 16"
proof -
  assume "\<bar>m\<bar> \<le> 100"
  moreover have "(2 :: rat) powi - 4 = 1 / 16" by (simp only: power_int_minus power_int_numeral) simp
  ultimately show ?thesis using f64_round_exact [of m "- 4"] by simp
qed

lemma srtt_below_half:
  assumes "0 \<le> s" "s \<le> 1 / 2" "0 \<le> x" "x \<le> 1 / 2"
  shows "0 \<le> f64_add (f64_mul (7 / 8) s) (f64_mul (1 / 8) x) \<and> f64_add (f64_mul (7 / 8) s) (f64_mul (1 / 8) x) \<le> 1 / 2"
proof -
  have e: "f64_round (7 / 16) = 7 / 16" "f64_round (1 / 16) = 1 / 16" "f64_round (1 / 2) = 1 / 2"
    using f64_sixteenths [of 7] f64_sixteenths [of 1] f64_sixteenths [of 8] by simp_all
  have "f64_round (7 / 8 * s) \<le> f64_round (7 / 16)" "f64_round (1 / 8 * x) \<le> f64_round (1 / 16)"
    using assms by (intro f64_round_mono; simp)+
  then have "f64_mul (7 / 8) s + f64_mul (1 / 8) x \<le> 1 / 2" unfolding e f64_mul_def by simp
  from f64_round_mono [OF this] have "f64_add (f64_mul (7 / 8) s) (f64_mul (1 / 8) x) \<le> 1 / 2" unfolding e f64_add_def .
  moreover have "0 \<le> f64_add (f64_mul (7 / 8) s) (f64_mul (1 / 8) x)"
    using assms unfolding f64_add_def f64_mul_def by (intro f64_round_nonneg add_nonneg_nonneg) simp_all
  ultimately show ?thesis by simp
qed

lemma rtt_run_below_half:
  assumes "\<forall>x \<in> set xs. 0 < x \<and> x \<le> 1 / 2" "0 \<le> re_srtt_ms e" "re_srtt_ms e \<le> 1 / 2"
  shows "\<exists>e'. rtt_run False e xs = Some e' \<and> 0 \<le> re_srtt_ms e' \<and> re_srtt_ms e' \<le> 1 / 2"
  using assms
proof (induction xs arbitrary: e)
  case (Cons x xs)
  have "\<exists>r. rtt_update False e x = Some r" by (simp add: rtt_update_def Let_def)
  then obtain e' t where u: "rtt_update False e x = Some (e', t)" by auto
  have "0 \<le> re_srtt_ms e' \<and> re_srtt_ms e' \<le> 1 / 2"
    using u Cons.prems srtt_below_half [of "re_srtt_ms e" x]
    by (auto simp: rtt_update_def Let_def split: if_splits)
  then show ?case using Cons.IH [of e'] Cons.prems(1) u by simp
qed simp

text \<open>
  On a fast network the engine is at its slowest: while all measured round-trip times are at most
  half a millisecond, the smoothed one in whole milliseconds is zero, which the timeouts take for a
  session without samples, and both windows are the longest there are (5 s and 20 s by default);
  one sample between one and 41 milliseconds gives the shortest (1.5 s and 5 s).
\<close>

theorem fast_network_longest_windows:
  assumes "\<forall>x \<in> set samples. 0 < x \<and> x \<le> 1 / 2" "1 \<le> y" "y \<le> 41"
  shows "\<exists>e e1. rtt_run False rtt_new samples = Some e \<and> rtt_run False rtt_new [y] = Some e1
    \<and> idle_grace_for default_config (s\<lparr>se_rtt := e\<rparr>) = Some (secs 5) \<and> reconnect_grace_for default_config (s\<lparr>se_rtt := e\<rparr>) = Some (secs 20)
    \<and> idle_grace_for default_config (s\<lparr>se_rtt := e1\<rparr>) = Some (millis 1500) \<and> reconnect_grace_for default_config (s\<lparr>se_rtt := e1\<rparr>) = Some (secs 5)"
proof -
  obtain e where e: "rtt_run False rtt_new samples = Some e" "0 \<le> re_srtt_ms e" "re_srtt_ms e \<le> 1 / 2"
    using rtt_run_below_half [OF assms(1), of rtt_new] by (auto simp: rtt_new_def)
  have "\<lfloor>min (re_srtt_ms e) 65535\<rfloor> = 0" using e(2,3) by (simp add: floor_eq_iff)
  then have z: "srtt_ms e = 0" by (simp add: srtt_ms_def f64_as_uint_def)
  obtain e1 where e1: "rtt_run False rtt_new [y] = Some e1" "re_srtt_ms e1 = y"
    using assms(2) by (auto simp: rtt_update_def rtt_new_def Let_def)
  have m: "min y 65535 = y" using assms(3) by simp
  have fl: "1 \<le> \<lfloor>y\<rfloor>" "\<lfloor>y\<rfloor> \<le> 41" using assms(2,3) by linarith+
  have "srtt_ms e1 = min (nat \<lfloor>y\<rfloor>) 65535" unfolding srtt_ms_def f64_as_uint_def e1(2) m by simp
  then have f: "1 \<le> srtt_ms e1" "srtt_ms e1 \<le> 41" using fl by arith+
  have c: "cfg_dynamic_timeouts default_config" "cfg_timeout_min default_config = millis 1500" "cfg_timeout_max default_config = secs 5"
    "cfg_reconnect_min default_config = secs 5" "cfg_reconnect_max default_config = secs 20"
    by (simp_all add: default_config_def TIMEOUT_MIN_def TIMEOUT_MAX_def RECONNECT_MIN_def RECONNECT_MAX_def)
  have "idle_grace_for default_config (s\<lparr>se_rtt := e\<rparr>) = Some (secs 5)" "reconnect_grace_for default_config (s\<lparr>se_rtt := e\<rparr>) = Some (secs 20)"
    by (simp_all add: idle_grace_for_def reconnect_grace_for_def z c)
  moreover have "idle_grace_for default_config (s\<lparr>se_rtt := e1\<rparr>) = Some (millis 1500)" "reconnect_grace_for default_config (s\<lparr>se_rtt := e1\<rparr>) = Some (secs 5)"
    using f by (simp_all add: idle_grace_for_def reconnect_grace_for_def c clamp_duration_def Let_def)
  ultimately show ?thesis using e(1) e1(1) by blast
qed

theorem fast_network_longest_windows_witness:
  "\<exists>e e1. rtt_run False rtt_new [1 / 5, 1 / 4] = Some e \<and> rtt_run False rtt_new [30] = Some e1
    \<and> idle_grace_for default_config ((new_session 1 1 (V4 1 2) 7 [] 0)\<lparr>se_rtt := e\<rparr>) = Some (secs 5)
    \<and> idle_grace_for default_config ((new_session 1 1 (V4 1 2) 7 [] 0)\<lparr>se_rtt := e1\<rparr>) = Some (millis 1500)"
  using fast_network_longest_windows [of "[1 / 5, 1 / 4]" 30 "new_session 1 1 (V4 1 2) 7 [] 0"] by auto

end
