(* ===== verification/Connection.thy ===== *)
theory Connection
  imports Trace "HOL-Library.Sublist"
begin

text \<open>
  The request/reply connection of \<open>connection.rs\<close>, \<open>req.rs\<close> and \<open>handler.rs\<close> under \<open>src/transport/\<close>:
  a read task that cuts messages off the stream and awaits the handler for each, a write task that owns
  the socket's write half, and the bounded channel of replies between them. These files are not declared
  in \<open>transport/mod.rs\<close>, and the \<open>DataPack\<close> and \<open>Message\<close> they use are not in the repository: a message
  is its id and its data, which is all the code takes from it, and \<open>pack\<close> and \<open>unpack\<close> are parameters.
\<close>

section \<open>Requests and handlers\<close>

type_synonym message = "u32 \<times> bytes"
type_synonym packer = "message \<Rightarrow> bytes"
type_synonym unpacker = "bytes \<Rightarrow> (message \<times> nat) option res"

text \<open>
  A handler gives the data it replies with, in order; it passes a failed reply on as its own error, so
  that the first failure ends it (the \<open>?\<close> of the handlers in the comments).
\<close>

type_synonym handler = "message \<Rightarrow> bytes list"

definition echo_handler :: handler where
  "echo_handler m = [snd m]"

text \<open>The packets of the replies to a request: each carries the request's id.\<close>

definition reply_packets :: "packer \<Rightarrow> handler \<Rightarrow> message \<Rightarrow> bytes list" where
  "reply_packets pack h m = map (\<lambda>d. pack (fst m, d)) (h m)"

record connection =
  co_conn_id :: u32
  co_peer :: socket_addr
  co_handler :: handler

definition connection_new :: "u32 \<Rightarrow> socket_addr \<Rightarrow> handler \<Rightarrow> connection" where
  "connection_new i peer h = \<lparr>co_conn_id = i, co_peer = peer, co_handler = h\<rparr>"

definition set_id :: "connection \<Rightarrow> u32 \<Rightarrow> connection" where
  "set_id c i = c\<lparr>co_conn_id := i\<rparr>"

definition set_handler :: "connection \<Rightarrow> handler \<Rightarrow> connection" where
  "set_handler c h = c\<lparr>co_handler := h\<rparr>"

section \<open>The two tasks\<close>

definition WRITE_QUEUE_CAP :: nat where "WRITE_QUEUE_CAP = 100"
definition READ_BUF_SIZE :: nat where "READ_BUF_SIZE = 1024"

text \<open>What the socket has for the read task: bytes, or an error. The end of the list is the peer's close.\<close>

datatype arrival = Arrived bytes | ReadFailed

text \<open>Where each task stands: the reader at its \<open>select!\<close>, at the head of the inner loop, or in the handler
  with these replies to go; the writer at its \<open>select!\<close>, in the loop after the exit signal, or out.\<close>

datatype reader = Reading | Decoding | Replying "bytes list" | ReaderDone
datatype writer = Writing | Draining | WriterDone | WriterFailed

record conn =
  cn_reads :: "arrival list"
  cn_pending :: bytes
  cn_reader :: reader
  cn_queue :: "bytes list"
  cn_open :: bool
  cn_writer :: writer
  cn_exit :: bool

definition start :: "arrival list \<Rightarrow> conn" where
  "start reads = \<lparr>cn_reads = reads, cn_pending = [], cn_reader = Reading, cn_queue = [], cn_open = True,
     cn_writer = Writing, cn_exit = False\<rparr>"

text \<open>\<open>Sender::send\<close> with \<open>Request::reply\<close>'s error: an error once the receiver is closed or gone; \<open>None\<close>
  while the channel is full, when the future waits.\<close>

definition channel_send :: "conn \<Rightarrow> bytes \<Rightarrow> conn res option" where
  "channel_send c p =
     (if \<not> cn_open c then Some (Inl ErrSend)
      else if length (cn_queue c) < WRITE_QUEUE_CAP then Some (Inr (c\<lparr>cn_queue := cn_queue c @ [p]\<rparr>))
      else None)"

definition read_some :: "conn \<Rightarrow> conn" where
  "read_some c =
     (case cn_reads c of
        Arrived b # rest \<Rightarrow>
          if b = [] then c\<lparr>cn_reader := ReaderDone\<rparr>
          else c\<lparr>cn_pending := cn_pending c @ take READ_BUF_SIZE b, cn_reader := Decoding,
                 cn_reads := (if length b \<le> READ_BUF_SIZE then rest else Arrived (drop READ_BUF_SIZE b) # rest)\<rparr>
      | _ \<Rightarrow> c\<lparr>cn_reader := ReaderDone\<rparr>)"

text \<open>One turn of the inner loop; \<open>drain\<close> past the end of the buffer panics, which ends the task.\<close>

definition decode_some :: "packer \<Rightarrow> unpacker \<Rightarrow> handler \<Rightarrow> conn \<Rightarrow> conn" where
  "decode_some pack unpack h c =
     (case unpack (cn_pending c) of
        Inr (Some (m, consumed)) \<Rightarrow>
          if length (cn_pending c) < consumed then c\<lparr>cn_reader := ReaderDone\<rparr>
          else c\<lparr>cn_pending := drop consumed (cn_pending c), cn_reader := Replying (reply_packets pack h m)\<rparr>
      | _ \<Rightarrow> c\<lparr>cn_reader := Reading\<rparr>)"

text \<open>The next step of the read task, \<open>None\<close> when it is over or waits for the channel.\<close>

definition reader_step :: "packer \<Rightarrow> unpacker \<Rightarrow> handler \<Rightarrow> conn \<Rightarrow> conn option" where
  "reader_step pack unpack h c =
     (case cn_reader c of
        Reading \<Rightarrow> Some (read_some c)
      | Decoding \<Rightarrow> Some (decode_some pack unpack h c)
      | Replying [] \<Rightarrow> Some (c\<lparr>cn_reader := Decoding\<rparr>)
      | Replying (p # ps) \<Rightarrow>
          (case channel_send c p of
             Some (Inr c') \<Rightarrow> Some (c'\<lparr>cn_reader := Replying ps\<rparr>)
           | Some (Inl e) \<Rightarrow> Some (c\<lparr>cn_reader := Decoding\<rparr>)
           | None \<Rightarrow> None)
      | ReaderDone \<Rightarrow> None)"

text \<open>
  The next step of the write task with what it writes: the next reply, \<open>written\<close> of its bytes if the
  write fails, or the end when the channel is empty and either closed or without a sender.
\<close>

definition writer_step :: "nat option \<Rightarrow> conn \<Rightarrow> (conn \<times> bytes) option" where
  "writer_step failure c =
     (if cn_writer c = Writing \<or> cn_writer c = Draining then
        (case cn_queue c of
           p # ps \<Rightarrow>
             (case failure of
                None \<Rightarrow> Some (c\<lparr>cn_queue := ps\<rparr>, p)
              | Some written \<Rightarrow> Some (c\<lparr>cn_queue := [], cn_open := False, cn_writer := WriterFailed\<rparr>, take written p))
         | [] \<Rightarrow> if cn_writer c = Draining \<or> cn_reader c = ReaderDone
                 then Some (c\<lparr>cn_open := False, cn_writer := WriterDone\<rparr>, []) else None)
      else None)"

inductive conn_step :: "packer \<Rightarrow> unpacker \<Rightarrow> handler \<Rightarrow> conn \<Rightarrow> u8 list \<Rightarrow> conn \<Rightarrow> bool"
  for pack :: packer and unpack :: unpacker and h :: handler where
  cs_signal: "\<not> cn_exit c \<Longrightarrow> conn_step pack unpack h c [] (c\<lparr>cn_exit := True\<rparr>)"
| cs_reader: "reader_step pack unpack h c = Some c' \<Longrightarrow> conn_step pack unpack h c [] c'"
| cs_reader_exit: "cn_exit c \<Longrightarrow> cn_reader c = Reading \<Longrightarrow> conn_step pack unpack h c [] (c\<lparr>cn_reader := ReaderDone\<rparr>)"
| cs_writer: "writer_step failure c = Some (c', out) \<Longrightarrow> conn_step pack unpack h c out c'"
| cs_writer_exit: "cn_exit c \<Longrightarrow> cn_writer c = Writing \<Longrightarrow>
     conn_step pack unpack h c [] (c\<lparr>cn_open := False, cn_writer := Draining\<rparr>)"

text \<open>\<open>join!\<close> returns: the connection is over.\<close>

definition finished :: "conn \<Rightarrow> bool" where
  "finished c \<longleftrightarrow> cn_reader c = ReaderDone \<and> cn_writer c \<in> {WriterDone, WriterFailed}"

text \<open>A schedule that prefers the read task and in which no write fails.\<close>

fun conn_run :: "packer \<Rightarrow> unpacker \<Rightarrow> handler \<Rightarrow> nat \<Rightarrow> conn \<Rightarrow> bytes \<times> conn" where
  "conn_run pack unpack h 0 c = ([], c)"
| "conn_run pack unpack h (Suc n) c =
     (case reader_step pack unpack h c of
        Some c' \<Rightarrow> conn_run pack unpack h n c'
      | None \<Rightarrow> (case writer_step None c of
          Some (c', out) \<Rightarrow> (let (outs, c'') = conn_run pack unpack h n c' in (out @ outs, c''))
        | None \<Rightarrow> ([], c)))"

lemma conn_run_run: "run (conn_step pack unpack h) c (fst (conn_run pack unpack h n c)) (snd (conn_run pack unpack h n c))"
proof (induction n arbitrary: c)
  case 0
  show ?case by (simp add: run.run_nil)
next
  case (Suc n)
  consider (r) c' where "reader_step pack unpack h c = Some c'"
    | (w) c' out where "reader_step pack unpack h c = None" "writer_step None c = Some (c', out)"
    | (stop) "reader_step pack unpack h c = None" "writer_step None c = None"
    by (cases "reader_step pack unpack h c"; cases "writer_step None c") auto
  then show ?case
  proof cases
    case (r c')
    from run_trans [OF Suc.IH run_single [of "conn_step pack unpack h", OF cs_reader [OF r]]] show ?thesis by (simp add: r)
  next
    case (w c' out)
    from run_trans [OF Suc.IH run_single [of "conn_step pack unpack h", OF cs_writer [OF w(2)]]] show ?thesis
      by (simp add: w case_prod_beta Let_def)
  next
    case stop
    then show ?thesis by (simp add: run.run_nil)
  qed
qed

section \<open>What the stream asks for\<close>

text \<open>All the read task will get.\<close>

fun arrived :: "arrival list \<Rightarrow> bytes" where
  "arrived [] = []"
| "arrived (Arrived b # rest) = (if b = [] then [] else b @ arrived rest)"
| "arrived (ReadFailed # rest) = []"

text \<open>
  What the connection relies on of \<open>DataPack\<close>, for a message: its packet at the front of a buffer is
  recognised with its length, and nothing is recognised in a proper prefix of it.
\<close>

definition packs :: "packer \<Rightarrow> unpacker \<Rightarrow> message \<Rightarrow> bool" where
  "packs pack unpack m \<longleftrightarrow> pack m \<noteq> [] \<and> (\<forall>r. unpack (pack m @ r) = Inr (Some (m, length (pack m))))
     \<and> (\<forall>p q x. pack m = p @ q \<and> q \<noteq> [] \<longrightarrow> unpack p \<noteq> Inr (Some x))"

definition undecodable :: "unpacker \<Rightarrow> bytes \<Rightarrow> bool" where
  "undecodable unpack tail \<longleftrightarrow> (\<forall>p q x. tail = p @ q \<longrightarrow> unpack p \<noteq> Inr (Some x))"

definition answers :: "packer \<Rightarrow> handler \<Rightarrow> message list \<Rightarrow> bytes" where
  "answers pack h ms = concat (concat (map (reply_packets pack h) ms))"

lemma answers_simps [simp]:
  "answers pack h [] = []"
  "answers pack h (m # ms) = concat (reply_packets pack h m) @ answers pack h ms"
  by (simp_all add: answers_def)

lemma answers_echo: "answers pack echo_handler ms = concat (map pack ms)"
  by (induction ms) (simp_all add: reply_packets_def echo_handler_def)

text \<open>Where the buffer stands against the rest of the stream.\<close>

lemma unpack_stream:
  assumes "pending @ later = concat (map pack rest) @ tail" "\<forall>m \<in> set rest. packs pack unpack m" "undecodable unpack tail"
  obtains (none) "\<And>x. unpack pending \<noteq> Inr (Some x)" "later = [] \<Longrightarrow> rest = []"
  | (message) m ms r where "rest = m # ms" "pending = pack m @ r" "unpack pending = Inr (Some (m, length (pack m)))"
      "r @ later = concat (map pack ms) @ tail"
proof (cases rest)
  case Nil
  then have "\<And>x. unpack pending \<noteq> Inr (Some x)" using assms(1,3) by (auto simp: undecodable_def)
  then show ?thesis using Nil by (intro none)
next
  case (Cons m ms)
  then have m: "packs pack unpack m" and eq: "pending @ later = pack m @ concat (map pack ms) @ tail" using assms(1,2) by simp_all
  show ?thesis
  proof (cases "length (pack m) \<le> length pending")
    case True
    then obtain r where r: "pending = pack m @ r" using eq by (metis append_eq_append_conv_if append_take_drop_id)
    then have "r @ later = concat (map pack ms) @ tail" using eq by simp
    then show ?thesis using Cons r m by (intro message) (simp_all add: packs_def)
  next
    case False
    then have "take (length pending) (pack m) = pending" using arg_cong [OF eq, of "take (length pending)"] by simp
    then have q: "pack m = pending @ drop (length pending) (pack m)" by (metis append_take_drop_id)
    have "drop (length pending) (pack m) \<noteq> []" using False by simp
    note q = q this
    then have "\<And>x. unpack pending \<noteq> Inr (Some x)" using m unfolding packs_def by blast
    moreover have "later \<noteq> []" using arg_cong [OF eq, of length] False by auto
    ultimately show ?thesis by (intro none) simp_all
  qed
qed

section \<open>The invariant\<close>

definition todo :: "conn \<Rightarrow> bytes list" where
  "todo c = (case cn_reader c of Replying ps \<Rightarrow> ps | _ \<Rightarrow> [])"

text \<open>
  The stream still holds the messages \<open>rest\<close>, and the bytes written so far are what the answers begin
  with: all of them are written, waiting or to come as long as the channel is open.
\<close>

definition conn_inv :: "packer \<Rightarrow> unpacker \<Rightarrow> handler \<Rightarrow> bytes \<Rightarrow> bytes \<Rightarrow> bytes \<Rightarrow> message list \<Rightarrow> conn \<Rightarrow> bool" where
  "conn_inv pack unpack h all tail out rest c \<longleftrightarrow>
     cn_pending c @ arrived (cn_reads c) = concat (map pack rest) @ tail
   \<and> (cn_open c \<longrightarrow> out @ concat (cn_queue c) @ concat (todo c) @ answers pack h rest = all)
   \<and> (\<not> cn_open c \<longrightarrow> prefix (out @ concat (cn_queue c)) all)
   \<and> (cn_writer c = Writing \<longleftrightarrow> cn_open c)
   \<and> (cn_reader c = Reading \<longrightarrow> (\<forall>x. unpack (cn_pending c) \<noteq> Inr (Some x)))
   \<and> (\<not> cn_exit c \<longrightarrow> (cn_reader c = ReaderDone \<longrightarrow> rest = [] \<and> arrived (cn_reads c) = [])
       \<and> (cn_writer c = WriterDone \<longrightarrow> cn_reader c = ReaderDone \<and> out = all) \<and> cn_writer c \<noteq> Draining)"

lemma conn_inv_prefix: "conn_inv pack unpack h all tail out rest c \<Longrightarrow> prefix (out @ concat (cn_queue c)) all"
  by (cases "cn_open c") (auto simp: conn_inv_def prefix_def)

lemma conn_inv_start:
  assumes "arrived reads = concat (map pack ms) @ tail" "\<forall>m \<in> set ms. packs pack unpack m" "undecodable unpack tail"
  shows "conn_inv pack unpack h (answers pack h ms) tail [] ms (start reads)"
proof -
  have "unpack [] \<noteq> Inr (Some x)" for x
  proof (cases ms)
    case (Cons m ms')
    then have "packs pack unpack m" using assms(2) by simp
    then show ?thesis unfolding packs_def by (metis append_Nil)
  qed (use assms(3) in \<open>simp add: undecodable_def del: split_paired_All\<close>)
  then show ?thesis using assms(1) by (simp add: conn_inv_def start_def todo_def)
qed

lemma read_some_cases:
  obtains (stop) "read_some c = c\<lparr>cn_reader := ReaderDone\<rparr>" "arrived (cn_reads c) = []"
  | (got) p rs where "read_some c = c\<lparr>cn_pending := p, cn_reader := Decoding, cn_reads := rs\<rparr>"
      "p @ arrived rs = cn_pending c @ arrived (cn_reads c)" "length (arrived rs) < length (arrived (cn_reads c))"
proof (cases "\<exists>b rest. cn_reads c = Arrived b # rest \<and> b \<noteq> []")
  case True
  then obtain b rest where b: "cn_reads c = Arrived b # rest" "b \<noteq> []" by blast
  show ?thesis
    by (rule got [of "if length b \<le> READ_BUF_SIZE then rest else Arrived (drop READ_BUF_SIZE b) # rest"
          "cn_pending c @ take READ_BUF_SIZE b"])
      (use b in \<open>auto simp: read_some_def READ_BUF_SIZE_def\<close>)
next
  case False
  then have "arrived (cn_reads c) = [] \<and> read_some c = c\<lparr>cn_reader := ReaderDone\<rparr>"
    by (auto simp: read_some_def split: list.split arrival.split)
  then show ?thesis using stop by blast
qed

lemma reader_step_inv:
  assumes "conn_inv pack unpack h all tail out rest c" "reader_step pack unpack h c = Some c'"
    and "\<forall>m \<in> set rest. packs pack unpack m" "undecodable unpack tail"
  shows "\<exists>rest'. set rest' \<subseteq> set rest \<and> conn_inv pack unpack h all tail out rest' c'"
proof (cases "cn_reader c")
  case Reading
  then have c': "c' = read_some c" and t: "todo c = []" using assms(2) by (simp_all add: reader_step_def todo_def)
  have s: "cn_pending c @ arrived (cn_reads c) = concat (map pack rest) @ tail"
    and n: "unpack (cn_pending c) \<noteq> Inr (Some x)" for x
    using assms(1) Reading by (simp_all add: conn_inv_def del: split_paired_All)
  show ?thesis
  proof (cases rule: read_some_cases [of c])
    case stop
    have "rest = []" using unpack_stream [OF s assms(3,4)] n stop(2) by metis
    then show ?thesis using assms(1) Reading stop t by (intro exI [of _ rest]) (simp add: c' conn_inv_def todo_def)
  next
    case (got p rs)
    then show ?thesis using assms(1) Reading t by (intro exI [of _ rest]) (simp add: c' conn_inv_def todo_def)
  qed
next
  case Decoding
  then have c': "c' = decode_some pack unpack h c" using assms(2) by (simp add: reader_step_def)
  have s: "cn_pending c @ arrived (cn_reads c) = concat (map pack rest) @ tail" using assms(1) by (simp add: conn_inv_def)
  from s assms(3,4) show ?thesis
  proof (cases rule: unpack_stream)
    case none
    then have "c' = c\<lparr>cn_reader := Reading\<rparr>" by (auto simp: c' decode_some_def split: sum.split option.split)
    then show ?thesis using assms(1) Decoding none(1) by (intro exI [of _ rest]) (simp add: conn_inv_def todo_def)
  next
    case (message m ms r)
    then have "c' = c\<lparr>cn_pending := r, cn_reader := Replying (reply_packets pack h m)\<rparr>" by (simp add: c' decode_some_def)
    then show ?thesis using assms(1) Decoding message(1,4) by (intro exI [of _ ms]) (auto simp: conn_inv_def todo_def)
  qed
next
  case (Replying ps)
  then show ?thesis using assms(1,2)
    by (intro exI [of _ rest])
      (auto simp: conn_inv_def todo_def reader_step_def channel_send_def split: list.splits if_splits)
qed (use assms(2) in \<open>simp add: reader_step_def\<close>)

lemma writer_step_inv:
  assumes "conn_inv pack unpack h all tail out rest c" "writer_step failure c = Some (c', w)"
  shows "conn_inv pack unpack h all tail (out @ w) rest c'"
proof (cases "cn_queue c")
  case Nil
  then have "c' = c\<lparr>cn_open := False, cn_writer := WriterDone\<rparr>" "w = []" "cn_writer c = Draining \<or> cn_reader c = ReaderDone"
      "cn_writer c = Writing \<or> cn_writer c = Draining"
    using assms(2) by (auto simp: writer_step_def split: if_splits)
  then show ?thesis using assms(1) Nil by (auto simp: conn_inv_def todo_def split: if_splits)
next
  case (Cons p ps)
  have r: "cn_writer c = Writing \<or> cn_writer c = Draining" using assms(2) by (auto simp: writer_step_def split: if_splits)
  show ?thesis
  proof (cases failure)
    case None
    then have "c' = c\<lparr>cn_queue := ps\<rparr>" "w = p" using assms(2) Cons r by (auto simp: writer_step_def)
    then show ?thesis using assms(1) Cons r by (auto simp: conn_inv_def todo_def)
  next
    case (Some k)
    have "prefix (out @ concat (cn_queue c)) all" using assms(1) by (rule conn_inv_prefix)
    moreover have "out @ concat (cn_queue c) = (out @ take k p) @ drop k p @ concat ps" using Cons by simp
    ultimately have "prefix (out @ take k p) all" by (metis append_prefixD)
    moreover have "c' = c\<lparr>cn_queue := [], cn_open := False, cn_writer := WriterFailed\<rparr>" "w = take k p"
      using assms(2) Cons r Some by (auto simp: writer_step_def)
    ultimately show ?thesis using assms(1) by (simp add: conn_inv_def todo_def)
  qed
qed

text \<open>The exit signal stops either task; what is written stays a prefix.\<close>

lemma exit_step_inv:
  assumes "conn_inv pack unpack h all tail out rest c"
  shows "conn_inv pack unpack h all tail out rest (c\<lparr>cn_exit := True\<rparr>)"
    and "cn_exit c \<Longrightarrow> cn_reader c = Reading \<Longrightarrow> conn_inv pack unpack h all tail out rest (c\<lparr>cn_reader := ReaderDone\<rparr>)"
    and "cn_exit c \<Longrightarrow> cn_writer c = Writing \<Longrightarrow>
      conn_inv pack unpack h all tail out rest (c\<lparr>cn_open := False, cn_writer := Draining\<rparr>)"
  using assms by (auto simp: conn_inv_def todo_def prefix_def split: if_splits)

lemma conn_step_inv:
  assumes "conn_step pack unpack h c w c'" "conn_inv pack unpack h all tail out rest c"
    and "\<forall>m \<in> set rest. packs pack unpack m" "undecodable unpack tail"
  shows "\<exists>rest'. set rest' \<subseteq> set rest \<and> conn_inv pack unpack h all tail (out @ w) rest' c'"
  using assms(1)
proof cases
  case cs_reader
  then show ?thesis using reader_step_inv [OF assms(2) _ assms(3,4)] by simp
next
  case (cs_writer failure)
  then show ?thesis using writer_step_inv [OF assms(2)] by blast
qed (use exit_step_inv [OF assms(2)] in auto)

lemma conn_run_inv:
  assumes "run (conn_step pack unpack h) (start reads) out c" "arrived reads = concat (map pack ms) @ tail"
    and "\<forall>m \<in> set ms. packs pack unpack m" "undecodable unpack tail"
  shows "\<exists>rest. set rest \<subseteq> set ms \<and> conn_inv pack unpack h (answers pack h ms) tail out rest c"
  using assms(1)
proof (induction rule: run.induct)
  case run_nil
  show ?case using conn_inv_start [OF assms(2-4)] by blast
next
  case (run_step out c w c')
  then obtain rest where "set rest \<subseteq> set ms" "conn_inv pack unpack h (answers pack h ms) tail out rest c" by blast
  moreover from this(1) assms(3) have "\<forall>m \<in> set rest. packs pack unpack m" by blast
  ultimately show ?case using conn_step_inv [OF run_step.hyps(2) _ _ assms(4)] by (meson subset_trans)
qed

section \<open>What a connection answers\<close>


text \<open>A small packer: one byte each for the id and the length.\<close>

definition byte_pack :: packer where
  "byte_pack m = ucast (fst m) # of_nat (length (snd m)) # snd m"

fun byte_unpack :: unpacker where
  "byte_unpack (i # n # r) = (if unat n \<le> length r then Inr (Some ((ucast i, take (unat n) r), unat n + 2)) else Inr None)"
| "byte_unpack b = Inr None"

lemma byte_packs: "ucast (ucast (fst m) :: u8) = fst m \<Longrightarrow> length (snd m) < 256 \<Longrightarrow> packs byte_pack byte_unpack m"
proof -
  assume a: "ucast (ucast (fst m) :: u8) = fst m" "length (snd m) < 256"
  then have n: "unat (of_nat (length (snd m)) :: u8) = length (snd m)" by (simp add: unat_of_nat)
  have "byte_unpack (byte_pack m @ r) = Inr (Some (m, length (byte_pack m)))" for r using a n by (simp add: byte_pack_def)
  moreover have "byte_unpack p \<noteq> Inr (Some x)" if "byte_pack m = p @ q" "q \<noteq> []" for p q x
    using that a n by (cases p rule: byte_unpack.cases) (auto simp: byte_pack_def)
  ultimately show ?thesis unfolding packs_def by (auto simp: byte_pack_def)
qed


section \<open>The connection ends\<close>

text \<open>The bound of the channel, and the writer's two faces of an open channel.\<close>

definition bounded :: "conn \<Rightarrow> bool" where
  "bounded c \<longleftrightarrow> (cn_writer c = Writing \<longleftrightarrow> cn_open c) \<and> length (cn_queue c) \<le> WRITE_QUEUE_CAP"

lemma read_some_fields [simp]:
  "cn_queue (read_some c) = cn_queue c" "cn_open (read_some c) = cn_open c"
  "cn_writer (read_some c) = cn_writer c" "cn_exit (read_some c) = cn_exit c"
  by (auto simp: read_some_def split: list.split arrival.split)

lemma decode_some_fields [simp]:
  "cn_queue (decode_some pack unpack h c) = cn_queue c" "cn_open (decode_some pack unpack h c) = cn_open c"
  "cn_writer (decode_some pack unpack h c) = cn_writer c" "cn_exit (decode_some pack unpack h c) = cn_exit c"
  "cn_reads (decode_some pack unpack h c) = cn_reads c"
  by (auto simp: decode_some_def split: sum.split option.split)

lemma reader_step_bounded: "bounded c \<Longrightarrow> reader_step pack unpack h c = Some c' \<Longrightarrow> bounded c'"
  by (auto simp: bounded_def reader_step_def channel_send_def WRITE_QUEUE_CAP_def split: reader.splits list.splits if_splits)

lemma writer_step_bounded: "bounded c \<Longrightarrow> writer_step failure c = Some (c', out) \<Longrightarrow> bounded c'"
  by (auto simp: bounded_def writer_step_def split: list.splits if_splits option.splits)

lemma conn_step_bounded: "conn_step pack unpack h c out c' \<Longrightarrow> bounded c \<Longrightarrow> bounded c'"
  by (induction rule: conn_step.induct) (auto intro: reader_step_bounded writer_step_bounded, auto simp: bounded_def)

lemma conn_run_bounded: "run (conn_step pack unpack h) (start reads) out c \<Longrightarrow> bounded c"
proof (induction rule: run.induct)
  case run_nil
  show ?case by (simp add: bounded_def start_def)
qed (rule conn_step_bounded)

text \<open>What a step uses up, in this order: stream, reads, the reader's progress, replies, queue, writer, signal.\<close>

fun reader_rank :: "reader \<Rightarrow> nat" where
  "reader_rank (Replying ps) = 3"
| "reader_rank Decoding = 2"
| "reader_rank Reading = 1"
| "reader_rank ReaderDone = 0"

fun writer_rank :: "writer \<Rightarrow> nat" where
  "writer_rank Writing = 2"
| "writer_rank Draining = 1"
| "writer_rank w = 0"

definition conn_order :: "(conn \<times> conn) set" where
  "conn_order = measures [\<lambda>c. length (cn_pending c @ arrived (cn_reads c)), \<lambda>c. length (arrived (cn_reads c)),
     \<lambda>c. reader_rank (cn_reader c), \<lambda>c. length (todo c), \<lambda>c. length (cn_queue c),
     \<lambda>c. writer_rank (cn_writer c), \<lambda>c. if cn_exit c then 0 else 1]"

lemma reader_step_decreases:
  assumes "reader_step pack unpack h c = Some c'" "\<forall>b m n. unpack b = Inr (Some (m, n)) \<longrightarrow> 0 < n"
  shows "(c', c) \<in> conn_order"
proof (cases "cn_reader c")
  case Reading
  then have c': "c' = read_some c" using assms(1) by (simp add: reader_step_def)
  show ?thesis
  proof (cases rule: read_some_cases [of c])
    case stop
    then show ?thesis using Reading by (simp add: c' conn_order_def)
  next
    case (got p rs)
    then have "length (p @ arrived rs) = length (cn_pending c @ arrived (cn_reads c))" by simp
    then show ?thesis using got(1,3) by (simp add: c' conn_order_def)
  qed
next
  case Decoding
  then have c': "c' = decode_some pack unpack h c" using assms(1) by (simp add: reader_step_def)
  show ?thesis
  proof (cases "\<exists>m n. unpack (cn_pending c) = Inr (Some (m, n)) \<and> n \<le> length (cn_pending c)")
    case True
    then obtain m n where u: "unpack (cn_pending c) = Inr (Some (m, n))" "n \<le> length (cn_pending c)" by blast
    then have "0 < n" using assms(2) by blast
    with u(2) have "length (drop n (cn_pending c)) < length (cn_pending c)" by simp
    then show ?thesis using u by (simp add: c' conn_order_def decode_some_def del: length_drop)
  next
    case False
    then show ?thesis using Decoding
      by (auto simp: c' conn_order_def decode_some_def split: sum.split option.split)
  qed
next
  case (Replying ps)
  then show ?thesis using assms(1)
    by (auto simp: reader_step_def conn_order_def todo_def channel_send_def split: list.splits if_splits)
qed (use assms(1) in \<open>simp add: reader_step_def\<close>)

lemma writer_step_decreases: "writer_step failure c = Some (c', out) \<Longrightarrow> (c', c) \<in> conn_order"
  by (auto simp: writer_step_def conn_order_def todo_def split: list.splits if_splits option.splits)

lemma conn_step_decreases:
  "conn_step pack unpack h c out c' \<Longrightarrow> \<forall>b m n. unpack b = Inr (Some (m, n)) \<longrightarrow> 0 < n \<Longrightarrow> (c', c) \<in> conn_order"
  by (induction rule: conn_step.induct) (auto intro: reader_step_decreases writer_step_decreases, auto simp: conn_order_def todo_def)

text \<open>As long as the connection is not over, one of its tasks can go on without the exit signal.\<close>

lemma conn_progress:
  assumes "bounded c" "\<not> finished c"
  shows "(\<exists>c'. reader_step pack unpack h c = Some c') \<or> (\<exists>c' out. writer_step None c = Some (c', out))"
proof (cases "reader_step pack unpack h c")
  case None
  then consider "cn_reader c = ReaderDone" | p ps where "cn_reader c = Replying (p # ps)" "cn_open c" "0 < length (cn_queue c)"
    by (auto simp del: length_greater_0_conv simp: reader_step_def channel_send_def WRITE_QUEUE_CAP_def split: reader.splits list.splits if_splits option.splits sum.splits)
  then show ?thesis
  proof cases
    case 1
    then show ?thesis using assms(2) by (cases "cn_writer c") (auto simp: finished_def writer_step_def split: list.split)
  next
    case 2
    then show ?thesis using assms(1) by (cases "cn_queue c") (auto simp: bounded_def writer_step_def)
  qed
qed simp

lemma progress_exit:
  "reader_step pack unpack h c = Some c' \<Longrightarrow> conn_step pack unpack h c [] c' \<and> cn_exit c' = cn_exit c"
  "writer_step failure c = Some (c', out) \<Longrightarrow> conn_step pack unpack h c out c' \<and> cn_exit c' = cn_exit c"
  by (auto intro: cs_reader cs_writer)
    (auto simp: reader_step_def channel_send_def writer_step_def split: reader.splits list.splits if_splits option.splits)



text \<open>
  After the exit signal has closed the channel the write task still writes the replies that wait in it,
  all of them unless a write fails.
\<close>

lemma closed_steps:
  assumes "conn_step pack unpack h c out c'" "\<not> cn_open c" "cn_writer c \<noteq> Writing"
  shows "\<not> cn_open c' \<and> cn_writer c' \<noteq> Writing \<and> (cn_writer c' \<noteq> WriterFailed \<longrightarrow> out @ concat (cn_queue c') = concat (cn_queue c))
    \<and> (cn_writer c = WriterFailed \<longrightarrow> cn_writer c' = WriterFailed) \<and> (cn_writer c = WriterDone \<longrightarrow> cn_writer c' = WriterDone \<and> cn_queue c' = cn_queue c)
    \<and> (cn_writer c' = WriterDone \<longrightarrow> cn_writer c = WriterDone \<or> cn_queue c' = [])"
  using assms(1)
proof cases
  case cs_reader
  then show ?thesis using assms(2,3)
    by (auto simp: reader_step_def channel_send_def split: reader.splits list.splits if_splits)
next
  case (cs_writer failure)
  then show ?thesis using assms(2,3)
    by (auto simp: writer_step_def split: list.splits if_splits option.splits)
qed (use assms(2,3) in auto)

theorem exit_drains_queue:
  assumes "run (conn_step pack unpack h) c out c'" "\<not> cn_open c" "cn_writer c = Draining" "cn_writer c' = WriterDone"
  shows "out = concat (cn_queue c)"
proof -
  have "\<not> cn_open c' \<and> cn_writer c' \<noteq> Writing \<and> (cn_writer c' \<noteq> WriterFailed \<longrightarrow> out @ concat (cn_queue c') = concat (cn_queue c))
      \<and> (cn_writer c' = WriterDone \<longrightarrow> cn_queue c' = [])"
    using assms(1)
  proof (induction rule: run.induct)
    case (run_step out c1 w c2)
    then show ?case using closed_steps [OF run_step.hyps(2)] by (cases "cn_writer c1") auto
  qed (use assms(2,3) in simp)
  then show ?thesis using assms(4) by auto
qed

end
