(* ===== verification/Stream_Service.thy ===== *)
theory Stream_Service
  imports Packet_Types
begin

text \<open>
  The engine behind a transport with connections (\<open>src/transport/tcp.rs\<close>, \<open>src/transport/ws.rs\<close> and
  their closures in \<open>run_with_shutdown\<close> of \<open>src/engine.rs\<close>): the connections, the tasks spawned for
  replies, the writer channels and what the write tasks put on each stream. Any interleaving of these
  with each other and with the rest of the engine is a run of \<open>svc_step\<close>, whose parameters are what the
  transports differ in: the virtual address, the route and the framing (\<open>tcp_step\<close>, \<open>ws_step\<close>). What
  a client reads from its stream are whole packets the engine sent it.
\<close>

section \<open>State\<close>

text \<open>
  By virtual address, of the last connection that was given it: what is written on its stream (bytes
  for TCP, messages for WebSocket), the rest of the frame its write task is writing, and whether that
  task has ended on an error.
\<close>

record 'a service =
  ts_shared :: shared
  ts_receiver :: receiver
  ts_spawned :: packets
  ts_streams :: "socket_addr \<Rightarrow> 'a list"
  ts_writing :: "socket_addr \<Rightarrow> 'a list"
  ts_broken :: "socket_addr \<Rightarrow> bool"

definition svc_boot :: "shared \<Rightarrow> 'a service" where
  "svc_boot sh = \<lparr>ts_shared = sh, ts_receiver = receiver_new, ts_spawned = [], ts_streams = \<lambda>_. [],
     ts_writing = \<lambda>_. [], ts_broken = \<lambda>_. False\<rparr>"

section \<open>Operations\<close>

text \<open>A connection is accepted, and its loop registers its writer (for WebSocket after the upgrade;
  when that fails only the port is used up).\<close>

definition svc_accept :: "bytes \<Rightarrow> 'a service \<Rightarrow> 'a service" where
  "svc_accept ip s =
     (let (r, peer) = accept_peer ip (ts_receiver s) in
      s\<lparr>ts_receiver := conn_open r peer, ts_streams := (ts_streams s)(peer := []),
        ts_writing := (ts_writing s)(peer := []), ts_broken := (ts_broken s)(peer := False)\<rparr>)"

text \<open>The receive callback: the engine, with one task spawned for every reply.\<close>

definition svc_receive :: "bool \<Rightarrow> (bytes \<Rightarrow> bytes \<Rightarrow> bytes) \<Rightarrow> 'a service \<Rightarrow> socket_addr \<Rightarrow> bytes \<Rightarrow> u64 \<Rightarrow> instant
    \<Rightarrow> instant \<Rightarrow> (nat \<Rightarrow> instant) \<Rightarrow> ('a service \<times> packets) option" where
  "svc_receive chk hmac4 s peer data rnd clk now clks = do {
     (sh, sent) \<leftarrow> on_packet chk hmac4 (ts_shared s) peer data rnd clk now clks;
     Some (s\<lparr>ts_shared := sh, ts_spawned := ts_spawned s @ sent\<rparr>, sent)
   }"

text \<open>One of the spawned tasks runs.\<close>

definition run_spawned :: "'a service \<Rightarrow> nat \<Rightarrow> 'a service" where
  "run_spawned s i =
     (let (b, peer) = ts_spawned s ! i in
      s\<lparr>ts_receiver := writer_try_send (ts_receiver s) b peer,
        ts_spawned := take i (ts_spawned s) @ drop (Suc i) (ts_spawned s)\<rparr>)"

text \<open>A frame of the logic server, whose packets for the sessions of this transport go to the
  writers (the write tasks take nothing in between).\<close>

fun send_via :: "route \<Rightarrow> (route \<times> bytes \<times> socket_addr) list \<Rightarrow> receiver \<Rightarrow> receiver" where
  "send_via via [] r = r"
| "send_via via ((v, b, peer) # out) r = send_via via out (if v = via then writer_try_send r b peer else r)"

fun sent_via :: "route \<Rightarrow> (route \<times> bytes \<times> socket_addr) list \<Rightarrow> packets" where
  "sent_via via [] = []"
| "sent_via via ((v, p) # out) = (if v = via then p # sent_via via out else sent_via via out)"

definition svc_downlink :: "route \<Rightarrow> bool \<Rightarrow> (bytes \<Rightarrow> bytes \<Rightarrow> bytes) \<Rightarrow> (bytes \<Rightarrow> socket_addr \<Rightarrow> bool) \<Rightarrow> 'a service
    \<Rightarrow> (nat \<Rightarrow> instant) \<Rightarrow> uds_frame \<Rightarrow> ('a service \<times> packets) option" where
  "svc_downlink via chk hmac4 udp_ok s clks frame = do {
     (sh, out, r) \<leftarrow> handle_logic_frame chk hmac4 udp_ok (ts_shared s) clks frame;
     Some (s\<lparr>ts_shared := sh, ts_receiver := send_via via out (ts_receiver s)\<rparr>, sent_via via out)
   }"

text \<open>The write task: it takes a message, and the stream takes any part of the frame, until it breaks.\<close>

definition svc_take :: "(bytes \<Rightarrow> 'a list) \<Rightarrow> 'a service \<Rightarrow> socket_addr \<Rightarrow> 'a service option" where
  "svc_take frame s peer =
     (case rc_writers (ts_receiver s) peer of
        Some (b # q) \<Rightarrow>
          if ts_writing s peer = [] \<and> \<not> ts_broken s peer
          then Some (s\<lparr>ts_receiver := (ts_receiver s)\<lparr>rc_writers := (rc_writers (ts_receiver s))(peer \<mapsto> q)\<rparr>,
                 ts_writing := (ts_writing s)(peer := frame b)\<rparr>)
          else None
      | _ \<Rightarrow> None)"

definition svc_write :: "'a service \<Rightarrow> socket_addr \<Rightarrow> nat \<Rightarrow> 'a service" where
  "svc_write s peer n =
     (if ts_broken s peer then s
      else s\<lparr>ts_streams := (ts_streams s)(peer := ts_streams s peer @ take n (ts_writing s peer)),
             ts_writing := (ts_writing s)(peer := drop n (ts_writing s peer))\<rparr>)"

definition svc_break :: "'a service \<Rightarrow> socket_addr \<Rightarrow> 'a service" where
  "svc_break s peer = s\<lparr>ts_broken := (ts_broken s)(peer := True)\<rparr>"

text \<open>The read loop ends: the writer is removed and the write task aborted.\<close>

definition svc_close :: "'a service \<Rightarrow> socket_addr \<Rightarrow> 'a service" where
  "svc_close s peer = svc_break (s\<lparr>ts_receiver := conn_close (ts_receiver s) peer\<rparr>) peer"

section \<open>Steps\<close>

text \<open>
  A step is labelled with the packets the engine sends over this transport. Everything else it does
  (packets over the other transports, timers, the link) is a step of \<open>engine_step\<close>.
\<close>

inductive svc_step :: "bytes \<Rightarrow> route \<Rightarrow> (bytes \<Rightarrow> 'a list) \<Rightarrow> bool \<Rightarrow> (bytes \<Rightarrow> bytes \<Rightarrow> bytes) \<Rightarrow> (bytes \<Rightarrow> socket_addr \<Rightarrow> bool) \<Rightarrow> 'a service
    \<Rightarrow> packets \<Rightarrow> 'a service \<Rightarrow> bool"
  for ip :: bytes and via :: route and frame :: "bytes \<Rightarrow> 'a list" and chk :: bool and hmac4 :: "bytes \<Rightarrow> bytes \<Rightarrow> bytes" and udp_ok :: "bytes \<Rightarrow> socket_addr \<Rightarrow> bool" where
  ts_accept: "svc_step ip via frame chk hmac4 udp_ok s [] (svc_accept ip s)"
| ts_refused: "via = ViaWs \<Longrightarrow> svc_step ip via frame chk hmac4 udp_ok s [] (s\<lparr>ts_receiver := fst (accept_peer ip (ts_receiver s))\<rparr>)"
| ts_receive: "svc_receive chk hmac4 s peer data rnd clk now clks = Some (s', sent) \<Longrightarrow>
     st_next_sess_id (sh_sessions (ts_shared s)) \<noteq> - 1 \<Longrightarrow> svc_step ip via frame chk hmac4 udp_ok s sent s'"
| ts_spawned: "i < length (ts_spawned s) \<Longrightarrow> svc_step ip via frame chk hmac4 udp_ok s [] (run_spawned s i)"
| ts_downlink: "svc_downlink via chk hmac4 udp_ok s clks2 lf = Some (s', sent) \<Longrightarrow> svc_step ip via frame chk hmac4 udp_ok s sent s'"
| ts_take: "svc_take frame s peer = Some s' \<Longrightarrow> svc_step ip via frame chk hmac4 udp_ok s [] s'"
| ts_write: "svc_step ip via frame chk hmac4 udp_ok s [] (svc_write s peer n)"
| ts_break: "svc_step ip via frame chk hmac4 udp_ok s [] (svc_break s peer)"
| ts_close: "svc_step ip via frame chk hmac4 udp_ok s [] (svc_close s peer)"
| ts_engine: "engine_step chk hmac4 udp_ok (ts_shared s) evs sh' \<Longrightarrow> svc_step ip via frame chk hmac4 udp_ok s [] (s\<lparr>ts_shared := sh'\<rparr>)"

abbreviation tcp_step :: "bool \<Rightarrow> (bytes \<Rightarrow> bytes \<Rightarrow> bytes) \<Rightarrow> (bytes \<Rightarrow> socket_addr \<Rightarrow> bool) \<Rightarrow> u8 service \<Rightarrow> packets \<Rightarrow> u8 service \<Rightarrow> bool" where
  "tcp_step \<equiv> svc_step TCP_VIRTUAL_IP ViaTcp tcp_frame"

text \<open>A WebSocket stream carries messages, one for each packet.\<close>

definition ws_frame :: "bytes \<Rightarrow> bytes list" where
  "ws_frame b = [b]"

abbreviation ws_step :: "bool \<Rightarrow> (bytes \<Rightarrow> bytes \<Rightarrow> bytes) \<Rightarrow> (bytes \<Rightarrow> socket_addr \<Rightarrow> bool) \<Rightarrow> bytes service \<Rightarrow> packets \<Rightarrow> bytes service \<Rightarrow> bool" where
  "ws_step \<equiv> svc_step WS_VIRTUAL_IP ViaWs ws_frame"

inductive_cases svc_stepE: "svc_step ip via frame chk hmac4 udp_ok s sent s'"

section \<open>Accounting\<close>

definition writer_queue :: "receiver \<Rightarrow> socket_addr \<Rightarrow> bytes list" where
  "writer_queue r peer = (case rc_writers r peer of None \<Rightarrow> [] | Some q \<Rightarrow> q)"

text \<open>
  Each stream with the rest of its frame is a sequence of whole frames, and the messages in them, those
  in the writer's channel and those of spawned tasks are covered by what was sent to that address.
\<close>

definition svc_inv :: "(bytes \<Rightarrow> 'a list) \<Rightarrow> packets \<Rightarrow> 'a service \<Rightarrow> bool" where
  "svc_inv frame sent s \<longleftrightarrow> (\<forall>peer. \<exists>ps. ts_streams s peer @ ts_writing s peer = concat (map frame ps)
     \<and> (\<forall>b. count_list ps b + count_list (writer_queue (ts_receiver s) peer) b + count_list (ts_spawned s) (b, peer)
          \<le> count_list sent (b, peer)))"

lemma svc_invI:
  assumes "\<And>peer. \<exists>ps. ts_streams s peer @ ts_writing s peer = concat (map frame ps)
    \<and> (\<forall>b. count_list ps b + count_list (writer_queue (ts_receiver s) peer) b + count_list (ts_spawned s) (b, peer)
          \<le> count_list sent (b, peer))"
  shows "svc_inv frame sent s"
  using assms unfolding svc_inv_def by blast

lemma svc_invE:
  assumes "svc_inv frame sent s"
  obtains ps where "ts_streams s peer @ ts_writing s peer = concat (map frame ps)"
    "\<And>b. count_list ps b + count_list (writer_queue (ts_receiver s) peer) b + count_list (ts_spawned s) (b, peer)
       \<le> count_list sent (b, peer)"
  using assms unfolding svc_inv_def by blast

text \<open>Steps that leave the streams alone and owe no more than before and what they send.\<close>

lemma svc_inv_owed:
  assumes "svc_inv frame sent s" "ts_streams s' = ts_streams s" "ts_writing s' = ts_writing s"
    and "\<And>b peer. count_list (writer_queue (ts_receiver s') peer) b + count_list (ts_spawned s') (b, peer)
      \<le> count_list (writer_queue (ts_receiver s) peer) b + count_list (ts_spawned s) (b, peer) + count_list new (b, peer)"
  shows "svc_inv frame (sent @ new) s'"
proof (rule svc_invI)
  fix peer
  obtain ps where ps: "ts_streams s peer @ ts_writing s peer = concat (map frame ps)"
    "\<And>b. count_list ps b + count_list (writer_queue (ts_receiver s) peer) b + count_list (ts_spawned s) (b, peer)
       \<le> count_list sent (b, peer)"
    by (rule svc_invE [OF assms(1), of peer]) (rule that)
  have "count_list ps b + count_list (writer_queue (ts_receiver s') peer) b + count_list (ts_spawned s') (b, peer)
      \<le> count_list (sent @ new) (b, peer)" for b
    using ps(2) [of b] assms(4) [of peer b] by simp
  then show "\<exists>ps. ts_streams s' peer @ ts_writing s' peer = concat (map frame ps)
      \<and> (\<forall>b. count_list ps b + count_list (writer_queue (ts_receiver s') peer) b + count_list (ts_spawned s') (b, peer)
          \<le> count_list (sent @ new) (b, peer))"
    using ps(1) assms(2,3) by auto
qed

lemma count_try_send:
  "count_list (writer_queue (writer_try_send r b peer) peer') b' \<le> count_list (writer_queue r peer') b' + count_list [(b, peer)] (b', peer')"
  by (auto simp: writer_try_send_def writer_queue_def split: option.split)

lemma count_send_via:
  "count_list (writer_queue (send_via via out r) peer) b \<le> count_list (writer_queue r peer) b + count_list (sent_via via out) (b, peer)"
proof (induction out arbitrary: r)
  case (Cons x out)
  obtain v c p where x: "x = (v, c, p)" by (cases x)
  show ?case using Cons [of "writer_try_send r c p"] Cons [of r] count_try_send [of r c p peer b]
    by (auto simp: x)
qed simp

lemma count_remove: "i < length xs \<Longrightarrow> count_list (take i xs @ drop (Suc i) xs) x + count_list [xs ! i] x = count_list xs x"
  by (subst (3) id_take_nth_drop [of i xs]) simp_all

lemma svc_step_inv:
  assumes "svc_step ip via frame chk hmac4 udp_ok s new s'" "svc_inv frame sent s"
  shows "svc_inv frame (sent @ new) s'"
  using assms(1)
proof cases
  case (ts_receive peer data rnd clk now clks)
  then show ?thesis by (intro svc_inv_owed [OF assms(2)]) (auto simp: svc_receive_def split: bind_splits)
next
  case (ts_spawned i)
  show ?thesis
  proof (rule svc_inv_owed [OF assms(2)])
    fix b peer
    obtain c p where i: "ts_spawned s ! i = (c, p)" by fastforce
    show "count_list (writer_queue (ts_receiver s') peer) b + count_list (ts_spawned s') (b, peer)
      \<le> count_list (writer_queue (ts_receiver s) peer) b + count_list (ts_spawned s) (b, peer) + count_list new (b, peer)"
      using count_try_send [of "ts_receiver s" c p peer b] count_remove [OF ts_spawned(3), of "(b, peer)"]
      by (simp add: ts_spawned(2) run_spawned_def i)
  qed (simp_all add: ts_spawned(2) run_spawned_def case_prod_beta Let_def)
next
  case (ts_downlink clks2 lf)
  then obtain sh out where s': "s' = s\<lparr>ts_shared := sh, ts_receiver := send_via via out (ts_receiver s)\<rparr>" "new = sent_via via out"
    by (auto simp: svc_downlink_def split: bind_splits)
  show ?thesis by (intro svc_inv_owed [OF assms(2)]) (simp_all add: s' count_send_via)
next
  case ts_accept
  define new_peer where "new_peer = V4 (of_le ip) (rc_next_port (ts_receiver s))"
  have q: "writer_queue (ts_receiver s') p = (if p = new_peer then [] else writer_queue (ts_receiver s) p)"
      "ts_streams s' p @ ts_writing s' p = (if p = new_peer then [] else ts_streams s p @ ts_writing s p)"
      "ts_spawned s' = ts_spawned s" "new = []" for p
    by (simp_all add: ts_accept svc_accept_def accept_peer_def conn_open_def writer_queue_def Let_def new_peer_def)
  show ?thesis
  proof (rule svc_invI)
    fix p
    obtain ps where ps: "ts_streams s p @ ts_writing s p = concat (map frame ps)"
      "\<And>b. count_list ps b + count_list (writer_queue (ts_receiver s) p) b + count_list (ts_spawned s) (b, p) \<le> count_list sent (b, p)"
      by (rule svc_invE [OF assms(2), of p]) (rule that)
    have "count_list (ts_spawned s) (b, p) \<le> count_list sent (b, p)" for b using ps(2) [of b] by simp
    then show "\<exists>ps. ts_streams s' p @ ts_writing s' p = concat (map frame ps)
      \<and> (\<forall>b. count_list ps b + count_list (writer_queue (ts_receiver s') p) b + count_list (ts_spawned s') (b, p)
          \<le> count_list (sent @ new) (b, p))"
      unfolding q using ps by (cases "p = new_peer") (auto intro: exI [of _ "[]"])
  qed
next
  case ts_refused
  then show ?thesis using svc_inv_owed [OF assms(2), of s' "[]"] by (simp add: accept_peer_def writer_queue_def)
next
  case (ts_take peer)
  then obtain b q where q: "rc_writers (ts_receiver s) peer = Some (b # q)" "ts_writing s peer = []"
      "s' = s\<lparr>ts_receiver := (ts_receiver s)\<lparr>rc_writers := (rc_writers (ts_receiver s))(peer \<mapsto> q)\<rparr>,
                 ts_writing := (ts_writing s)(peer := frame b)\<rparr>"
    by (auto simp: svc_take_def split: option.splits list.splits if_splits)
  show ?thesis
  proof (rule svc_invI)
    fix p
    obtain ps where ps: "ts_streams s p @ ts_writing s p = concat (map frame ps)"
      "\<And>b. count_list ps b + count_list (writer_queue (ts_receiver s) p) b + count_list (ts_spawned s) (b, p) \<le> count_list sent (b, p)"
      by (rule svc_invE [OF assms(2), of p]) (rule that)
    show "\<exists>ps. ts_streams s' p @ ts_writing s' p = concat (map frame ps)
      \<and> (\<forall>b. count_list ps b + count_list (writer_queue (ts_receiver s') p) b + count_list (ts_spawned s') (b, p)
          \<le> count_list (sent @ new) (b, p))"
    proof (cases "p = peer")
      case True
      have "count_list (ps @ [b]) c + count_list q c + count_list (ts_spawned s) (c, p) \<le> count_list sent (c, p)" for c
        using ps(2) [of c] q(1) True by (auto simp: writer_queue_def)
      then show ?thesis using ps(1) q ts_take True by (intro exI [of _ "ps @ [b]"]) (simp add: writer_queue_def)
    next
      case False
      then show ?thesis using ps q(3) ts_take by (intro exI [of _ ps]) (simp add: writer_queue_def)
    qed
  qed
next
  case (ts_write peer n)
  have "ts_streams s' p @ ts_writing s' p = ts_streams s p @ ts_writing s p" for p
    by (simp add: ts_write svc_write_def)
  then show ?thesis using assms(2) by (simp add: svc_inv_def ts_write(1)) (simp add: ts_write svc_write_def)
next
  case (ts_break peer)
  then show ?thesis using svc_inv_owed [OF assms(2), of s' "[]"] by (simp add: svc_break_def)
next
  case (ts_close peer)
  then show ?thesis using svc_inv_owed [OF assms(2), of s' "[]"]
    by (simp add: svc_close_def svc_break_def conn_close_def writer_queue_def)
next
  case (ts_engine evs sh')
  then show ?thesis using svc_inv_owed [OF assms(2), of s' "[]"] by simp
qed

lemma svc_run_inv: "run (svc_step ip via frame chk hmac4 udp_ok) (svc_boot sh) sent s \<Longrightarrow> svc_inv frame sent s"
proof (induction rule: run.induct)
  case run_nil
  show ?case by (rule svc_invI, rule exI [of _ "[]"]) (simp add: svc_boot_def receiver_new_def writer_queue_def)
qed (rule svc_step_inv)

section \<open>What is sent\<close>

lemma sent_bounds:
  assumes "sent_typed hmac4 t p" "\<forall>k d. length (hmac4 k d) = 4"
  shows "16 \<le> length (fst p) \<and> length (fst p) \<le> 1204"
proof -
  consider h fs k where "sendable h fs" "fst p = client_packet h fs @ (if dh_flags h AND FLAG_HMAC \<noteq> 0 then hmac4 k (client_packet h fs) else [])"
    | c body where "length body = 8" "handshake_reply c body = Inr (fst p, 28)"
    using assms(1) unfolding sent_typed_def session_packet_def by blast
  then show ?thesis
  proof cases
    case 1
    then show ?thesis using assms(2) by (simp add: sendable_def length_client_packet HEADER_LEN_def MTU_def)
  next
    case 2
    let ?h = "\<lparr>dh_version = VERSION, dh_flags = FLAG_HANDSHAKE, dh_conn_id = c, dh_seq = 0, dh_ack = 0, dh_ack_bits = 0\<rparr>"
    have "fst p = client_packet ?h [new_frame_ref 0 0 body]" using 2(2) handshake_reply_eq [OF 2(1), of c] by simp
    then show ?thesis using 2(1) by (simp add: length_client_packet HEADER_LEN_def new_frame_ref_def)
  qed
qed

lemma sent_via_subset: "p \<in> set (sent_via via out) \<Longrightarrow> \<exists>v. (v, p) \<in> set out"
  by (induction via out rule: sent_via.induct) (auto split: if_splits)

definition sent_sizes :: "packets \<Rightarrow> bool" where
  "sent_sizes sent \<longleftrightarrow> (\<forall>p \<in> set sent. 16 \<le> length (fst p) \<and> length (fst p) \<le> 1204)"

lemma engine_step_keeps:
  assumes "engine_step chk hmac4 udp_ok sh evs sh'" "table_typed hmac4 (sh_sessions sh) \<and> engine_inv sh"
  shows "table_typed hmac4 (sh_sessions sh') \<and> engine_inv sh'"
  using engine_step_typed [OF assms(1)] engine.step_inv [OF _ assms(1)] assms(2) by (simp add: engine_inv_def table_inv_def)

lemma svc_step_keeps:
  assumes "svc_step ip via frame chk hmac4 udp_ok s sent s'" "table_typed hmac4 (sh_sessions (ts_shared s)) \<and> engine_inv (ts_shared s)"
    and "\<forall>k d. length (hmac4 k d) = 4"
  shows "(table_typed hmac4 (sh_sessions (ts_shared s')) \<and> engine_inv (ts_shared s')) \<and> sent_sizes sent"
  using assms(1)
proof cases
  case (ts_receive peer data rnd clk now clks)
  then obtain sh where p: "on_packet chk hmac4 (ts_shared s) peer data rnd clk now clks = Some (sh, sent)" "ts_shared s' = sh"
    by (auto simp: svc_receive_def split: bind_splits)
  then obtain t evs where d: "handle_datagram chk hmac4 (sh_sessions (ts_shared s)) peer data rnd clk now = Some (t, sent, evs)"
    by (auto simp: on_packet_def split: bind_splits)
  have "\<forall>q \<in> set sent. sent_typed hmac4 t q" using datagram_typed [OF d] assms(2) by blast
  then show ?thesis using engine_step_keeps [OF es_packet [OF d p(1) ts_receive(2)] assms(2)] sent_bounds [OF _ assms(3)] p(2)
    by (auto simp: sent_sizes_def)
next
  case (ts_downlink clks2 lf)
  then obtain sh out r where p: "handle_logic_frame chk hmac4 udp_ok (ts_shared s) clks2 lf = Some (sh, out, r)"
      "ts_shared s' = sh" "sent = sent_via via out"
    by (auto simp: svc_downlink_def split: bind_splits)
  have "\<forall>(via, q) \<in> set out. sent_typed hmac4 (sh_sessions sh) q" using logic_frame_typed [OF p(1)] assms(2) by blast
  then have "\<forall>q \<in> set sent. sent_typed hmac4 (sh_sessions sh) q" unfolding p(3) by (auto dest!: sent_via_subset)
  then show ?thesis using engine_step_keeps [OF es_logic [OF p(1)] assms(2)] sent_bounds [OF _ assms(3)] p(2)
    by (auto simp: sent_sizes_def)
next
  case (ts_engine evs sh')
  then show ?thesis using engine_step_keeps [OF ts_engine(3) assms(2)] by (simp add: sent_sizes_def)
qed (use assms(2) in \<open>auto simp: sent_sizes_def svc_accept_def run_spawned_def svc_take_def svc_write_def svc_break_def
    svc_close_def Let_def case_prod_beta split: option.splits list.splits if_splits\<close>)

lemma svc_run_keeps:
  assumes "run (svc_step ip via frame chk hmac4 udp_ok) (svc_boot sh) sent s" "table_typed hmac4 (sh_sessions sh) \<and> engine_inv sh"
    and "\<forall>k d. length (hmac4 k d) = 4"
  shows "(table_typed hmac4 (sh_sessions (ts_shared s)) \<and> engine_inv (ts_shared s)) \<and> sent_sizes sent"
  using assms(1)
proof (induction rule: run.induct)
  case run_nil
  show ?case using assms(2) by (simp add: svc_boot_def sent_sizes_def)
next
  case (run_step sent s new s')
  then show ?case using svc_step_keeps [OF run_step.hyps(2) _ assms(3)] by (auto simp: sent_sizes_def)
qed

section \<open>What the client reads\<close>

lemma frames_so_far:
  assumes "\<forall>m \<in> set ps. tcp_ok m" "stream @ rest = concat (map tcp_frame ps)"
  shows "\<exists>n. tcp_conn_loop stream = take n ps \<and> (rest = [] \<longrightarrow> tcp_conn_loop stream = ps)"
  using assms
proof (induction ps arbitrary: stream)
  case Nil
  then show ?case by (simp add: tcp_conn_loop.simps [of "[]"] tcp_cut_def)
next
  case (Cons m ps)
  have m: "tcp_ok m" and eq: "stream @ rest = tcp_frame m @ concat (map tcp_frame ps)" using Cons.prems by simp_all
  from m eq show ?case
  proof (cases rule: tcp.cut_stream)
    case partial
    then have "tcp_conn_loop stream = []" by (simp add: tcp_conn_loop.simps [of stream])
    moreover have "rest \<noteq> []" using arg_cong [OF eq, of length] partial(1) by auto
    ultimately show ?thesis by (intro exI [of _ 0]) simp
  next
    case (complete r)
    then obtain n where "tcp_conn_loop r = take n ps \<and> (rest = [] \<longrightarrow> tcp_conn_loop r = ps)"
      using Cons.IH [of r] Cons.prems(1) by auto
    then show ?thesis using complete(1) by (intro exI [of _ "Suc n"], subst (1 2) tcp_conn_loop.simps) auto
  qed
qed

lemma count_take: "count_list (take n xs) x \<le> count_list xs x"
  using count_list_append [of "take n xs" "drop n xs" x] by simp

lemma svc_sent_to:
  assumes "run (svc_step ip via frame chk hmac4 udp_ok) (svc_boot sh) sent s"
  obtains ps where "ts_streams s peer @ ts_writing s peer = concat (map frame ps)" "\<And>b. count_list ps b \<le> count_list sent (b, peer)"
proof -
  obtain ps where ps: "ts_streams s peer @ ts_writing s peer = concat (map frame ps)"
    "\<And>b. count_list ps b + count_list (writer_queue (ts_receiver s) peer) b + count_list (ts_spawned s) (b, peer) \<le> count_list sent (b, peer)"
    by (rule svc_invE [OF svc_run_inv [OF assms], of peer]) (rule that)
  then show ?thesis using that by (meson add_leD1)
qed

text \<open>WebSocket clients likewise: each message on the stream is a packet sent to that connection.\<close>

theorem ws_clients_read_sent_packets:
  assumes "run (ws_step chk hmac4 udp_ok) (svc_boot sh) sent s"
  shows "count_list (ts_streams s peer) b \<le> count_list sent (b, peer)"
proof -
  obtain ps where ps: "ts_streams s peer @ ts_writing s peer = concat (map ws_frame ps)" "\<And>b. count_list ps b \<le> count_list sent (b, peer)"
    by (rule svc_sent_to [OF assms, of peer]) (rule that)
  have "concat (map ws_frame ps) = ps" by (induction ps) (simp_all add: ws_frame_def)
  then have "count_list (ts_streams s peer) b \<le> count_list ps b" using ps(1) by (metis count_list_append le_add1)
  then show ?thesis using ps(2) [of b] by simp
qed

text \<open>
  C28. TCP clients read whole packets that were sent to them. From a fresh engine with a sound
  configuration, over any interleaving of accepted and closed connections, received messages, spawned
  reply tasks, frames of the logic server, writes that break off anywhere, and everything else the
  engine does: what a client cuts off its stream are packets the engine sent to its connection, each
  no more often than it was sent; between two writes the stream holds nothing else; and every packet
  sent over TCP has between 16 and 1204 bytes, so that its frame is legal.
\<close>

theorem tcp_clients_read_whole_packets:
  assumes "cfg_ok (ec_session cfg)" "\<And>k d. length (hmac4 k d) = 4"
    and "run (tcp_step chk hmac4 udp_ok) (svc_boot (engine_start cfg (engine_new cfg clk0))) sent s"
  shows "(\<forall>b. count_list (tcp_conn_loop (ts_streams s peer)) b \<le> count_list sent (b, peer))
    \<and> (ts_writing s peer = [] \<longrightarrow> ts_streams s peer = concat (map tcp_frame (tcp_conn_loop (ts_streams s peer))))
    \<and> (\<forall>p \<in> set sent. 16 \<le> length (fst p) \<and> length (fst p) \<le> 1204)"
proof -
  obtain ps where ps: "ts_streams s peer @ ts_writing s peer = concat (map tcp_frame ps)" "\<And>b. count_list ps b \<le> count_list sent (b, peer)"
    by (rule svc_sent_to [OF assms(3), of peer]) (rule that)
  have z: "\<forall>p \<in> set sent. 16 \<le> length (fst p) \<and> length (fst p) \<le> 1204"
    using svc_run_keeps [OF assms(3) engine_boot_typed [OF assms(1)]] assms(2) by (simp add: sent_sizes_def)
  have "tcp_ok b" if "b \<in> set ps" for b
  proof -
    have "count_list ps b \<noteq> 0" using that by (simp add: count_list_0_iff)
    then have "count_list sent (b, peer) \<noteq> 0" using ps(2) [of b] by simp
    then have "(b, peer) \<in> set sent" by (metis count_notin)
    then show ?thesis using z by (fastforce simp: tcp_ok_def TCP_MAX_LEN_def)
  qed
  then obtain n where n: "tcp_conn_loop (ts_streams s peer) = take n ps"
      "ts_writing s peer = [] \<Longrightarrow> tcp_conn_loop (ts_streams s peer) = ps"
    using frames_so_far [OF _ ps(1)] by blast
  then show ?thesis using ps(1) z le_trans [OF count_take ps(2)] by auto
qed

lemma svc_run_step:
  "run (svc_step ip via frame chk hmac4 udp_ok) s0 sent s \<Longrightarrow> svc_step ip via frame chk hmac4 udp_ok s new s' \<Longrightarrow> run (svc_step ip via frame chk hmac4 udp_ok) s0 (sent @ new) s'"
  by (rule run.run_step)

theorem tcp_clients_read_whole_packets_witness:
  "\<exists>s b. run (tcp_step False (\<lambda>_ _. [1, 2, 3, 4]) (\<lambda>_ _. True))
      (svc_boot (engine_start (engine_config_default 4) (engine_new (engine_config_default 4) 0))) [(b, V4 (of_le TCP_VIRTUAL_IP) 1)] s
    \<and> ts_streams s (V4 (of_le TCP_VIRTUAL_IP) 1) \<noteq> []
    \<and> ts_streams s (V4 (of_le TCP_VIRTUAL_IP) 1) = concat (map tcp_frame (tcp_conn_loop (ts_streams s (V4 (of_le TCP_VIRTUAL_IP) 1))))"
proof -
  let ?cfg = "engine_config_default 4" and ?peer = "V4 (of_le TCP_VIRTUAL_IP) 1"
  let ?m = "\<lambda>_ _. [1, 2, 3, 4 :: u8]" and ?sh = "engine_start ?cfg (engine_new ?cfg 0)"
  let ?step = "tcp_step False ?m (\<lambda>_ _. True)" and ?s0 = "svc_boot ?sh :: u8 service"
  obtain t b where o: "on_packet False ?m ?sh ?peer sample_request 77 0 0 (\<lambda>_. 0) = Some (?sh\<lparr>sh_sessions := t\<rparr>, [(b, ?peer)])"
    using sample_on_packet by blast
  let ?s1 = "svc_accept TCP_VIRTUAL_IP ?s0" and ?sh1 = "?sh\<lparr>sh_sessions := t\<rparr>"
  let ?s2 = "?s1\<lparr>ts_shared := ?sh1, ts_spawned := [(b, ?peer)]\<rparr>"
  let ?s3 = "run_spawned ?s2 0"
  have "svc_receive False ?m ?s1 ?peer sample_request 77 0 0 (\<lambda>_. 0) = Some (?s2, [(b, ?peer)])"
    using o by (simp add: svc_receive_def svc_accept_def svc_boot_def Let_def case_prod_beta)
  moreover have "st_next_sess_id (sh_sessions (ts_shared ?s1)) \<noteq> - 1"
    by (simp add: svc_accept_def svc_boot_def Let_def case_prod_beta engine_boot table_new_def)
  ultimately have r: "?step ?s1 [(b, ?peer)] ?s2" by (rule ts_receive)
  have w: "rc_writers (ts_receiver ?s3) ?peer = Some [b]" "ts_writing ?s3 ?peer = []" "\<not> ts_broken ?s3 ?peer" "ts_streams ?s3 ?peer = []"
    by (simp_all add: run_spawned_def svc_accept_def svc_boot_def accept_peer_def receiver_new_def conn_open_def Let_def
        writer_try_send_def WRITER_CAP_def)
  obtain s4 where s4: "svc_take tcp_frame ?s3 ?peer = Some s4" "ts_writing s4 ?peer = tcp_frame b" "ts_streams s4 ?peer = []" "\<not> ts_broken s4 ?peer"
    using w by (simp add: svc_take_def)
  have ne: "tcp_frame b \<noteq> []" unfolding length_greater_0_conv [symmetric] by (simp add: tcp_frame_def)
  let ?s5 = "svc_write s4 ?peer (length (tcp_frame b))"
  have s5: "ts_writing ?s5 ?peer = []" "ts_streams ?s5 ?peer \<noteq> []"
    using s4 ne by (simp_all add: svc_write_def)
  have "run ?step ?s0 ([] @ []) ?s1" by (rule svc_run_step [OF run.run_nil ts_accept])
  then have "run ?step ?s0 (([] @ []) @ [(b, ?peer)]) ?s2" using r by (rule svc_run_step)
  moreover have "?step ?s2 [] ?s3" by (rule ts_spawned) simp
  ultimately have "run ?step ?s0 ((([] @ []) @ [(b, ?peer)]) @ []) ?s3" by (rule svc_run_step)
  then have "run ?step ?s0 (((([] @ []) @ [(b, ?peer)]) @ []) @ []) s4" using ts_take [OF s4(1)] by (rule svc_run_step)
  then have "run ?step ?s0 ((((([] @ []) @ [(b, ?peer)]) @ []) @ []) @ []) ?s5" using ts_write by (rule svc_run_step)
  then have run: "run ?step ?s0 [(b, ?peer)] ?s5" by (simp only: append_Nil2 append_Nil)
  have "cfg_ok (ec_session ?cfg)" by (simp add: engine_config_default_def)
  from tcp_clients_read_whole_packets [OF this _ run, of ?peer] have "ts_writing ?s5 ?peer = [] \<longrightarrow> ts_streams ?s5 ?peer = concat (map tcp_frame (tcp_conn_loop (ts_streams ?s5 ?peer)))" by simp
  then show ?thesis using run s5 by blast
qed

end
