(* ===== verification/Engine_Tasks.thy ===== *)
theory Engine_Tasks
  imports Engine_Run
begin

text \<open>
  The life of the engine as a process (\<open>run_with_shutdown\<close> of \<open>src/engine.rs\<close>): binding the transports
  one after the other, the tasks it spawns and the tasks these spawn in turn (\<open>UdpReceiver::run\<close> of
  \<open>src/transport/udp.rs\<close>, \<open>run\<close> of \<open>tcp.rs\<close> and \<open>ws.rs\<close>), the drain, and the abort at the end. Each
  step of a task is a stretch of \<open>engine_step\<close> that happens only while that task lives.
\<close>

section \<open>Binding the transports\<close>

datatype task = RecvRun | UdpWorker nat | TcpRun | WsRun | ConnTask route socket_addr | LinkLoop | MaintLoop | CtrlC

text \<open>
  The answers of the operating system to the three binds are arguments. An error returns at once, with
  what was changed and spawned before it.
\<close>

definition engine_bind :: "engine_config \<Rightarrow> bool \<Rightarrow> bool \<Rightarrow> bool \<Rightarrow> shared \<Rightarrow> shared \<times> task list \<times> unit res" where
  "engine_bind cfg udp tcp ws sh =
     (if \<not> udp then (sh, [], Inl ErrIo)
      else let sh = sh\<lparr>sh_udp := True\<rparr> in
        if ec_tcp_bind_addr cfg \<noteq> None \<and> \<not> tcp then (sh, [], Inl ErrIo)
        else let (sh, tcp_handle) = (if ec_tcp_bind_addr cfg \<noteq> None then (sh\<lparr>sh_tcp := True\<rparr>, [TcpRun]) else (sh, [])) in
          if ec_ws_bind_addr cfg \<noteq> None \<and> \<not> ws then (sh, tcp_handle, Inl ErrIo)
          else let (sh, ws_handle) = (if ec_ws_bind_addr cfg \<noteq> None then (sh\<lparr>sh_ws := True\<rparr>, [WsRun]) else (sh, []))
            in (sh, tcp_handle @ ws_handle, Inr ()))"

text \<open>
  It returns an error exactly when a transport asked for could not be bound. The one task it can leave
  behind is the one that accepts TCP connections, when the failure is that of WebSocket.
\<close>

theorem engine_bind_outcome:
  "(let (sh', tasks, r) = engine_bind cfg udp tcp ws (engine_new cfg clk);
        tcp_bad = (ec_tcp_bind_addr cfg \<noteq> None \<and> \<not> tcp); ws_bad = (ec_ws_bind_addr cfg \<noteq> None \<and> \<not> ws)
    in if udp \<and> \<not> tcp_bad \<and> \<not> ws_bad then r = Inr () \<and> sh' = engine_start cfg (engine_new cfg clk)
       else r = Inl ErrIo \<and> set tasks = (if udp \<and> \<not> tcp_bad \<and> ec_tcp_bind_addr cfg \<noteq> None then {TcpRun} else {}))"
  by (auto simp: engine_bind_def engine_start_def engine_new_def shared_new_def Let_def)

section \<open>The process\<close>

datatype phase = Serving | Draining | Stopped | Failed

record process =
  pr_shared :: shared
  pr_tcp :: receiver
  pr_ws :: receiver
  pr_tasks :: "task list"
  pr_phase :: phase

definition proc_boot :: "engine_config \<Rightarrow> bool \<Rightarrow> bool \<Rightarrow> bool \<Rightarrow> shared \<Rightarrow> process" where
  "proc_boot cfg udp tcp ws sh =
     (let (sh, handles, r) = engine_bind cfg udp tcp ws sh in
      case r of
        Inl e \<Rightarrow> \<lparr>pr_shared = sh, pr_tcp = receiver_new, pr_ws = receiver_new, pr_tasks = handles, pr_phase = Failed\<rparr>
      | Inr _ \<Rightarrow> \<lparr>pr_shared = sh, pr_tcp = receiver_new, pr_ws = receiver_new,
          pr_tasks = handles @ [RecvRun, LinkLoop, MaintLoop, CtrlC], pr_phase = Serving\<rparr>)"

definition spawn_workers :: "nat \<Rightarrow> process \<Rightarrow> process" where
  "spawn_workers sockets p = p\<lparr>pr_tasks := pr_tasks p @ map UdpWorker [0..<sockets]\<rparr>"

text \<open>Every accepted connection runs as a task of its own.\<close>

definition tcp_accept :: "process \<Rightarrow> process" where
  "tcp_accept p =
     (let (r, peer) = accept_peer TCP_VIRTUAL_IP (pr_tcp p)
      in p\<lparr>pr_tcp := r, pr_tasks := pr_tasks p @ [ConnTask ViaTcp peer]\<rparr>)"

definition ws_accept :: "process \<Rightarrow> process" where
  "ws_accept p =
     (let (r, peer) = accept_peer WS_VIRTUAL_IP (pr_ws p)
      in p\<lparr>pr_ws := r, pr_tasks := pr_tasks p @ [ConnTask ViaWs peer]\<rparr>)"

text \<open>The handles aborted at the end. The queue of the link dies with the link task that reads it.\<close>

definition handles :: "task list" where
  "handles = [RecvRun, LinkLoop, MaintLoop, TcpRun, WsRun]"

definition abort_tasks :: "process \<Rightarrow> process" where
  "abort_tasks p = p\<lparr>pr_shared := link_lost (pr_shared p), pr_tasks := filter (\<lambda>t. t \<notin> set handles) (pr_tasks p), pr_phase := Stopped\<rparr>"

section \<open>Steps\<close>

inductive packet_turn :: "bool \<Rightarrow> (bytes \<Rightarrow> bytes \<Rightarrow> bytes) \<Rightarrow> socket_addr \<Rightarrow> bytes \<Rightarrow> shared \<Rightarrow> session_event list \<Rightarrow> shared \<Rightarrow> bool"
  for chk :: bool and hmac4 :: "bytes \<Rightarrow> bytes \<Rightarrow> bytes" and peer :: socket_addr and data :: bytes where
  packet_turn: "handle_datagram chk hmac4 (sh_sessions sh) peer data rnd clk now = Some (t, sent, evs) \<Longrightarrow>
     on_packet chk hmac4 sh peer data rnd clk now clks = Some (sh', sent) \<Longrightarrow>
     st_next_sess_id (sh_sessions sh) \<noteq> - 1 \<Longrightarrow> packet_turn chk hmac4 peer data sh evs sh'"

inductive link_turn :: "bool \<Rightarrow> (bytes \<Rightarrow> bytes \<Rightarrow> bytes) \<Rightarrow> (bytes \<Rightarrow> socket_addr \<Rightarrow> bool) \<Rightarrow> shared \<Rightarrow> shared \<Rightarrow> bool"
  for chk :: bool and hmac4 :: "bytes \<Rightarrow> bytes \<Rightarrow> bytes" and udp_ok :: "bytes \<Rightarrow> socket_addr \<Rightarrow> bool" where
  lt_open: "link_turn chk hmac4 udp_ok sh (link_open sh)"
| lt_resume: "link_turn chk hmac4 udp_ok sh (fst (link_resume sh n clk1 clk2))"
| lt_read: "handle_logic_frame chk hmac4 udp_ok sh clks frame = Some (sh', out, r) \<Longrightarrow> link_turn chk hmac4 udp_ok sh sh'"
| lt_write: "write_step sh = Some (sh', r) \<Longrightarrow> link_turn chk hmac4 udp_ok sh sh'"
| lt_lost: "link_turn chk hmac4 udp_ok sh (link_lost sh)"
| lt_down: "link_turn chk hmac4 udp_ok sh (link_down sh)"

inductive maint_turn :: "shared \<Rightarrow> session_event list \<Rightarrow> shared \<Rightarrow> bool" where
  mt_tick: "maintain (sh_sessions sh) now = Some (t, evs) \<Longrightarrow> maintenance_tick sh now clks = Some (sh', out) \<Longrightarrow>
     maint_turn sh evs sh'"
| mt_second: "maint_turn sh [] (second_tick sh clks now)"

text \<open>\<open>sockets\<close> is the number of UDP sockets bound.\<close>

inductive proc_step :: "nat \<Rightarrow> bool \<Rightarrow> (bytes \<Rightarrow> bytes \<Rightarrow> bytes) \<Rightarrow> (bytes \<Rightarrow> socket_addr \<Rightarrow> bool) \<Rightarrow> process
    \<Rightarrow> session_event list \<Rightarrow> process \<Rightarrow> bool"
  for sockets :: nat and chk :: bool and hmac4 :: "bytes \<Rightarrow> bytes \<Rightarrow> bytes" and udp_ok :: "bytes \<Rightarrow> socket_addr \<Rightarrow> bool" where
  ps_workers: "RecvRun \<in> set (pr_tasks p) \<Longrightarrow> UdpWorker 0 \<notin> set (pr_tasks p) \<Longrightarrow>
     proc_step sockets chk hmac4 udp_ok p [] (spawn_workers sockets p)"
| ps_udp: "UdpWorker i \<in> set (pr_tasks p) \<Longrightarrow> udp_receive datagram = Some data \<Longrightarrow>
     packet_turn chk hmac4 peer data (pr_shared p) evs sh' \<Longrightarrow> proc_step sockets chk hmac4 udp_ok p evs (p\<lparr>pr_shared := sh'\<rparr>)"
| ps_tcp_accept: "TcpRun \<in> set (pr_tasks p) \<Longrightarrow> proc_step sockets chk hmac4 udp_ok p [] (tcp_accept p)"
| ps_ws_accept: "WsRun \<in> set (pr_tasks p) \<Longrightarrow> proc_step sockets chk hmac4 udp_ok p [] (ws_accept p)"
| ps_conn: "ConnTask via peer \<in> set (pr_tasks p) \<Longrightarrow> packet_turn chk hmac4 peer data (pr_shared p) evs sh' \<Longrightarrow>
     proc_step sockets chk hmac4 udp_ok p evs (p\<lparr>pr_shared := sh'\<rparr>)"
| ps_conn_end: "proc_step sockets chk hmac4 udp_ok p [] (p\<lparr>pr_tasks := remove1 (ConnTask via peer) (pr_tasks p)\<rparr>)"
| ps_link: "LinkLoop \<in> set (pr_tasks p) \<Longrightarrow> link_turn chk hmac4 udp_ok (pr_shared p) sh' \<Longrightarrow>
     proc_step sockets chk hmac4 udp_ok p [] (p\<lparr>pr_shared := sh'\<rparr>)"
| ps_maint: "MaintLoop \<in> set (pr_tasks p) \<Longrightarrow> maint_turn (pr_shared p) evs sh' \<Longrightarrow>
     proc_step sockets chk hmac4 udp_ok p evs (p\<lparr>pr_shared := sh'\<rparr>)"
| ps_ctrl_c: "proc_step sockets chk hmac4 udp_ok p [] (p\<lparr>pr_tasks := remove1 CtrlC (pr_tasks p)\<rparr>)"
| ps_stop: "pr_phase p = Serving \<Longrightarrow> shutdown_all (sh_sessions (pr_shared p)) = (t, evs) \<Longrightarrow>
     proc_step sockets chk hmac4 udp_ok p evs (p\<lparr>pr_shared := drain (pr_shared p) clks, pr_phase := Draining\<rparr>)"
| ps_abort: "pr_phase p = Draining \<Longrightarrow> proc_step sockets chk hmac4 udp_ok p [] (abort_tasks p)"

section \<open>The process refines the engine\<close>

lemma packet_turn_engine: "packet_turn chk hmac4 peer data sh evs sh' \<Longrightarrow> engine_step chk hmac4 udp_ok sh evs sh'"
  by (auto elim!: packet_turn.cases intro: es_packet)

lemma link_turn_engine: "link_turn chk hmac4 udp_ok sh sh' \<Longrightarrow> engine_step chk hmac4 udp_ok sh [] sh'"
  by (erule link_turn.cases) (auto intro: engine_step.intros)

lemma maint_turn_engine: "maint_turn sh evs sh' \<Longrightarrow> engine_step chk hmac4 udp_ok sh evs sh'"
  by (erule maint_turn.cases) (auto intro: engine_step.intros)

text \<open>
  A stopped process has none of the aborted tasks and no queue to the logic server; either all UDP
  workers run or none; a failed start left nothing but TCP tasks.
\<close>

definition worker_ids :: "task list \<Rightarrow> nat set" where
  "worker_ids ts = {i. UdpWorker i \<in> set ts}"

definition proc_inv :: "nat \<Rightarrow> process \<Rightarrow> bool" where
  "proc_inv sockets p \<longleftrightarrow>
     (pr_phase p = Stopped \<longrightarrow> set (pr_tasks p) \<inter> set handles = {} \<and> room (pr_shared p) = 0)
   \<and> worker_ids (pr_tasks p) \<in> {{}, {..<sockets}}
   \<and> (pr_phase p = Failed \<longrightarrow> set (pr_tasks p) \<subseteq> insert TcpRun (range (ConnTask ViaTcp)))"

lemma set_handles [simp]: "set handles = {RecvRun, LinkLoop, MaintLoop, TcpRun, WsRun}"
  by (simp add: handles_def)

lemma room_link_lost [simp]: "room (link_lost sh) = 0"
  by (simp add: room_def link_lost_def split: option.split)

lemma packet_turn_room: "packet_turn chk hmac4 peer data sh evs sh' \<Longrightarrow> room sh = 0 \<Longrightarrow> room sh' = 0"
  by (erule packet_turn.cases) (auto simp: on_packet_def room_def push_ups_outcome [unfolded room_def] split: bind_splits)

lemma proc_inv_stopped: "proc_inv sockets p \<Longrightarrow> pr_phase p = Stopped \<Longrightarrow> t \<in> set handles \<Longrightarrow> t \<notin> set (pr_tasks p)"
  unfolding proc_inv_def by blast

lemma proc_inv_room: "proc_inv sockets p \<Longrightarrow> pr_phase p = Stopped \<Longrightarrow> room (pr_shared p) = 0"
  unfolding proc_inv_def by blast

lemma proc_inv_failed: "proc_inv sockets p \<Longrightarrow> pr_phase p = Failed \<Longrightarrow> t \<notin> insert TcpRun (range (ConnTask ViaTcp)) \<Longrightarrow> t \<notin> set (pr_tasks p)"
  unfolding proc_inv_def by blast

lemma worker_ids_simps [simp]:
  "worker_ids (ts @ ts') = worker_ids ts \<union> worker_ids ts'" "worker_ids [] = {}"
  "worker_ids (t # ts) = (case t of UdpWorker i \<Rightarrow> insert i (worker_ids ts) | _ \<Rightarrow> worker_ids ts)"
  "worker_ids (map UdpWorker is) = set is"
  "worker_ids (filter (\<lambda>t. t \<notin> set handles) ts) = worker_ids ts"
  by (auto simp: worker_ids_def split: task.split)

lemma worker_ids_remove1: "(\<And>i. t \<noteq> UdpWorker i) \<Longrightarrow> worker_ids (remove1 t ts) = worker_ids ts"
  unfolding worker_ids_def by (rule Collect_cong) (metis in_set_remove1)

text \<open>Steps that only change the shared state, and steps of tasks that a stopped process no longer has.\<close>

lemma proc_inv_shared: "proc_inv sockets p \<Longrightarrow> (pr_phase p = Stopped \<Longrightarrow> room sh' = 0) \<Longrightarrow> proc_inv sockets (p\<lparr>pr_shared := sh'\<rparr>)"
  by (simp add: proc_inv_def)

lemma proc_inv_remove:
  assumes "proc_inv sockets p" "\<And>i. t \<noteq> UdpWorker i"
  shows "proc_inv sockets (p\<lparr>pr_tasks := remove1 t (pr_tasks p)\<rparr>)"
  using assms(1) worker_ids_remove1 [OF assms(2), of "pr_tasks p"] set_remove1_subset [of t "pr_tasks p"]
  unfolding proc_inv_def by (auto simp del: set_handles)

lemma proc_inv_conn:
  assumes "proc_inv sockets p" "h \<in> set (pr_tasks p)" "h \<in> set handles" "pr_phase p = Failed \<Longrightarrow> via = ViaTcp"
  shows "proc_inv sockets (p\<lparr>pr_tcp := r, pr_ws := r', pr_tasks := pr_tasks p @ [ConnTask via peer]\<rparr>)"
proof -
  have "pr_phase p \<noteq> Stopped" using assms(1-3) proc_inv_stopped by blast
  then show ?thesis using assms(1,4) unfolding proc_inv_def by (auto simp del: set_handles)
qed

lemma proc_step_inv:
  assumes "proc_step sockets chk hmac4 udp_ok p evs p'" "proc_inv sockets p"
  shows "proc_inv sockets p'"
  using assms(1)
proof cases
  case ps_workers
  have "pr_phase p \<noteq> Stopped" "pr_phase p \<noteq> Failed"
    using ps_workers(3) proc_inv_stopped [OF assms(2)] proc_inv_failed [OF assms(2), of RecvRun] by auto
  moreover have "worker_ids (pr_tasks p) \<subseteq> {..<sockets}" using assms(2) by (auto simp: proc_inv_def)
  ultimately show ?thesis unfolding ps_workers by (auto simp: proc_inv_def spawn_workers_def)
next
  case (ps_udp i datagram data peer sh')
  then show ?thesis using packet_turn_room proc_inv_room [OF assms(2)] by (blast intro: proc_inv_shared [OF assms(2)])
next
  case ps_tcp_accept
  then show ?thesis
    using proc_inv_conn [OF assms(2) ps_tcp_accept(3), where via = ViaTcp and r' = "pr_ws p"] by (simp add: tcp_accept_def Let_def split: prod.split)
next
  case ps_ws_accept
  have "pr_phase p \<noteq> Failed" using ps_ws_accept(3) proc_inv_failed [OF assms(2), of WsRun] by auto
  then show ?thesis
    using ps_ws_accept proc_inv_conn [OF assms(2) ps_ws_accept(3), where via = ViaWs and r = "pr_tcp p"]
    by (simp add: ws_accept_def Let_def split: prod.split)
next
  case (ps_conn via peer data sh')
  then show ?thesis using packet_turn_room proc_inv_room [OF assms(2)] by (blast intro: proc_inv_shared [OF assms(2)])
next
  case ps_conn_end
  then show ?thesis using proc_inv_remove [OF assms(2)] by simp
next
  case ps_link
  then show ?thesis using proc_inv_stopped [OF assms(2), of LinkLoop] by (auto intro: proc_inv_shared [OF assms(2)])
next
  case ps_maint
  then show ?thesis using proc_inv_stopped [OF assms(2), of MaintLoop] by (auto intro: proc_inv_shared [OF assms(2)])
next
  case ps_ctrl_c
  then show ?thesis using proc_inv_remove [OF assms(2)] by simp
next
  case ps_stop
  then show ?thesis using assms(2) by (simp add: proc_inv_def)
next
  case ps_abort
  have "set (pr_tasks (abort_tasks p)) \<inter> set handles = {}" by (auto simp: abort_tasks_def)
  moreover have "worker_ids (pr_tasks (abort_tasks p)) = worker_ids (pr_tasks p)"
    unfolding abort_tasks_def by (simp del: set_handles)
  ultimately show ?thesis unfolding ps_abort using assms(2) by (simp add: proc_inv_def abort_tasks_def del: set_handles)
qed

lemma proc_step_engine:
  "proc_step sockets chk hmac4 udp_ok p evs p' \<Longrightarrow> run (engine_step chk hmac4 udp_ok) (pr_shared p) evs (pr_shared p')"
  by (erule proc_step.cases)
    (auto simp: spawn_workers_def tcp_accept_def ws_accept_def abort_tasks_def Let_def split: prod.split
      intro!: run_nil run_single [of "engine_step chk hmac4 udp_ok"]
      intro: packet_turn_engine link_turn_engine maint_turn_engine es_drain es_lost)

interpretation process: simulation "proc_step sockets chk hmac4 udp_ok" "run (engine_step chk hmac4 udp_ok)" pr_shared "proc_inv sockets"
  for sockets chk hmac4 udp_ok
  by unfold_locales (auto intro: proc_step_engine proc_step_inv)

lemma proc_inv_boot: "proc_inv sockets (proc_boot cfg udp tcp ws sh)"
  by (auto simp: proc_inv_def proc_boot_def engine_bind_def Let_def)

lemma proc_boot_serving:
  "pr_phase (proc_boot cfg udp tcp ws (engine_new cfg clk)) = Serving \<Longrightarrow>
     pr_shared (proc_boot cfg udp tcp ws (engine_new cfg clk)) = engine_start cfg (engine_new cfg clk)"
  using engine_bind_outcome [of cfg udp tcp ws clk]
  by (auto simp: proc_boot_def Let_def split: prod.splits sum.splits if_splits)

lemma failed_stays: "run (proc_step sockets chk hmac4 udp_ok) p evs p' \<Longrightarrow> pr_phase p = Failed \<Longrightarrow> pr_phase p' = Failed"
proof (induction rule: run.induct)
  case (run_step evs p' es p'')
  then show ?case
    by (auto elim!: proc_step.cases simp: spawn_workers_def tcp_accept_def ws_accept_def abort_tasks_def Let_def split: prod.splits)
qed

lemma boot_phase: "pr_phase (proc_boot cfg udp tcp ws sh) \<noteq> Failed \<Longrightarrow> pr_phase (proc_boot cfg udp tcp ws sh) = Serving"
  by (auto simp: proc_boot_def Let_def split: prod.splits sum.splits)

lemma stopped_run:
  assumes "run (proc_step sockets chk hmac4 udp_ok) (proc_boot cfg udp tcp ws (engine_new cfg clk0)) evs p" "pr_phase p = Stopped"
  shows "run (engine_step chk hmac4 udp_ok) (engine_start cfg (engine_new cfg clk0)) evs (pr_shared p) \<and> proc_inv sockets p"
proof -
  let ?p = "proc_boot cfg udp tcp ws (engine_new cfg clk0)"
  have "pr_phase ?p = Serving" using failed_stays [OF assms(1)] boot_phase assms(2) by fastforce
  then show ?thesis
    using run_of_runs [OF process.run_refines [OF assms(1) proc_inv_boot]] process.run_inv [OF assms(1) proc_inv_boot]
      proc_boot_serving by simp
qed

section \<open>After the shutdown\<close>

text \<open>
  C27. The end of the engine. Whatever its tasks did before and after the shutdown, in whatever order,
  they have been a run of \<open>engine_step\<close> with the same events. Once the process has stopped, nothing
  reaches the logic server any more, neither the link nor the maintenance runs nor is a connection
  accepted, and the tasks left are those the aborted ones had spawned: all UDP workers or none, open
  connections, and the one that waits for Ctrl-C.
\<close>

theorem shutdown_outcome:
  assumes "run (proc_step sockets chk hmac4 udp_ok) (proc_boot cfg udp tcp ws (engine_new cfg clk0)) evs p" "pr_phase p = Stopped"
  shows "run (engine_step chk hmac4 udp_ok) (engine_start cfg (engine_new cfg clk0)) evs (pr_shared p)
    \<and> room (pr_shared p) = 0
    \<and> set (pr_tasks p) \<subseteq> UdpWorker ` worker_ids (pr_tasks p) \<union> {ConnTask via peer | via peer. True} \<union> {CtrlC}
    \<and> (worker_ids (pr_tasks p) = {} \<or> worker_ids (pr_tasks p) = {..<sockets})"
proof -
  from stopped_run [OF assms] have r: "run (engine_step chk hmac4 udp_ok) (engine_start cfg (engine_new cfg clk0)) evs (pr_shared p)"
    and inv: "proc_inv sockets p" by simp_all
  have "t \<in> UdpWorker ` worker_ids (pr_tasks p) \<union> {ConnTask via peer | via peer. True} \<union> {CtrlC}" if "t \<in> set (pr_tasks p)" for t
    by (cases t) (use that proc_inv_stopped [OF inv assms(2), of t] in \<open>auto simp: worker_ids_def\<close>)
  then show ?thesis using r inv proc_inv_room [OF inv assms(2)] by (auto simp: proc_inv_def)
qed

lemma stopped_sample:
  "\<exists>p. run (proc_step 4 True (\<lambda>_ _. []) (\<lambda>_ _. True))
       (proc_boot (engine_config_default 4) True True True (engine_new (engine_config_default 4) 0)) [] p
     \<and> pr_phase p = Stopped \<and> worker_ids (pr_tasks p) = {..<4} \<and> sh_sessions (pr_shared p) = table_new default_config"
proof -
  let ?step = "proc_step 4 True (\<lambda>_ _. []) (\<lambda>_ _. True)" and ?cfg = "engine_config_default 4"
  let ?p0 = "proc_boot ?cfg True True True (engine_new ?cfg 0)"
  have 0: "pr_tasks ?p0 = [RecvRun, LinkLoop, MaintLoop, CtrlC]" "pr_phase ?p0 = Serving"
    "sh_sessions (pr_shared ?p0) = table_new default_config"
    by (simp_all add: proc_boot_def engine_bind_def engine_config_default_def engine_new_def shared_new_def Let_def)
  let ?p1 = "spawn_workers 4 ?p0"
  have "?step ?p0 [] ?p1" by (rule ps_workers) (simp_all add: 0)
  moreover have t: "shutdown_all (sh_sessions (pr_shared ?p1)) = (table_new default_config, [])"
    by (simp add: spawn_workers_def 0 shutdown_all_def table_new_def sub_by_def Let_def)
  let ?p2 = "?p1\<lparr>pr_shared := drain (pr_shared ?p1) (\<lambda>_. 0), pr_phase := Draining\<rparr>"
  have "?step ?p1 [] ?p2" by (rule ps_stop [OF _ t]) (simp add: spawn_workers_def 0)
  moreover have "?step ?p2 [] (abort_tasks ?p2)" by (rule ps_abort) simp
  ultimately have "run ?step ?p0 (([] @ []) @ []) (abort_tasks ?p2)" by (blast intro: run_trans run_single)
  moreover have "sh_sessions (pr_shared (abort_tasks ?p2)) = table_new default_config" "pr_phase (abort_tasks ?p2) = Stopped"
    using t by (simp_all add: abort_tasks_def drain_def link_fields)
  moreover have "worker_ids (pr_tasks (abort_tasks ?p2)) = {..<4}"
    by (auto simp: abort_tasks_def spawn_workers_def 0)
  ultimately show ?thesis by auto
qed

theorem shutdown_outcome_witness:
  "\<exists>p. run (proc_step 4 True (\<lambda>_ _. []) (\<lambda>_ _. True))
       (proc_boot (engine_config_default 4) True True True (engine_new (engine_config_default 4) 0)) [] p
     \<and> worker_ids (pr_tasks p) = {..<4} \<and> room (pr_shared p) = 0"
  using stopped_sample shutdown_outcome [of 4 True "\<lambda>_ _. []" "\<lambda>_ _. True" "engine_config_default 4" True True True 0 "[]"] by blast


lemma udp_receive_packet: "sendable h fs \<Longrightarrow> udp_receive (client_packet h fs) = Some (client_packet h fs)"
  by (simp add: udp_receive_def sendable_def length_client_packet HEADER_LEN_def Let_def del: length_greater_0_conv)

lemma udp_receive_sample:
  "udp_receive sample_request = Some sample_request" "udp_receive (sample_response 77) = Some (sample_response 77)"
  unfolding sample_request_def sample_response_def by (auto intro!: udp_receive_packet sample_sendable)

lemma datagrams_two:
  assumes "datagrams chk hmac4 t0 [(a, raw, rnd, clk, now), (a', raw', rnd', clk', now')] = Some (t, ps, evs)"
  obtains t1 ps1 evs1 ps2 evs2 where "handle_datagram chk hmac4 t0 a raw rnd clk now = Some (t1, ps1, evs1)"
    "handle_datagram chk hmac4 t1 a' raw' rnd' clk' now' = Some (t, ps2, evs2)" "evs1 @ evs2 = evs"
  using assms by (auto split: bind_splits)


end
