(* ===== verification/Tool_Runs.thy ===== *)
theory Tool_Runs
  imports Load_Tools
begin

text \<open>
  Runs of the load tools: the two tasks of a client of \<open>engineload.rs\<close> in any interleaving and the
  report over all clients, the arguments of \<open>bench.rs\<close>, and the loops with which \<open>bench.rs\<close> and
  \<open>interop.rs\<close> wait for the engine. Every ping a client sends is counted once, as answered or as lost.
\<close>

section \<open>A client and its two tasks\<close>

text \<open>
  The main loop puts a ping on the socket and then, with the receive task in between, into the pending
  pings. The flag says that a ping has been sent and not been noted yet; a step is labelled with the
  pings it sends.
\<close>

inductive client_step :: "(bytes \<Rightarrow> bytes \<Rightarrow> bytes) \<Rightarrow> load_client \<times> bool \<Rightarrow> bytes list \<Rightarrow> load_client \<times> bool \<Rightarrow> bool"
  for hmac4 :: "bytes \<Rightarrow> bytes \<Rightarrow> bytes" where
  cs_send: "load_ping hmac4 c now = Some (c', pkt) \<Longrightarrow> client_step hmac4 (c, False) [pkt] (c, True)"
| cs_note: "load_ping hmac4 c now = Some (c', pkt) \<Longrightarrow> client_step hmac4 (c, True) [] (c', False)"
| cs_receive: "load_receive hmac4 c raw clk = Some (c', acks) \<Longrightarrow> client_step hmac4 (c, noting) [] (c', noting)"

text \<open>
  What the worker returns when its time is over, and the report of \<open>main\<close>: over the results of all
  workers and the round-trip times, to which the receive tasks add until the last worker has ended.
\<close>

definition load_result :: "load_client \<Rightarrow> u64 \<times> u64" where
  "load_result c = (lc_sent c, of_nat (length (lc_pending c)))"

fun load_totals :: "(u64 \<times> u64) list \<Rightarrow> u64 \<times> u64" where
  "load_totals [] = (0, 0)"
| "load_totals ((sent, lost) # results) =
     (let (total_sent, total_lost) = load_totals results in (sent + total_sent, lost + total_lost))"

definition load_report :: "(u64 \<times> u64) list \<Rightarrow> load_client list \<Rightarrow> (u64 \<times> u64) \<times> nat \<times> rat \<times> rat" where
  "load_report results cs =
     (let rtts = concat (map lc_rtts cs) in (load_totals results, length rtts, load_percentiles rtts))"

section \<open>Every ping is counted once\<close>

text \<open>
  After \<open>n\<close> pings: the pending ones have different numbers among those sent, and together with the
  answered ones they are the \<open>k\<close> pings noted, as long as none had to be evicted.
\<close>

definition counted :: "nat \<Rightarrow> load_client \<Rightarrow> bool" where
  "counted k c \<longleftrightarrow> distinct (map fst (lc_pending c)) \<and> fst ` set (lc_pending c) \<subseteq> of_nat ` {..<k} \<and> length (lc_pending c) \<le> 512
     \<and> lc_seq c = of_nat k \<and> lc_sent c = of_nat k \<and> length (lc_rtts c) + length (lc_pending c) \<le> k
     \<and> (k \<le> 512 \<longrightarrow> length (lc_rtts c) + length (lc_pending c) = k)"

lemma length_delete_distinct:
  "distinct (map fst al) \<Longrightarrow> map_of al k = Some v \<Longrightarrow> Suc (length (AList.delete k al)) = length al"
proof (induction al)
  case (Cons p al)
  show ?case
  proof (cases "fst p = k")
    case True
    then have "k \<notin> fst ` set al" using Cons.prems(1) by auto
    then have "AList.delete k al = al" by (simp add: delete_idem)
    then show ?thesis using True by (cases p) simp
  next
    case False
    then show ?thesis using Cons by (cases p) auto
  qed
qed simp

lemma match_echoes_counts:
  assumes "distinct (map fst pending)" "match_echoes prefix clk fs pending rtts = (pending', rtts')"
  shows "distinct (map fst pending') \<and> fst ` set pending' \<subseteq> fst ` set pending
    \<and> length rtts' + length pending' = length rtts + length pending \<and> length pending' \<le> length pending"
  using assms
proof (induction prefix clk fs pending rtts rule: match_echoes.induct)
  case (2 prefix clk f fs pending rtts)
  let ?hit = "if fr_ch f = CH_RELIABLE_ORDERED then echo_seq prefix (fr_body f) else None"
  show ?case
  proof (cases "Option.bind ?hit (map_of pending)")
    case None
    then show ?thesis using 2 by simp
  next
    case (Some t)
    then have h: "map_of pending (the ?hit) = Some t" by (cases ?hit) auto
    define al where "al = AList.delete (the ?hit) pending"
    have d: "distinct (map fst al)" unfolding al_def using 2(3) by (rule distinct_delete)
    have sub: "fst ` set al \<subseteq> fst ` set pending" by (auto simp: al_def AList.delete_eq)
    have l: "Suc (length al) = length pending" unfolding al_def using 2(3) h by (rule length_delete_distinct)
    let ?r = "rtts @ [f64_mul (as_secs_f64 (duration_since (clk 0) t)) 1000]"
    have "match_echoes prefix (\<lambda>i. clk (Suc i)) fs al ?r = (pending', rtts')"
      using 2(4) Some by (simp add: Let_def al_def)
    from 2(2) [OF refl refl Some, folded al_def, OF d this]
    have "distinct (map fst pending')" "fst ` set pending' \<subseteq> fst ` set al"
      "length rtts' + length pending' = Suc (length rtts) + length al" "length pending' \<le> length al"
      by simp_all
    then show ?thesis using sub l by auto
  qed
qed auto

lemma note_ping_counts:
  assumes "counted k c"
  shows "counted (Suc k) (c\<lparr>lc_pending := note_ping (lc_pending c) (lc_seq c) now, lc_sent := lc_sent c + 1, lc_seq := lc_seq c + 1\<rparr>)"
proof -
  let ?p = "lc_pending c" and ?u = "AList.update (lc_seq c) now (lc_pending c)"
  note c = assms [unfolded counted_def]
  have u: "distinct (map fst ?u)" "fst ` set ?u = insert (of_nat k) (fst ` set ?p)" "length ?u \<le> Suc (length ?p)"
    using c length_update distinct_update by (auto simp: dom_update)
  have n: "distinct (map fst (note_ping ?p (lc_seq c) now))" "fst ` set (note_ping ?p (lc_seq c) now) \<subseteq> fst ` set ?u"
    "length (note_ping ?p (lc_seq c) now) \<le> length ?u" "length (note_ping ?p (lc_seq c) now) \<le> 512"
    using u(1) distinct_delete [OF u(1)] length_delete_le c length_note_ping
    by (auto simp: note_ping_def Let_def AList.delete_eq)
  have "length (note_ping ?p (lc_seq c) now) = Suc (length ?p)" if "Suc k \<le> 512"
  proof -
    have "of_nat k \<notin> (of_nat ` {..<k} :: u16 set)"
    proof
      assume "(of_nat k :: u16) \<in> of_nat ` {..<k}"
      then obtain j where "j < k" "(of_nat k :: u16) = of_nat j" by auto
      then show False using that by (simp add: word_of_nat_eq_iff take_bit_nat_eq_self)
    qed
    then have "lc_seq c \<notin> fst ` set ?p" using c by auto
    note update_new [OF this, of now]
    moreover have "length ?p \<le> k" using c that by simp
    ultimately show ?thesis using that by (simp add: note_ping_def Let_def)
  qed
  moreover have "fst ` set (note_ping ?p (lc_seq c) now) \<subseteq> of_nat ` {..<Suc k}"
    using n(2) c unfolding u(2) lessThan_Suc image_insert by blast
  ultimately show ?thesis using c n(1,3,4) u(3) unfolding counted_def by simp
qed

definition client_inv :: "nat \<Rightarrow> load_client \<times> bool \<Rightarrow> bool" where
  "client_inv n s \<longleftrightarrow> (case s of (c, noting) \<Rightarrow> \<exists>k. n = (if noting then Suc k else k) \<and> counted k c) \<and> lc_id (fst s) < 2 ^ 64"

lemma load_receive_fields:
  assumes "load_receive hmac4 c raw clk = Some (c', acks)"
  obtains "c' = c" | prefix fs pending rtts w where "match_echoes prefix clk fs (lc_pending c) (lc_rtts c) = (pending, rtts)"
    "c' = c\<lparr>lc_pending := pending, lc_rtts := rtts, lc_window := w\<rparr>"
proof (cases "strip_mac hmac4 (lc_secret c) (udp_recv raw)")
  case None
  then show ?thesis using assms that(1) by (simp add: load_receive_def)
next
  case (Some data)
  show ?thesis
  proof (cases "decode data")
    case (Inl e)
    then show ?thesis using assms Some that(1) by (simp add: load_receive_def)
  next
    case (Inr hf)
    obtain h fs where hf: "hf = (h, fs)" by force
    obtain pending rtts where m: "match_echoes (ping_prefix (lc_id c)) clk fs (lc_pending c) (lc_rtts c) = (pending, rtts)" by force
    obtain w where "c' = c\<lparr>lc_pending := pending, lc_rtts := rtts, lc_window := w\<rparr>"
      using assms by (auto simp: load_receive_def Some Inr hf m split: bind_splits)
    then show ?thesis by (rule that(2) [OF m])
  qed
qed

lemma load_receive_counts:
  assumes "load_receive hmac4 c raw clk = Some (c', acks)" "counted k c"
  shows "counted k c' \<and> lc_id c' = lc_id c"
  using assms(1)
proof (cases rule: load_receive_fields)
  case 1
  then show ?thesis using assms(2) by simp
next
  case (2 prefix fs pending rtts w)
  have "distinct (map fst (lc_pending c))" using assms(2) by (simp add: counted_def)
  from match_echoes_counts [OF this 2(1)]
  have "distinct (map fst pending)" "fst ` set pending \<subseteq> fst ` set (lc_pending c)"
    "length rtts + length pending = length (lc_rtts c) + length (lc_pending c)" "length pending \<le> length (lc_pending c)"
    by simp_all
  then show ?thesis using assms(2) unfolding counted_def 2(2) by simp blast
qed

lemma client_step_inv:
  assumes "client_step hmac4 s pkts s'" "client_inv n s"
  shows "client_inv (n + length pkts) s'"
  using assms(1)
proof cases
  case (cs_send c now c' pkt)
  then show ?thesis using assms(2) by (auto simp: client_inv_def)
next
  case (cs_note c now c' pkt)
  obtain k where k: "n = Suc k" "counted k c" "lc_id c < 2 ^ 64" using assms(2) cs_note by (auto simp: client_inv_def)
  have "c' = c\<lparr>lc_pending := note_ping (lc_pending c) (lc_seq c) now, lc_sent := lc_sent c + 1, lc_seq := lc_seq c + 1\<rparr>"
    using cs_note(4) load_ping_eq [OF k(3)] by (simp add: Let_def)
  then show ?thesis using note_ping_counts [OF k(2), of now] k cs_note by (simp add: client_inv_def)
next
  case (cs_receive c raw clk c' acks noting)
  then show ?thesis using assms(2) load_receive_counts [OF cs_receive(4)] by (auto simp: client_inv_def)
qed

lemma client_run_inv:
  "run (client_step hmac4) s pkts s' \<Longrightarrow> client_inv n s \<Longrightarrow> client_inv (n + length pkts) s'"
proof (induction rule: run.induct)
  case (run_step evs s' es s'')
  then show ?case using client_step_inv [of hmac4 s' es s'' "n + length evs"] by (simp add: add.assoc)
qed simp

lemma client_counts:
  assumes "run (client_step hmac4) (load_client_new i hs, False) pkts (c, False)" "i < 2 ^ 64"
  shows "counted (length pkts) c"
proof -
  have "client_inv 0 (load_client_new i hs, False)" using assms(2) by (simp add: client_inv_def counted_def load_client_new_def)
  from client_run_inv [OF assms(1) this] show ?thesis by (simp add: client_inv_def)
qed

text \<open>After the worker has ended only the receive task runs.\<close>

lemma receives_only:
  "run (client_step hmac4) s pkts s' \<Longrightarrow> pkts = [] \<Longrightarrow> \<not> snd s \<Longrightarrow> distinct (map fst (lc_pending (fst s))) \<Longrightarrow>
     \<not> snd s' \<and> distinct (map fst (lc_pending (fst s')))
     \<and> length (lc_rtts (fst s')) + length (lc_pending (fst s')) = length (lc_rtts (fst s)) + length (lc_pending (fst s))
     \<and> length (lc_pending (fst s')) \<le> length (lc_pending (fst s))"
proof (induction rule: run.induct)
  case (run_step evs s' es s'')
  then have ih: "\<not> snd s'" "distinct (map fst (lc_pending (fst s')))"
    "length (lc_rtts (fst s')) + length (lc_pending (fst s')) = length (lc_rtts (fst s)) + length (lc_pending (fst s))"
    "length (lc_pending (fst s')) \<le> length (lc_pending (fst s))"
    and es: "es = []" by simp_all
  from run_step.hyps(2) show ?case
  proof cases
    case (cs_receive c raw clk c' acks noting)
    from cs_receive(4) show ?thesis
    proof (cases rule: load_receive_fields)
      case 1
      then show ?thesis using ih cs_receive by simp
    next
      case (2 prefix fs pending rtts w)
      then show ?thesis using ih cs_receive match_echoes_counts [OF _ 2(1)] by auto
    qed
  qed (use ih es in auto)
qed simp

text \<open>One worker: the pings it sent, its result, and its client when the report is made.\<close>

definition worked :: "(bytes \<Rightarrow> bytes \<Rightarrow> bytes) \<Rightarrow> bytes list \<times> (u64 \<times> u64) \<Rightarrow> load_client \<Rightarrow> bool" where
  "worked hmac4 w c \<longleftrightarrow> (\<exists>i hs c1. i < 2 ^ 64 \<and> run (client_step hmac4) (load_client_new i hs, False) (fst w) (c1, False)
     \<and> snd w = load_result c1 \<and> run (client_step hmac4) (c1, False) [] (c, False))"

lemma worked_counts:
  assumes "worked hmac4 (pkts, result) c"
  obtains lost where "result = (of_nat (length pkts), of_nat lost)" "length (lc_rtts c) \<le> length pkts" "lost \<le> length pkts"
    "length pkts \<le> 512 \<Longrightarrow> length pkts \<le> length (lc_rtts c) + lost"
proof -
  obtain i hs c1 where w: "i < 2 ^ 64" "run (client_step hmac4) (load_client_new i hs, False) pkts (c1, False)"
      "result = load_result c1" "run (client_step hmac4) (c1, False) [] (c, False)"
    using assms by (auto simp: worked_def)
  note c1 = client_counts [OF w(2,1), unfolded counted_def]
  from receives_only [OF w(4)] c1
  have "length (lc_rtts c) + length (lc_pending c) = length (lc_rtts c1) + length (lc_pending c1)" "length (lc_pending c) \<le> length (lc_pending c1)"
    by simp_all
  then show ?thesis using c1 w(3) by (intro that [of "length (lc_pending c1)"]) (auto simp: load_result_def)
qed

lemma report_counts:
  assumes "list_all2 (worked hmac4) ws cs"
  shows "\<exists>lost. load_totals (map snd ws) = (of_nat (sum_list (map (\<lambda>w. length (fst w)) ws)), of_nat lost)
    \<and> length (concat (map lc_rtts cs)) \<le> sum_list (map (\<lambda>w. length (fst w)) ws) \<and> lost \<le> sum_list (map (\<lambda>w. length (fst w)) ws)
    \<and> ((\<forall>w \<in> set ws. length (fst w) \<le> 512) \<longrightarrow> sum_list (map (\<lambda>w. length (fst w)) ws) \<le> length (concat (map lc_rtts cs)) + lost)"
  using assms
proof induction
  case (Cons w ws c cs)
  obtain pkts result where w: "w = (pkts, result)" by (cases w)
  obtain lost where l: "result = (of_nat (length pkts), of_nat lost)" "length (lc_rtts c) \<le> length pkts" "lost \<le> length pkts"
      "length pkts \<le> 512 \<Longrightarrow> length pkts \<le> length (lc_rtts c) + lost"
    using worked_counts [OF Cons.hyps(1) [unfolded w]] by blast
  from Cons.IH obtain losts where "load_totals (map snd ws) = (of_nat (sum_list (map (\<lambda>w. length (fst w)) ws)), of_nat losts)"
      "length (concat (map lc_rtts cs)) \<le> sum_list (map (\<lambda>w. length (fst w)) ws)" "losts \<le> sum_list (map (\<lambda>w. length (fst w)) ws)"
      "(\<forall>w \<in> set ws. length (fst w) \<le> 512) \<longrightarrow> sum_list (map (\<lambda>w. length (fst w)) ws) \<le> length (concat (map lc_rtts cs)) + losts"
    by blast
  then show ?case using l by (intro exI [of _ "lost + losts"]) (auto simp: w)
qed simp

text \<open>
  C38. What the load tool reports is accounted for: over any number of clients, with their receive tasks
  interleaved in any way and running on after the workers, the messages reported as sent are those
  sent, no more echoes and no more lost pings are reported than were sent, and as long as no client
  sends more than 512 pings, each is among the answered or the lost (an echo that comes after its
  worker has ended is in both).
\<close>

theorem load_report_accounts:
  assumes "list_all2 (worked hmac4) ws cs" "sum_list (map (\<lambda>w. length (fst w)) ws) < 2 ^ 64"
    and "load_report (map snd ws) cs = ((sent, lost), answered, p50, p99)"
  shows "unat sent = sum_list (map (\<lambda>w. length (fst w)) ws) \<and> answered \<le> unat sent \<and> unat lost \<le> unat sent
    \<and> ((\<forall>w \<in> set ws. length (fst w) \<le> 512) \<longrightarrow> unat sent \<le> answered + unat lost)"
proof -
  let ?n = "sum_list (map (\<lambda>w. length (fst w)) ws)"
  obtain l where l: "load_totals (map snd ws) = (of_nat ?n, of_nat l)" "length (concat (map lc_rtts cs)) \<le> ?n" "l \<le> ?n"
      "(\<forall>w \<in> set ws. length (fst w) \<le> 512) \<longrightarrow> ?n \<le> length (concat (map lc_rtts cs)) + l"
    using report_counts [OF assms(1)] by blast
  have r: "sent = of_nat ?n" "lost = of_nat l" "answered = length (concat (map lc_rtts cs))"
    using assms(3) l(1) by (auto simp: load_report_def Let_def)
  have "unat sent = ?n" "unat lost = l" using assms(2) l(3) by (simp_all add: r unsigned_of_nat take_bit_nat_eq_self)
  then show ?thesis using l r(3) by simp
qed

theorem load_report_accounts_witness:
  "\<exists>pkt c. let r = load_report [load_result c] [c] in worked (\<lambda>_ _. [1, 2, 3, 4]) ([pkt], load_result c) c
     \<and> unat (fst (fst r)) = 1 \<and> 1 \<le> fst (snd r) + unat (snd (fst r))"
proof -
  let ?m = "\<lambda>_ _. [1, 2, 3, 4 :: u8]" and ?c0 = "load_client_new 7 (1, [])"
  have i: "lc_id ?c0 < 2 ^ 64" by (simp add: load_client_new_def)
  obtain c pkt where p: "load_ping ?m ?c0 5 = Some (c, pkt)" using load_ping_eq [OF i, of ?m 5] by (simp add: Let_def)
  have "run (client_step ?m) (?c0, False) ([pkt] @ []) (c, False)"
    by (rule run_trans [OF run_single [of "client_step ?m", OF cs_note [OF p]] run_single [of "client_step ?m", OF cs_send [OF p]]])
  then have w: "worked ?m ([pkt], load_result c) c" unfolding worked_def 
    by (intro exI [of _ 7] exI [of _ "(1, [])"] exI [of _ c] conjI) (simp_all add: run_nil)
  obtain sent lost answered p50 p99 where r: "load_report (map snd [([pkt], load_result c)]) [c] = ((sent, lost), answered, p50, p99)"
    by (metis prod_cases5 surj_pair)
  have "list_all2 (worked ?m) [([pkt], load_result c)] [c]" using w by simp
  from load_report_accounts [OF this _ r] have "unat sent = 1" "1 \<le> answered + unat lost" by simp_all
  then show ?thesis using w r by (intro exI [of _ pkt] exI [of _ c]) (simp add: Let_def)
qed

text \<open>
  An echo that overtakes the note of its ping (the main loop awaits the send before it takes the lock)
  finds nothing pending: it is ignored, and the ping is reported as lost.
\<close>

lemma early_echo_ignored:
  "(\<And>q. echo_seq prefix (fr_body f) = Some q \<Longrightarrow> q \<notin> fst ` set pending) \<Longrightarrow>
     match_echoes prefix clk [f] pending rtts = (pending, rtts)"
  by (cases "echo_seq prefix (fr_body f)") (auto simp: map_of_eq_None_iff [THEN iffD2] split: option.split)

section \<open>Arguments and configuration\<close>

text \<open>The standard library's reading of a floating-point number is \<open>parse_f64\<close> (without infinities and NaN).\<close>

record bench_args =
  ba_scenario :: bytes
  ba_clients :: nat
  ba_duration :: nat
  ba_grace_scale :: rat

definition bench_args_default :: bench_args where
  "bench_args_default = \<lparr>ba_scenario = ascii ''echo'', ba_clients = 100, ba_duration = 5, ba_grace_scale = 1\<rparr>"

fun bench_parse_args :: "(bytes \<Rightarrow> rat option) \<Rightarrow> bytes list \<Rightarrow> bench_args \<Rightarrow> bench_args" where
  "bench_parse_args parse_f64 [] a = a"
| "bench_parse_args parse_f64 (k # rest) a =
     (let v = (case rest of [] \<Rightarrow> [] | v # _ \<Rightarrow> v);
          a = (if k = ascii ''--scenario'' then a\<lparr>ba_scenario := v\<rparr>
               else if k = ascii ''--clients'' then a\<lparr>ba_clients := parse_or 64 v 100\<rparr>
               else if k = ascii ''--duration'' then a\<lparr>ba_duration := parse_or 64 v 5\<rparr>
               else if k = ascii ''--grace-scale'' then a\<lparr>ba_grace_scale := (case parse_f64 v of Some x \<Rightarrow> x | None \<Rightarrow> 1)\<rparr>
               else a)
      in bench_parse_args parse_f64 (tl rest) a)"

datatype scenario = Connect nat | Recycle nat rat | Restart | Unknown bytes

definition bench_scenario :: "bench_args \<Rightarrow> scenario" where
  "bench_scenario a =
     (if ba_scenario a = ascii ''connect'' then Connect (ba_clients a)
      else if ba_scenario a = ascii ''recycle'' then Recycle (ba_clients a) (ba_grace_scale a)
      else if ba_scenario a = ascii ''restart'' then Restart
      else Unknown (ba_scenario a))"

text \<open>The scenario chosen by default is none of those there are.\<close>

lemma bench_default_unknown: "bench_scenario (bench_parse_args parse_f64 [] bench_args_default) = Unknown (ascii ''echo'')"
  by (simp add: bench_scenario_def bench_args_default_def ascii_def)

text \<open>The engine that \<open>engineload.rs\<close> and \<open>interop.rs\<close> start, and that of \<open>bench.rs\<close>; \<open>None\<close> is a panic.\<close>

definition tool_engine_config :: "nat \<Rightarrow> string \<Rightarrow> engine_config" where
  "tool_engine_config cpus uds = (engine_config_default cpus)\<lparr>ec_bind_addr := V4 0x7F000001 0, ec_uds_path := uds, ec_udp_workers := 2\<rparr>"

definition bench_engine_config :: "nat \<Rightarrow> string \<Rightarrow> rat \<Rightarrow> engine_config option" where
  "bench_engine_config cpus uds grace_scale =
     map_option (\<lambda>session. (tool_engine_config cpus uds)\<lparr>ec_session := session\<rparr>) (bench_config grace_scale)"

section \<open>Waiting for the engine\<close>

text \<open>
  What a loop sees each time it asks the engine is a list. \<open>interop.rs\<close> asks 50 times for the link;
  \<open>bench.rs\<close> asks for the number of active sessions and the time since the start until there are none
  or a minute is over, and reports the time; or for the link for 20 seconds. \<open>None\<close> is a loop that goes on.
\<close>

fun wait_online :: "nat \<Rightarrow> bool list \<Rightarrow> bool option" where
  "wait_online 0 seen = Some False"
| "wait_online (Suc n) [] = None"
| "wait_online (Suc n) (online # seen) = (if online then Some True else wait_online n seen)"

fun recycle_wait :: "(u64 \<times> duration \<times> duration) list \<Rightarrow> rat option" where
  "recycle_wait [] = None"
| "recycle_wait ((active, elapsed, elapsed') # seen) =
     (if active = 0 \<or> secs 60 < elapsed then Some (as_secs_f64 elapsed') else recycle_wait seen)"

fun restart_wait :: "(duration \<times> bool) list \<Rightarrow> bool option" where
  "restart_wait [] = None"
| "restart_wait ((elapsed, online) # seen) =
     (if elapsed < secs 20 then if online then Some True else restart_wait seen else Some False)"

definition interop_verdict :: "u16 option option \<Rightarrow> u16 \<Rightarrow> bool" where
  "interop_verdict joined sent =
     ((case joined of None \<Rightarrow> 0 | Some None \<Rightarrow> 0 | Some (Some echoed) \<Rightarrow> echoed) = sent)"

lemma wait_online_outcome: "wait_online n seen = Some b \<Longrightarrow> b \<longleftrightarrow> True \<in> set (take n seen)"
  by (induction n seen rule: wait_online.induct) (auto split: if_splits)

lemma wait_online_ends: "n \<le> length seen \<Longrightarrow> wait_online n seen \<noteq> None"
  by (induction n seen rule: wait_online.induct) auto

text \<open>
  The wait for the recycling ends by a minute at the latest and not before, unless no session is left;
  but it reports its time as that of a complete recycling in either case.
\<close>

lemma recycle_wait_outcome:
  "recycle_wait seen = map_option (\<lambda>(_, _, e). as_secs_f64 e) (List.find (\<lambda>(active, e, _). active = 0 \<or> secs 60 < e) seen)"
  by (induction seen rule: recycle_wait.induct) auto

lemma recycle_wait_ends: "(active, elapsed, elapsed') \<in> set seen \<Longrightarrow> secs 60 < elapsed \<Longrightarrow> recycle_wait seen \<noteq> None"
  by (induction seen rule: recycle_wait.induct) auto

text \<open>The interoperability test succeeds without an echo exactly when it has sent nothing.\<close>

lemma interop_verdict_timeout: "interop_verdict None sent \<longleftrightarrow> sent = 0"
  by (auto simp: interop_verdict_def)

end
