(* ===== verification/Reliable_Link.thy ===== *)
theory Reliable_Link
  imports Client_Window
begin

text \<open>
  The reliable ordered channel over a network that loses, duplicates and reorders: the engine's
  retransmission queue (\<open>src/reliable/retransmit.rs\<close>) at one end, at the other a receiver that
  acknowledges what it has seen. The contract of a receiver is the locale \<open>ack_receiver\<close>; it is
  interpreted on the window of the load tool (\<open>src/examples/engineload.rs\<close>) and on the session of the
  engine with its reorder buffer (\<open>src/session/table.rs\<close>).
\<close>

section \<open>The link\<close>

text \<open>
  Packet \<open>j\<close> of the stream has the sequence number \<open>j\<close> modulo \<open>2^16\<close> and the bytes \<open>wire j\<close>. The network
  holds copies of packets, which may arrive any number of times, and acknowledgements, each with the
  first index that was missing when it was made. \<open>ll_got\<close> is the history of arrivals.
\<close>

record 'r lossy_link =
  ll_queue :: retransmit_queue
  ll_next :: nat
  ll_flight :: "bytes set"
  ll_receiver :: 'r
  ll_got :: "nat list"
  ll_acks :: "(nat \<times> u16 \<times> u32) set"

definition lossy_start :: "'r \<Rightarrow> 'r lossy_link" where
  "lossy_start r = \<lparr>ll_queue = rq_new, ll_next = 0, ll_flight = {}, ll_receiver = r, ll_got = [], ll_acks = {}\<rparr>"

text \<open>
  A packet is sent when the queue has room; the queue is scanned for late packets; a copy arrives, and
  the receiver acknowledges; an acknowledgement arrives, with its fast retransmission; and anything
  in flight is lost. The network forgets: a copy arrives no later than 256 packets after it was first
  missing, an acknowledgement no later than 32767 packets after it was made.
\<close>

inductive lossy_step :: "('r \<Rightarrow> nat \<Rightarrow> 'r option) \<Rightarrow> ('r \<Rightarrow> u16 \<times> u32) \<Rightarrow> (nat \<Rightarrow> bytes) \<Rightarrow> bool
    \<Rightarrow> 'r lossy_link \<Rightarrow> 'r lossy_link \<Rightarrow> bool"
  for see :: "'r \<Rightarrow> nat \<Rightarrow> 'r option" and ack :: "'r \<Rightarrow> u16 \<times> u32" and wire :: "nat \<Rightarrow> bytes" and chk :: bool where
  ll_send: "rq_push (ll_queue l) (of_nat (ll_next l)) (wire (ll_next l)) now = Inr q \<Longrightarrow>
     lossy_step see ack wire chk l (l\<lparr>ll_queue := q, ll_next := Suc (ll_next l), ll_flight := insert (wire (ll_next l)) (ll_flight l)\<rparr>)"
| ll_resend: "retransmit_due (ll_queue l) now rto_d = (q, due) \<Longrightarrow>
     lossy_step see ack wire chk l (l\<lparr>ll_queue := q, ll_flight := ll_flight l \<union> snd ` set due\<rparr>)"
| ll_receive: "j < ll_next l \<Longrightarrow> wire j \<in> ll_flight l \<Longrightarrow> frontier (ll_got l) \<le> j + 256 \<Longrightarrow> see (ll_receiver l) j = Some r \<Longrightarrow>
     lossy_step see ack wire chk l (l\<lparr>ll_receiver := r, ll_got := ll_got l @ [j],
       ll_acks := insert (frontier (ll_got l @ [j]), ack r) (ll_acks l)\<rparr>)"
| ll_acked: "(k, a, bits) \<in> ll_acks l \<Longrightarrow> ll_next l \<le> k + 32767 \<Longrightarrow> on_ack chk (ll_queue l) a bits now = Some r \<Longrightarrow>
     lossy_step see ack wire chk l (l\<lparr>ll_queue := ar_queue r, ll_flight := ll_flight l \<union> set (ar_fast r)\<rparr>)"
| ll_lose: "lossy_step see ack wire chk l (l\<lparr>ll_flight := ll_flight l - packets, ll_acks := ll_acks l - acks\<rparr>)"

inductive_cases lossy_stepE: "lossy_step see ack wire chk l l'"

fun feed :: "('r \<Rightarrow> nat \<Rightarrow> 'r option) \<Rightarrow> 'r \<Rightarrow> nat list \<Rightarrow> 'r option" where
  "feed see r [] = Some r"
| "feed see r (j # js) = do { r \<leftarrow> see r j; feed see r js }"

lemma feed_append: "feed see r (xs @ ys) = do { r \<leftarrow> feed see r xs; feed see r ys }"
  by (induction xs arbitrary: r) (simp_all split: Option.bind_split)

section \<open>Frontiers\<close>

lemma frontier_props: "{..<frontier js} \<subseteq> set js" "frontier js \<notin> set js"
proof -
  obtain k where k: "{..<k} \<subseteq> set js" "k \<notin> set js" by (rule next_missing [of "set js" 0]) auto
  then have "frontier js = k" by (rule frontier_eq)
  with k show "{..<frontier js} \<subseteq> set js" "frontier js \<notin> set js" by simp_all
qed

lemma frontier_least: "{..<k} \<subseteq> set js \<Longrightarrow> k \<le> frontier js"
  using frontier_props(2) [of js] by (meson lessThan_iff not_le subsetD)

lemma frontier_most: "set js \<subseteq> {..<n} \<Longrightarrow> frontier js \<le> n"
  using frontier_props(1) [of js] by (meson lessThan_subset_iff subset_trans)

section \<open>The contract of a receiver\<close>

locale ack_receiver =
  fixes see :: "'r \<Rightarrow> nat \<Rightarrow> 'r option"
    and ack :: "'r \<Rightarrow> u16 \<times> u32"
    and init :: 'r
  assumes see_near: "near (js @ [j]) \<Longrightarrow> feed see init js = Some r \<Longrightarrow> \<exists>r'. see r j = Some r'"
    and ack_exact: "near js \<Longrightarrow> feed see init js = Some r \<Longrightarrow> frontier js \<le> j + 32768 \<Longrightarrow> j < frontier js + 32767
      \<Longrightarrow> is_acked (of_nat j) (fst (ack r)) (snd (ack r)) \<longleftrightarrow> j \<in> set js \<and> j < frontier js + 32"
begin

text \<open>
  The queue holds the packets from some index on, all before it have arrived; what is in flight was
  sent, and every acknowledgement is that of an earlier state of the receiver.
\<close>

definition link_inv :: "(nat \<Rightarrow> bytes) \<Rightarrow> 'r lossy_link \<Rightarrow> nat \<Rightarrow> bool" where
  "link_inv wire l m \<longleftrightarrow>
     m \<le> ll_next l \<and> ll_next l \<le> m + 64 \<and> {..<m} \<subseteq> set (ll_got l) \<and> set (ll_got l) \<subseteq> {..<ll_next l}
   \<and> map pp_seq (rq_entries (ll_queue l)) = map of_nat [m..<ll_next l]
   \<and> map pp_datagram (rq_entries (ll_queue l)) = map wire [m..<ll_next l]
   \<and> near (ll_got l) \<and> feed see init (ll_got l) = Some (ll_receiver l)
   \<and> ll_flight l \<subseteq> wire ` {..<ll_next l}
   \<and> (\<forall>(k, a) \<in> ll_acks l. \<exists>js r. k = frontier js \<and> a = ack r \<and> near js \<and> feed see init js = Some r \<and> set js \<subseteq> set (ll_got l))"

lemma link_inv_start: "link_inv wire (lossy_start init) 0"
  by (simp add: link_inv_def lossy_start_def rq_new_def near_def)

lemma link_inv_near:
  assumes "link_inv wire l m" "j < ll_next l" "frontier (ll_got l) \<le> j + 256"
  shows "near (ll_got l @ [j])"
proof -
  have "m \<le> frontier (ll_got l)" using assms(1) by (intro frontier_least) (simp add: link_inv_def)
  then show ?thesis using assms by (auto simp: link_inv_def near_snoc)
qed

lemma link_inv_send:
  assumes "link_inv wire l m" "rq_push (ll_queue l) (of_nat (ll_next l)) (wire (ll_next l)) now = Inr q"
  shows "link_inv wire (l\<lparr>ll_queue := q, ll_next := Suc (ll_next l), ll_flight := insert (wire (ll_next l)) (ll_flight l)\<rparr>) m"
proof -
  note q = rq_push_InrD [OF assms(2)]
  have "length (map pp_seq (rq_entries (ll_queue l))) = length (map of_nat [m..<ll_next l] :: u16 list)"
    using assms(1) by (simp only: link_inv_def)
  then have "ll_next l - m < 64" using q by (simp add: RETRANSMIT_QUEUE_CAP_def)
  then have "Suc (ll_next l) \<le> m + 64" by linarith
  then show ?thesis using assms(1) q by (auto simp: link_inv_def)
qed

lemma link_inv_queue:
  assumes "link_inv wire l m" "map pp_seq (rq_entries q) = map pp_seq (rq_entries (ll_queue l))"
    and "map pp_datagram (rq_entries q) = map pp_datagram (rq_entries (ll_queue l))"
    and "resent \<subseteq> pp_datagram ` set (rq_entries (ll_queue l))"
  shows "link_inv wire (l\<lparr>ll_queue := q, ll_flight := ll_flight l \<union> resent\<rparr>) m"
proof -
  have "pp_datagram ` set (rq_entries (ll_queue l)) = set (map wire [m..<ll_next l])"
    using assms(1) unfolding link_inv_def by (metis list.set_map)
  then have "resent \<subseteq> wire ` {..<ll_next l}" using assms(4) by auto
  then show ?thesis using assms(1-3) by (simp add: link_inv_def)
qed

lemma link_inv_receive:
  assumes "link_inv wire l m" "j < ll_next l" "frontier (ll_got l) \<le> j + 256" "see (ll_receiver l) j = Some r"
  shows "link_inv wire (l\<lparr>ll_receiver := r, ll_got := ll_got l @ [j],
    ll_acks := insert (frontier (ll_got l @ [j]), ack r) (ll_acks l)\<rparr>) m"
proof -
  have n: "near (ll_got l @ [j])" by (rule link_inv_near [OF assms(1-3)])
  have f: "feed see init (ll_got l @ [j]) = Some r" using assms(1,4) by (simp add: link_inv_def feed_append)
  have "\<forall>(k, a) \<in> ll_acks l. \<exists>js r. k = frontier js \<and> a = ack r \<and> near js \<and> feed see init js = Some r \<and> set js \<subseteq> insert j (set (ll_got l))"
    using assms(1) unfolding link_inv_def by blast
  moreover have "\<exists>js r'. frontier (ll_got l @ [j]) = frontier js \<and> ack r = ack r' \<and> near js \<and> feed see init js = Some r' \<and> set js \<subseteq> insert j (set (ll_got l))"
    using n f by (intro exI [of _ "ll_got l @ [j]"] exI [of _ r]) simp
  ultimately show ?thesis using assms(1,2) n f by (auto simp: link_inv_def)
qed

text \<open>An acknowledgement, however old, drops only what has arrived.\<close>

lemma link_inv_acked:
  assumes "link_inv wire l m" "(k, a, bits) \<in> ll_acks l" "ll_next l \<le> k + 32767" "on_ack chk (ll_queue l) a bits now = Some res"
  shows "\<exists>m'. link_inv wire (l\<lparr>ll_queue := ar_queue res, ll_flight := ll_flight l \<union> set (ar_fast res)\<rparr>) m'"
proof -
  let ?es = "rq_entries (ll_queue l)"
  obtain js r where js: "k = frontier js" "(a, bits) = ack r" "near js" "feed see init js = Some r" "set js \<subseteq> set (ll_got l)"
    using assms(1,2) unfolding link_inv_def by blast
  have b: "m \<le> ll_next l" "ll_next l \<le> m + 64" "set (ll_got l) \<subseteq> {..<ll_next l}" "{..<m} \<subseteq> set (ll_got l)"
      "map pp_seq ?es = map of_nat [m..<ll_next l]" "map pp_datagram ?es = map wire [m..<ll_next l]"
    using assms(1) by (simp_all add: link_inv_def)
  have "frontier js \<le> ll_next l" using js(5) b(3) by (intro frontier_most) (rule subset_trans)
  then have acked: "is_acked (of_nat j) a bits \<longleftrightarrow> j \<in> set js \<and> j < frontier js + 32" if "m \<le> j" "j < ll_next l" for j
    using ack_exact [OF js(3,4), of j] that b(2) assms(3) js(1,2) [symmetric] by simp
  define n where "n = length (acked_prefix a bits ?es)"
  have n: "n \<le> length ?es" unfolding n_def by (rule length_takeWhile_le)
  have len: "length ?es = ll_next l - m" using arg_cong [OF b(5), of length] by simp
  have "j \<in> set (ll_got l)" if "m \<le> j" "j < m + n" for j
  proof -
    have i: "j - m < n" using that by simp
    then have "is_acked (pp_seq (?es ! (j - m))) a bits" unfolding n_def
      by (metis (no_types, lifting) nth_mem set_takeWhileD takeWhile_nth)
    moreover have "pp_seq (?es ! (j - m)) = of_nat j"
      using arg_cong [OF b(5), of "\<lambda>xs. xs ! (j - m)"] i n len that(1) by simp
    ultimately show ?thesis using acked [of j] that n len js(5) by auto
  qed
  then have got: "{..<m + n} \<subseteq> set (ll_got l)" using b(4) by (auto simp: subset_iff not_less) (metis lessThan_iff not_le subsetD)
  have "rq_entries (ar_queue res) = drop n ?es" unfolding n_def on_ack_SomeD(1) [OF assms(4)] by (rule dropWhile_eq_drop)
  then have "map pp_seq (rq_entries (ar_queue res)) = drop n (map pp_seq ?es)"
      "map pp_datagram (rq_entries (ar_queue res)) = drop n (map pp_datagram ?es)"
    by (simp_all add: drop_map)
  then have q: "map pp_seq (rq_entries (ar_queue res)) = map of_nat [m + n..<ll_next l]"
      "map pp_datagram (rq_entries (ar_queue res)) = map wire [m + n..<ll_next l]"
    by (simp_all only: b(5,6) drop_map drop_upt)
  have "set (ar_fast res) \<subseteq> wire ` {..<ll_next l}"
    using on_ack_fast [OF assms(4)] arg_cong [OF b(6), of set] by auto
  then have "link_inv wire (l\<lparr>ll_queue := ar_queue res, ll_flight := ll_flight l \<union> set (ar_fast res)\<rparr>) (m + n)"
    using assms(1) q got n len b by (simp add: link_inv_def)
  then show ?thesis by blast
qed

lemma link_inv_step:
  assumes "lossy_step see ack wire chk l l'" "link_inv wire l m"
  shows "\<exists>m'. link_inv wire l' m'"
  using assms(1)
proof cases
  case (ll_resend now rto_d q due)
  have q: "q = fst (retransmit_due (ll_queue l) now rto_d)" using ll_resend(2) by simp
  have "snd ` set due \<subseteq> pp_datagram ` set (rq_entries (ll_queue l))"
    using ll_resend(2) by (auto simp: retransmit_due_def Let_def)
  then show ?thesis unfolding ll_resend(1) using link_inv_queue [OF assms(2), of q] q by (auto simp: frame_simps)
next
  case (ll_lose packets acks)
  then show ?thesis using assms(2) by (intro exI [of _ m]) (auto simp: link_inv_def)
qed (use link_inv_send [OF assms(2)] link_inv_receive [OF assms(2)] link_inv_acked [OF assms(2)] in blast)+

lemma link_inv_reachable:
  "(lossy_step see ack wire chk)\<^sup>*\<^sup>* (lossy_start init) l \<Longrightarrow> \<exists>m. link_inv wire l m"
  by (induction rule: rtranclp_induct) (use link_inv_start link_inv_step in blast)+

lemma link_inv_unfold:
  assumes "link_inv wire l m"
  shows "map pp_seq (rq_entries (ll_queue l)) = map of_nat [m..<ll_next l]
    \<and> map pp_datagram (rq_entries (ll_queue l)) = map wire [m..<ll_next l]
    \<and> m \<le> ll_next l \<and> ll_next l \<le> m + 64 \<and> {..<m} \<subseteq> set (ll_got l) \<and> set (ll_got l) \<subseteq> {..<ll_next l}
    \<and> near (ll_got l) \<and> feed see init (ll_got l) = Some (ll_receiver l)"
  using assms by (simp add: link_inv_def)

lemma feed_queued:
  assumes "link_inv wire l m" "set js \<subseteq> {m..<ll_next l}"
  shows "near (ll_got l @ js) \<and> (\<exists>r. feed see (ll_receiver l) js = Some r)"
  using assms(2)
proof (induction js rule: rev_induct)
  case Nil
  then show ?case using assms(1) by (simp add: link_inv_def)
next
  case (snoc j js)
  then obtain r where r: "near (ll_got l @ js)" "feed see (ll_receiver l) js = Some r" by auto
  note i = link_inv_unfold [OF assms(1)]
  have "m \<le> frontier (ll_got l @ js)" using i by (intro frontier_least) auto
  moreover have "frontier (ll_got l @ js) \<le> ll_next l" using i snoc.prems by (intro frontier_most) auto
  ultimately have n: "near ((ll_got l @ js) @ [j])" unfolding near_snoc using r(1) i snoc.prems by auto
  have "feed see init (ll_got l @ js) = Some r" using i r(2) by (simp add: feed_append)
  from see_near [OF n this] n r(2) show ?case by (auto simp: feed_append)
qed

text \<open>When all that is queued arrives, the next acknowledgement empties the queue.\<close>

lemma queue_released:
  assumes "link_inv wire l m" "set js = {m..<ll_next l}" "map pp_seq (rq_entries q) = map of_nat [m..<ll_next l]"
  shows "\<exists>r res. feed see (ll_receiver l) js = Some r \<and> set (ll_got l @ js) = {..<ll_next l}
    \<and> on_ack chk q (fst (ack r)) (snd (ack r)) now = Some res \<and> rq_entries (ar_queue res) = []"
proof -
  note i = link_inv_unfold [OF assms(1)]
  obtain r where r: "near (ll_got l @ js)" "feed see (ll_receiver l) js = Some r"
    using feed_queued [OF assms(1)] assms(2) by blast
  have all: "set (ll_got l @ js) = {..<ll_next l}" using i assms(2) by fastforce
  then have f: "frontier (ll_got l @ js) = ll_next l" by (intro frontier_eq) auto
  have fd: "feed see init (ll_got l @ js) = Some r" using i r(2) by (simp add: feed_append)
  have a: "is_acked (of_nat j) (fst (ack r)) (snd (ack r))" if "m \<le> j" "j < ll_next l" for j
  proof -
    have "j \<in> set (ll_got l @ js)" using that unfolding all by simp
    then show ?thesis using ack_exact [OF r(1) fd, of j] that i unfolding f by (simp del: set_append)
  qed
  have "pp_seq p \<in> set (map of_nat [m..<ll_next l])" if "p \<in> set (rq_entries q)" for p
    using that unfolding assms(3) [symmetric] by simp
  then have acked: "\<forall>p \<in> set (rq_entries q). is_acked (pp_seq p) (fst (ack r)) (snd (ack r))"
    using a by fastforce
  then have "skip_head chk q (fst (ack r)) (snd (ack r)) = Some (q, [])"
    by (cases "rq_entries q") (simp_all add: skip_head_def)
  then obtain res where res: "on_ack chk q (fst (ack r)) (snd (ack r)) now = Some res" by (simp add: on_ack_def case_prod_beta)
  then have "rq_entries (ar_queue res) = []" using acked by (simp add: on_ack_SomeD(1))
  then show ?thesis using r(2) all res by blast
qed

end

section \<open>The two receivers\<close>

lemma feed_window: "feed (\<lambda>w j. window_note w (of_nat j)) w js = window_feed w (map of_nat js)"
  by (induction js arbitrary: w) (simp_all split: Option.bind_split)

interpretation window: ack_receiver "\<lambda>w j. window_note w (of_nat j)" window_ack window_new
proof unfold_locales
  fix js j and r :: rx_window
  assume "near (js @ [j])" "feed (\<lambda>w j. window_note w (of_nat j)) window_new js = Some r"
  then have "length (rw_seen r) \<le> 512"
    using window_feed_total [of window_new "map of_nat js"] by (simp add: feed_window window_new_def)
  then show "\<exists>r'. window_note r (of_nat j) = Some r'" using window_note_total by blast
qed (simp add: feed_window is_acked_window)

text \<open>The headers and frames of the stream as the engine receives them; the log is what it has delivered.\<close>

definition link_header :: "u32 \<Rightarrow> (nat \<Rightarrow> u16 \<times> u32) \<Rightarrow> nat \<Rightarrow> datagram_header" where
  "link_header c acks j = \<lparr>dh_version = VERSION, dh_flags = FLAG_HMAC, dh_conn_id = c, dh_seq = of_nat j,
     dh_ack = fst (acks j), dh_ack_bits = snd (acks j)\<rparr>"

fun ch2_see :: "u32 \<Rightarrow> (nat \<Rightarrow> u16 \<times> u32) \<Rightarrow> (nat \<Rightarrow> frame_ref) \<Rightarrow> instant \<Rightarrow> session \<times> session_event list \<Rightarrow> nat
    \<Rightarrow> (session \<times> session_event list) option" where
  "ch2_see c acks f now (s, evs) j =
     (case handle_ch2 s (link_header c acks j) (f j) now of None \<Rightarrow> None | Some (s', evs') \<Rightarrow> Some (s', evs @ evs'))"

lemma feed_ch2:
  "feed (ch2_see c acks f now) (s, evs) js =
     map_option (\<lambda>(s', evs'). (s', evs @ evs')) (ch2_feed s now (map (\<lambda>j. (link_header c acks j, f j)) js))"
  by (induction js arbitrary: s evs) (auto split: option.split)

lemma feed_ch2_rx:
  assumes "near js" "feed (ch2_see c acks f now) (new_session i n peer secret token t0, []) js = Some r"
  shows "\<exists>H. rx_at (\<lambda>j. (fr_msg_id (f j), fr_body (f j))) (frontier js) H (fst r) \<and> frontier js \<notin> H \<and> {..<frontier js} \<union> H = set js
    \<and> se_ch3_seen (fst r) = []
    \<and> snd r = concat (map (\<lambda>j. data_event (new_session i n peer secret token t0) (fr_msg_id (f j), fr_body (f j))) [0..<frontier js])"
proof -
  let ?s = "new_session i n peer secret token t0"
  have h: "dh_flags (link_header c acks j) AND FLAG_FRAGMENT = 0 \<and> dh_seq (link_header c acks j) = of_nat j" for j
    by (simp add: link_header_def flag_defs)
  obtain s' H where s': "ch2_feed ?s now (map (\<lambda>j. (link_header c acks j, f j)) js) =
      Some (s', concat (map (\<lambda>j. data_event ?s (fr_msg_id (f j), fr_body (f j))) [0..<frontier js]))"
    "rx_at (\<lambda>j. (fr_msg_id (f j), fr_body (f j))) (frontier js) H s'" "frontier js \<notin> H" "{..<frontier js} \<union> H = set js"
    "ch2_core s' = ch2_core ?s"
    using ch2_feed_rx [OF near_in_window [OF assms(1)], of "link_header c acks" f "\<lambda>j. (fr_msg_id (f j), fr_body (f j))" ?s now] h rx_at_new
    by auto
  have "se_ch3_seen s' = []" using ch2_core_fields(5) [OF s'(5)] by (simp add: new_session_def)
  then show ?thesis using assms(2) s' by (auto simp: feed_ch2)
qed

interpretation session: ack_receiver "ch2_see c acks f now" "\<lambda>r. compute_ack (fst r)" "(new_session i n peer secret token t0, [])"
  for c acks f now i n peer secret token t0
proof unfold_locales
  fix js j and r :: "session \<times> session_event list"
  let ?s = "new_session i n peer secret token t0"
  assume a: "near (js @ [j])" "feed (ch2_see c acks f now) (?s, []) js = Some r"
  have h: "dh_flags (link_header c acks j) AND FLAG_FRAGMENT = 0 \<and> dh_seq (link_header c acks j) = of_nat j" for j
    by (simp add: link_header_def flag_defs)
  have "\<exists>x. ch2_feed ?s now (map (\<lambda>j. (link_header c acks j, f j)) (js @ [j])) = Some x"
    using ch2_feed_rx [OF near_in_window [OF a(1)], of "link_header c acks" f "\<lambda>j. (fr_msg_id (f j), fr_body (f j))" ?s now] h rx_at_new
    by blast
  then have "feed (ch2_see c acks f now) (?s, []) (js @ [j]) \<noteq> None" unfolding feed_ch2 by auto
  then show "\<exists>r'. ch2_see c acks f now r j = Some r'" using a(2) by (auto simp: feed_append split: bind_splits)
next
  fix js j and r :: "session \<times> session_event list"
  assume a: "near js" "feed (ch2_see c acks f now) (new_session i n peer secret token t0, []) js = Some r"
    "frontier js \<le> j + 32768" "j < frontier js + 32767"
  obtain H where H: "rx_at (\<lambda>j. (fr_msg_id (f j), fr_body (f j))) (frontier js) H (fst r)" "frontier js \<notin> H"
      "{..<frontier js} \<union> H = set js" "se_ch3_seen (fst r) = []"
    using feed_ch2_rx [OF a(1,2)] by blast
  have "j < frontier js \<or> j \<in> H \<longleftrightarrow> j \<in> set js" using H(3) by auto
  then show "is_acked (of_nat j) (fst (compute_ack (fst r))) (snd (compute_ack (fst r))) \<longleftrightarrow> j \<in> set js \<and> j < frontier js + 32"
    using is_acked_compute_ack [OF H(1,2), of j] a(3,4) H(4) by (auto simp: WINDOW_def)
qed

text \<open>A short run: two packets are sent, the first is lost, the second arrives.\<close>

lemma near_one: "near [1]"
  by (simp add: near_def frontier_def)

lemma lossy_sample:
  assumes "see init 1 = Some r"
  shows "\<exists>l. (lossy_step see ack (\<lambda>j. [of_nat j]) chk)\<^sup>*\<^sup>* (lossy_start init) l \<and> ll_next l = 2 \<and> ll_got l = [1]
    \<and> [0] \<notin> ll_flight l \<and> map pp_sent_at (rq_entries (ll_queue l)) = [0, 0]"
proof -
  let ?step = "lossy_step see ack (\<lambda>j. [of_nat j]) chk" and ?l0 = "lossy_start init"
  define e where "e j = \<lparr>pp_seq = of_nat j, pp_sent_at = 0, pp_datagram = [of_nat j]\<rparr>" for j
  let ?q1 = "rq_new\<lparr>rq_entries := [e 0]\<rparr>" and ?q2 = "rq_new\<lparr>rq_entries := [e 0, e 1]\<rparr>"
  let ?l1 = "?l0\<lparr>ll_queue := ?q1, ll_next := 1, ll_flight := {[0]}\<rparr>"
  let ?l2 = "?l1\<lparr>ll_queue := ?q2, ll_next := 2, ll_flight := {[1], [0]}\<rparr>"
  let ?l3 = "?l2\<lparr>ll_flight := {[1]}\<rparr>"
  let ?l4 = "?l3\<lparr>ll_receiver := r, ll_got := [1], ll_acks := {(frontier [1], ack r)}\<rparr>"
  have "rq_push (ll_queue ?l0) (of_nat (ll_next ?l0)) [of_nat (ll_next ?l0)] 0 = Inr ?q1"
    by (simp add: lossy_start_def rq_push_def rq_new_def e_def RETRANSMIT_QUEUE_CAP_def)
  from ll_send [where wire = "\<lambda>j. [of_nat j]", OF this] have 1: "?step ?l0 ?l1" by (simp add: lossy_start_def)
  have "rq_push (ll_queue ?l1) (of_nat (ll_next ?l1)) [of_nat (ll_next ?l1)] 0 = Inr ?q2"
    by (simp add: rq_push_def rq_new_def e_def RETRANSMIT_QUEUE_CAP_def)
  from ll_send [where wire = "\<lambda>j. [of_nat j]", OF this] have 2: "?step ?l1 ?l2" by (simp add: numeral_2_eq_2 lossy_start_def)
  have "?l3 = ?l2\<lparr>ll_flight := ll_flight ?l2 - {[0]}, ll_acks := ll_acks ?l2 - {}\<rparr>" by (auto simp: lossy_start_def)
  then have 3: "?step ?l2 ?l3" by (simp only: ll_lose)
  have 4: "?step ?l3 ?l4"
    using ll_receive [of 1 ?l3 "\<lambda>j. [of_nat j]" see r ack chk] assms by (simp add: lossy_start_def frontier_def)
  have "?step\<^sup>*\<^sup>* ?l0 ?l4" using 1 2 3 4 by (meson rtranclp.rtrancl_refl rtranclp.rtrancl_into_rtrancl)
  then show ?thesis by (intro exI [of _ ?l4]) (simp add: e_def)
qed

section \<open>What the link promises\<close>

abbreviation window_see :: "rx_window \<Rightarrow> nat \<Rightarrow> rx_window option" where
  "window_see w j \<equiv> window_note w (of_nat j)"





text \<open>
  C3. The reliable ordered channel implements a perfect FIFO over a network that is anything but: with
  the engine's session as the receiver, over any run, the messages handed over so far are exactly the
  first ones of the stream, each once and in order, and they include every message that has left the
  sender's queue; so at most the last 64 are outstanding.
\<close>

theorem lossy_link_delivers_in_order:
  assumes "\<forall>j. fr_msg_id (f j) \<le> MSG_ID_MASK"
    and "(lossy_step (ch2_see c acks f now) (\<lambda>r. compute_ack (fst r)) wire chk)\<^sup>*\<^sup>*
      (lossy_start (new_session i n peer secret token t0, [])) l"
  shows "\<exists>m k. snd (ll_receiver l) = map (\<lambda>j. EvData n CH_RELIABLE_ORDERED (fr_msg_id (f j)) (fr_body (f j))) [0..<k]
    \<and> m \<le> k \<and> k \<le> ll_next l \<and> ll_next l \<le> m + 64 \<and> map pp_datagram (rq_entries (ll_queue l)) = map wire [m..<ll_next l]"
proof -
  obtain m where "session.link_inv c acks f now i n peer secret token t0 wire l m"
    using session.link_inv_reachable [OF assms(2)] by blast
  note u = session.link_inv_unfold [OF this]
  let ?k = "frontier (ll_got l)"
  have "snd (ll_receiver l) = concat (map (\<lambda>j. data_event (new_session i n peer secret token t0) (fr_msg_id (f j), fr_body (f j))) [0..<?k])"
    using feed_ch2_rx [of "ll_got l" c acks f now] u by blast
  also have "\<dots> = map (\<lambda>j. EvData n CH_RELIABLE_ORDERED (fr_msg_id (f j)) (fr_body (f j))) [0..<?k]"
    using assms(1) by (simp add: data_event_new)
  finally show ?thesis using u frontier_least [of m "ll_got l"] frontier_most [of "ll_got l" "ll_next l"] by blast
qed

theorem lossy_link_delivers_in_order_witness:
  "\<exists>l m k. (lossy_step (ch2_see 1 (\<lambda>_. (0, 0)) (\<lambda>j. \<lparr>fr_ch = 2, fr_msg_id = 7, fr_body = [of_nat j]\<rparr>) 5)
      (\<lambda>r. compute_ack (fst r)) (\<lambda>j. [of_nat j]) True)\<^sup>*\<^sup>* (lossy_start (new_session 1 9 (V4 0 0) 0 [] 0, [])) l
    \<and> ll_got l = [1] \<and> [0] \<notin> ll_flight l
    \<and> snd (ll_receiver l) = map (\<lambda>j. EvData 9 CH_RELIABLE_ORDERED 7 [of_nat j]) [0..<k] \<and> m \<le> k \<and> k \<le> 2"
proof -
  let ?f = "\<lambda>j. \<lparr>fr_ch = 2, fr_msg_id = 7, fr_body = [of_nat j]\<rparr> :: frame_ref"
  let ?see = "ch2_see 1 (\<lambda>_. (0, 0)) ?f 5" and ?init = "(new_session 1 9 (V4 0 0) 0 [] 0, [])"
  obtain r where "?see ?init 1 = Some r"
    using session.see_near [of "[]" 1 1 "\<lambda>_. (0, 0)" ?f 5 1 9 "V4 0 0" 0 "[]" 0 ?init] near_one by auto
  from lossy_sample [where see = ?see and ack = "\<lambda>r. compute_ack (fst r)" and chk = True, OF this] obtain l where
    l: "(lossy_step ?see (\<lambda>r. compute_ack (fst r)) (\<lambda>j. [of_nat j]) True)\<^sup>*\<^sup>* (lossy_start ?init) l"
      "ll_next l = 2" "ll_got l = [1]" "[0] \<notin> ll_flight l" by blast
  have "\<forall>j. fr_msg_id (?f j) \<le> MSG_ID_MASK" by (simp add: MSG_ID_MASK_def)
  from lossy_link_delivers_in_order [OF this l(1)] show ?thesis using l by auto
qed

end
