(* ===== verification/Spec2Isabelle.thy ===== *)
theory Spec2Isabelle
  imports Prelude Proto_Types Datagram Framing Uds_Frame Uds_Body F64 Rtt Serial Retransmit Fragment
    Session Stats Table Inbound Lifecycle Maintenance Outbound Long_Message Trace Transport Buffer_Pool
    Netem Engine Engine_Run End_To_End Ping Client_Window Client Client_Handshake Client_Acks
    Client_Engine Packet_Types Load_Tools Connection Stream_Service Engine_Tasks Tool_Runs Reliable_Link
begin

text \<open>
  A verification development for the engine of this repository, the Rust crate under \<open>src/src/\<close>, and
  for the load tools under \<open>src/examples/\<close>, which are its clients and its echo server. The
  engine stands between game clients, which speak a datagram protocol over UDP, TCP or WebSocket, and
  one logic server, which speaks length-prefixed frames over a Unix socket. It keeps a table of
  sessions, authenticates and acknowledges datagrams, delivers four kinds of channels, retransmits,
  fragments and reassembles, and survives restarts of the logic server.

  Conventions. Integers are words of the width they have in the code (\<open>usize\<close> is a natural number with
  its checked operations written out); byte strings are lists of 8-bit words. A panic is \<open>None\<close> in an
  option, an \<open>Err\<close> is \<open>Inl\<close> in a sum over the error type. \<open>chk\<close> says whether the build has overflow
  checks (a debug build, where overflow panics) or not (a release build, where it wraps). Instants and
  durations are nanoseconds. Everything the code obtains from outside is an argument: \<open>hmac4\<close>
  (HMAC-SHA256 cut to four bytes), \<open>rnd\<close> (the random bytes of a handshake), \<open>clk\<close>, \<open>clks\<close> (clock reads
  inside a handler), \<open>udp_ok\<close> (whether the operating system takes a datagram), \<open>alloc\<close>, \<open>grow\<close> (what the
  \<open>bytes\<close> crate allocates), the reads that a stream arrives in. A hash map whose iteration order can be
  observed is an association list in that order; one that is only looked up is a partial map.

  Theories and what they model.
  Prelude: little-endian packing (locale \<open>fixed_codec\<close>), checked arithmetic, capped deques.
  Proto_Types: \<open>protocol/types.rs\<close>, \<open>error.rs\<close>.
  Datagram: \<open>protocol/datagram.rs\<close>, the client codec.
  Framing: the contract of a length-prefixed framer (locale \<open>framing\<close>), interpreted by Uds_Frame
  (\<open>protocol/frame.rs\<close>, the reader of \<open>transport/uds.rs\<close>) and by Transport (\<open>transport/tcp.rs\<close>).
  Uds_Body: the frame bodies and addresses of \<open>protocol/frame.rs\<close>.
  F64, Rtt: binary64 rounding, and the estimator of \<open>reliable/rtt.rs\<close> over it.
  Serial, Retransmit: sequence numbers, and the queue of \<open>reliable/retransmit.rs\<close>.
  Fragment: \<open>reliable/fragment.rs\<close>.
  Session: one session of \<open>session/table.rs\<close> and its reliable ordered channel.
  Stats: \<open>stats.rs\<close>.
  Table: the session table and the inbound path of \<open>session/table.rs\<close> (the shards are a \<open>keyed_store\<close>).
  Lifecycle: maintenance, shutdown, lookup, kick and budgets of \<open>session/table.rs\<close>.
  Outbound: \<open>pack_outbound\<close> of \<open>session/table.rs\<close>.
  Transport: \<open>transport/tcp.rs\<close>, \<open>transport/ws.rs\<close>, \<open>transport/udp.rs\<close> without their sockets.
  Buffer_Pool, Netem: \<open>buffer.rs\<close>, \<open>transport/netem.rs\<close>.
  Stream_Service: the engine behind a transport with connections, as the interleaving \<open>svc_step\<close> of
  connections, reply tasks (\<open>engine.rs\<close>), write tasks (\<open>tcp.rs\<close>, \<open>ws.rs\<close>) and \<open>engine_step\<close>, with TCP
  (\<open>tcp_step\<close>) and WebSocket (\<open>ws_step\<close>) as instances.
  Engine_Tasks: the life of the engine process (\<open>run_with_shutdown\<close>): binding, the tasks it spawns and
  those these spawn, the drain and the abort, as \<open>proc_step\<close>, a refinement of \<open>engine_step\<close>.
  Connection: \<open>transport/connection.rs\<close>, \<open>handler.rs\<close> and \<open>req.rs\<close>, a request/reply connection that no
  module declares: its two tasks and the reply channel between them as the steps of \<open>conn_step\<close>, with
  the missing \<open>DataPack\<close> as the parameters \<open>pack\<close> and \<open>unpack\<close>.
  Engine: \<open>engine.rs\<close>, one function for every stretch of a task between two points where the task
  can be interrupted.
  Inbound, Maintenance, Long_Message, Trace, Engine_Run, End_To_End hold properties: Inbound of single
  datagrams, Maintenance of timers and budgets, Long_Message of fragmented messages from sender to
  receiver, Trace of the table as a state machine that refines an abstract lifecycle of session ids
  (locale \<open>simulation\<close>), Engine_Run of the engine as the interleaving \<open>engine_step\<close> of its tasks (the
  same locale, one level up), End_To_End of whole paths through the engine, Packet_Types of everything
  the engine sends (the typing \<open>table_typed\<close> of the retransmission queues).
  Ping, Client_Window, Client, Load_Tools: \<open>src/examples/engineload.rs\<close>, \<open>bench.rs\<close>, \<open>interop.rs\<close>. Ping has
  the texts of pings, Client_Window the window and the acknowledgement of \<open>client_worker\<close>, Client the
  three handshakes, the pings, the receive tasks and the echo server, Load_Tools the arguments, the
  percentiles and the windows the benchmark configures, Tool_Runs the two tasks of a client in any
  interleaving (\<open>client_step\<close>), the report over all clients and the loops that wait for the engine.
  Reliable_Link: the retransmission queue against a receiver over a lossy network (locale
  \<open>ack_receiver\<close>, interpreted on the load tool's window and on the engine's session).
  Client_Handshake, Client_Acks and Client_Engine hold properties of the tools against the engine: the
  handshakes, what the acknowledgements confirm, and a ping from the client through the engine to the
  echo server and back.

  What the lemmas show. Codecs: round trips in both directions on exactly the accepted inputs, and
  independence of how a stream is cut. Reliability: exactly-once in-order delivery under loss,
  duplication and reordering through sequence wrap-around (the abstract state is \<open>rx_at\<close>: an unbounded
  stream, the index delivered so far and the set held ahead of it), also for fragmented messages;
  acknowledgements that confirm exactly what was received; a queue history (\<open>rq_inv\<close>) that is FIFO and
  bounded; and both ends together as a perfect FIFO over a network that loses, duplicates and reorders
  (\<open>lossy_step\<close>), from any state of which one round trip without loss recovers. Security: no
  amplification, no session without its challenge, rejection of wrong HMACs, and the gap that a missing HMAC flag leaves. Lifecycle: one open, then traffic, then at most one close
  per session id, over any interleaving; what is left
  of the engine's tasks after a shutdown. Clients: the three handshakes open sessions, the load tool's
  acknowledgements equal the engine's and release exactly what was received, a ping comes back and is
  counted, and the report accounts for every ping; and where the tools confirm, count or configure wrongly, what exactly goes wrong. Typing: all
  that is ever sent can be read by the client it is sent to, over TCP in whole packets. Connections: every
  request answered once and in order, no deadlock between the reader and the writer, and an end.
  Robustness: no panic of a release build on any input. Bounds:
  budgets in every one-second window, RTO and RTT ranges, queue and pool sizes.

  Bounds and fuel. No definition of the program uses fuel: loops over data are structural or have a measure (the
  reorder buffer shrinks, the stream shrinks, the queue shrinks); \<open>advance\<close>, the one loop of the tools
  that need not end, is a partial function, proved to end on every window a client can have. The tasks of a request/reply connection end by
  a lexicographic measure (\<open>conn_order\<close>) if \<open>unpack\<close> never consumes nothing; the fuel of \<open>conn_run\<close> is
  only used to compute example runs. The tasks of the engine run for ever
  and are therefore not functions but steps of \<open>engine_step\<close>. Session ids are 64-bit and are assumed
  not to wrap (fewer than \<open>2^64 - 1\<close> datagrams); connection ids are cut to 32 bits as in the code.

  Not modelled. Sockets, the HTTP upgrade of WebSocket, the 300 ms the drain waits and the lock
  acquisition around each operation (operations are atomic steps, as each runs under the locks of the
  code or in one task); logging; HMAC-SHA256 and the random generator themselves; infinities, NaN and
  the sign of zero in the RTT estimator, which its inputs cannot produce. Of the
  load tools the sockets, the sleeping, the printing and the reading of \<open>--grace-scale\<close> as a binary64
  number (the parameter \<open>parse_f64\<close>) are left out. The Go kit under \<open>src/soup-sdk-go/\<close> and the tests are clients of the engine.
\<close>

end
